(* ===== verification/Flextoe_Prelude.thy ===== *)
theory Flextoe_Prelude
  imports Main "HOL-Library.Word"
begin

unbundle bit_operations_syntax

text \<open>
  Shared vocabulary of the development: names for the machine integers of the C code, the
  bit-field reads and writes of its packed structs, and the facts on 32-bit wrap-around
  arithmetic that the component proofs use.

  A C \<open>uint32_t\<close> is a \<open>32 word\<close>; its additions and subtractions wrap as the C ones do.
  Proofs move to \<open>nat\<close> with \<open>unat\<close>. The collection \<open>word_nat\<close> holds the rules that do so;
  \<open>unat_diff\<close> facts read a wrapped difference as a distance on the sequence-number circle.
\<close>

named_theorems word_nat \<open>rules that turn comparisons of words into comparisons of naturals\<close>

type_synonym u8 = "8 word"
type_synonym u16 = "16 word"
type_synonym u32 = "32 word"
type_synonym u64 = "64 word"

text \<open>The address of an object on the heap.\<close>

type_synonym addr = nat

subsection \<open>Bit fields\<close>

text \<open>
  The packed bit-fields of the firmware's structs are laid out from the most significant bit
  of each 32-bit word. A field is given by the position of its lowest bit and its width.
\<close>

definition bf_get :: "nat \<Rightarrow> nat \<Rightarrow> u32 \<Rightarrow> u32" where
  "bf_get lo n w = take_bit n (drop_bit lo w)"

definition bf_set :: "nat \<Rightarrow> nat \<Rightarrow> u32 \<Rightarrow> u32 \<Rightarrow> u32" where
  "bf_set lo n v w = (w AND NOT (push_bit lo (mask n))) OR push_bit lo (take_bit n v)"

lemma bit_bf_get: "bit (bf_get lo n w) i \<longleftrightarrow> i < n \<and> bit w (lo + i)"
  by (auto simp: bf_get_def bit_take_bit_iff bit_drop_bit_eq)

lemma bit_bf_set:
  "bit (bf_set lo n v w) i \<longleftrightarrow>
     i < 32 \<and> (if lo \<le> i \<and> i < lo + n then bit v (i - lo) else bit w i)"
proof (cases "i < 32")
  case True
  then show ?thesis
    by (auto simp: bf_set_def bit_and_iff bit_or_iff bit_not_iff bit_push_bit_iff
        bit_take_bit_iff bit_mask_iff)
next
  case False
  then show ?thesis by (auto dest: bit_imp_le_length)
qed

lemma bf_get_set_same: "lo + n \<le> 32 \<Longrightarrow> bf_get lo n (bf_set lo n v w) = take_bit n v"
  by (rule bit_word_eqI) (auto simp: bit_bf_get bit_bf_set bit_take_bit_iff)

lemma bf_get_set_other:
  "lo' + n' \<le> lo \<or> lo + n \<le> lo' \<Longrightarrow> bf_get lo' n' (bf_set lo n v w) = bf_get lo' n' w"
  by (rule bit_word_eqI) (auto simp: bit_bf_get bit_bf_set dest: bit_imp_le_length)

lemma bf_get_bound: "n < 32 \<Longrightarrow> unat (bf_get lo n w) < 2 ^ n"
  by (simp add: bf_get_def unsigned_take_bit_eq)

text \<open>A value below \<open>2 ^ n\<close> has no bit at or above \<open>n\<close>.\<close>

lemma bit_unat_small: "bit (x :: u32) i \<Longrightarrow> unat x < 2 ^ n \<Longrightarrow> i < n"
proof (rule ccontr)
  assume b: "bit x i" and s: "unat x < 2 ^ n" and "\<not> i < n"
  then have "(2 :: nat) ^ n \<le> 2 ^ i" by (intro power_increasing) auto
  with s have "unat x < 2 ^ i" by (rule less_le_trans)
  then have "\<not> bit (unat x) i" by (simp add: bit_iff_odd)
  moreover have "bit (unat x) i" using b by (simp add: bit_unsigned_iff bit_imp_le_length)
  ultimately show False ..
qed

lemmas bit_unat_16 = bit_unat_small [where n = 16, simplified]

text \<open>Reading a field of a word assembled with shifts and \<open>OR\<close>.\<close>

lemma bf_get_or: "bf_get lo n (a OR b) = bf_get lo n a OR bf_get lo n b"
  by (rule bit_word_eqI) (auto simp: bit_bf_get bit_or_iff)

lemma bf_get_and: "bf_get lo n (a AND b) = bf_get lo n a AND bf_get lo n b"
  by (rule bit_word_eqI) (auto simp: bit_bf_get bit_and_iff)

lemma bf_get_push_above: "lo + n \<le> k \<Longrightarrow> bf_get lo n (push_bit k x) = 0"
  by (rule bit_word_eqI) (auto simp: bit_bf_get bit_push_bit_iff)

lemma bf_get_push_same: "lo + n \<le> 32 \<Longrightarrow> bf_get lo n (push_bit lo x) = take_bit n x"
  by (rule bit_word_eqI) (auto simp: bit_bf_get bit_push_bit_iff bit_take_bit_iff)

lemma bf_get_small: "unat x < 2 ^ lo \<Longrightarrow> bf_get lo n x = 0"
  by (rule bit_word_eqI) (auto simp: bit_bf_get dest: bit_unat_small)

lemma bf_get_push_below: "m + k \<le> lo \<Longrightarrow> unat x < 2 ^ m \<Longrightarrow> bf_get lo n (push_bit k x) = 0"
  by (rule bit_word_eqI) (auto simp: bit_bf_get bit_push_bit_iff dest: bit_unat_small)

lemma take_bit_small: "unat (x :: u32) < 2 ^ n \<Longrightarrow> take_bit n x = x"
  by (rule bit_word_eqI) (auto simp: bit_take_bit_iff dest: bit_unat_small)

lemma bf_get_0_small: "unat x < 2 ^ n \<Longrightarrow> bf_get 0 n x = x"
  by (simp add: bf_get_def take_bit_small)

lemma and_mask_nat: "unat (x AND (2 ^ k - 1) :: u32) = unat x mod 2 ^ k" if "k < 32"
proof -
  have "(2 ^ k - 1 :: u32) = mask k" by (simp add: mask_eq_exp_minus_1)
  then have eq: "x AND (2 ^ k - 1) = take_bit k x" by (simp only: take_bit_eq_mask)
  show ?thesis unfolding eq unsigned_take_bit_eq by (simp add: take_bit_eq_mod)
qed

subsection \<open>Wrap-around arithmetic\<close>

lemmas word_cmp_nat [word_nat] = word_le_nat_alt word_less_nat_alt

lemma unat_add_exact: "unat (a :: u32) + unat b < 2 ^ 32 \<Longrightarrow> unat (a + b) = unat a + unat b"
  by (simp add: unat_word_ariths)

lemma unat_sub_exact: "(b :: u32) \<le> a \<Longrightarrow> unat (a - b) = unat a - unat b"
  by (rule unat_sub)

lemma unat_min [word_nat]: "unat (min a (b :: u32)) = min (unat a) (unat b)"
  by (auto simp: min_def word_nat)

lemma unat_u32_less: "unat (x :: u32) < 4294967296"
  using unsigned_less [of x] by simp

lemma unat_drop_bit: "unat (drop_bit n x :: u32) = unat x div 2 ^ n"
proof -
  have "take_bit 32 (unat x) = unat x"
    by (simp add: take_bit_nat_eq_self unat_u32_less)
  then show ?thesis unfolding unsigned_drop_bit_eq by (simp add: drop_bit_eq_div)
qed

lemma unat_add_le:
  assumes "unat (a :: u32) + unat b \<le> unat (c :: u32)"
  shows "unat (a + b) = unat a + unat b"
  using le_less_trans [OF assms unat_u32_less] by (intro unat_add_exact) simp

lemma word_add_eq_iff_diff: "(a + b = (c :: u32)) \<longleftrightarrow> b = c - a"
  by (auto simp: algebra_simps)

text \<open>Two points ahead of the same origin: their distance is the difference of their offsets.\<close>

lemma unat_offset_add:
  assumes "unat (x - o') + unat n < 2 ^ 32"
  shows "unat ((x + n) - (o' :: u32)) = unat (x - o') + unat n"
proof -
  have "(x + n) - o' = (x - o') + n" by simp
  then show ?thesis using assms by (metis unat_add_exact)
qed

lemma unat_offset_add_le:
  "unat (x - o') + unat n \<le> unat (c :: u32) \<Longrightarrow>
     unat ((x + n) - (o' :: u32)) = unat (x - o') + unat n"
  using unat_add_le [of "x - o'" n c] by (simp add: algebra_simps)

lemma unat_neg_pos: "(x :: u32) \<noteq> 0 \<Longrightarrow> unat (- x) = 2 ^ 32 - unat x"
  using unat_sub_if' [of 0 x] by (simp add: word_nat unat_eq_0)

lemma of_nat_unat_u32 [simp]: "(of_nat (unat (x :: u32)) :: u32) = x"
  by simp

lemma unat_of_nat_small: "n \<le> unat (x :: u32) \<Longrightarrow> unat (of_nat n :: u32) = n"
  using le_less_trans [OF _ unat_u32_less [of x]] by (simp add: unat_of_nat)

text \<open>Offsets within one turn of a ring give different places.\<close>

lemma mod_add_inj:
  assumes "i < len" and "j < len" and "(t + i) mod len = (t + j) mod (len :: nat)"
  shows "i = j"
  using assms
proof (induction i j rule: linorder_wlog)
  case (le x y)
  then have "len dvd (t + y) - (t + x)" by (intro mod_eq_dvd_iff_nat [THEN iffD1]) auto
  then have "len dvd y - x" by simp
  then show ?case using le nat_dvd_not_less [of "y - x" len] by (cases "x = y") auto
qed auto

subsection \<open>Runs of a step function\<close>

text \<open>
  A component that handles one event at a time is a function \<open>step :: 'e \<Rightarrow> 's \<Rightarrow> 's\<close>. The
  hypothesis \<open>ok\<close> says what its environment guarantees for an event in a state. Two contracts
  for such a component, with what follows for runs of any length: an invariant every step
  keeps, and a simulation by an abstract step relation.
\<close>

fun run :: "('e \<Rightarrow> 's \<Rightarrow> 's) \<Rightarrow> 'e list \<Rightarrow> 's \<Rightarrow> 's" where
  "run step [] s = s"
| "run step (e # es) s = run step es (step e s)"

lemma run_append: "run step (es @ fs) s = run step fs (run step es s)"
  by (induction es arbitrary: s) auto

lemma run_replicate_Suc: "run step (replicate (Suc k) e) s = step e (run step (replicate k e) s)"
  by (induction k arbitrary: s) auto

fun run_ok :: "('e \<Rightarrow> 's \<Rightarrow> 's) \<Rightarrow> ('e \<Rightarrow> 's \<Rightarrow> bool) \<Rightarrow> 'e list \<Rightarrow> 's \<Rightarrow> bool" where
  "run_ok step ok [] s = True"
| "run_ok step ok (e # es) s = (ok e s \<and> run_ok step ok es (step e s))"

locale invariant_system =
  fixes step :: "'e \<Rightarrow> 's \<Rightarrow> 's"
    and ok :: "'e \<Rightarrow> 's \<Rightarrow> bool"
    and invar :: "'s \<Rightarrow> bool"
  assumes step_invar: "invar s \<Longrightarrow> ok e s \<Longrightarrow> invar (step e s)"
begin

lemma run_invar: "invar s \<Longrightarrow> run_ok step ok es s \<Longrightarrow> invar (run step es s)"
  by (induction es arbitrary: s) (auto intro: step_invar)

end

text \<open>
  For the simulation, \<open>obs e c\<close> is the abstract event that handling \<open>e\<close> in state \<open>c\<close> amounts
  to; the abstract system takes the same sequence of abstract events.
\<close>

fun run_obs :: "('e \<Rightarrow> 's \<Rightarrow> 's) \<Rightarrow> ('e \<Rightarrow> 's \<Rightarrow> 'l) \<Rightarrow> 'e list \<Rightarrow> 's \<Rightarrow> 'l list" where
  "run_obs step obs [] s = []"
| "run_obs step obs (e # es) s = obs e s # run_obs step obs es (step e s)"

fun steps :: "('a \<Rightarrow> 'l \<Rightarrow> 'a \<Rightarrow> bool) \<Rightarrow> 'a \<Rightarrow> 'l list \<Rightarrow> 'a \<Rightarrow> bool" where
  "steps astep a [] b = (a = b)"
| "steps astep a (l # ls) b = (\<exists>c. astep a l c \<and> steps astep c ls b)"

locale simulation =
  fixes step :: "'e \<Rightarrow> 'c \<Rightarrow> 'c"
    and ok :: "'e \<Rightarrow> 'c \<Rightarrow> bool"
    and obs :: "'e \<Rightarrow> 'c \<Rightarrow> 'l"
    and astep :: "'a \<Rightarrow> 'l \<Rightarrow> 'a \<Rightarrow> bool"
    and rel :: "'a \<Rightarrow> 'c \<Rightarrow> bool"
  assumes sim: "rel a c \<Longrightarrow> ok e c \<Longrightarrow> \<exists>a'. astep a (obs e c) a' \<and> rel a' (step e c)"
begin

lemma run_sim:
  "rel a c \<Longrightarrow> run_ok step ok es c \<Longrightarrow>
     \<exists>a'. steps astep a (run_obs step obs es c) a' \<and> rel a' (run step es c)"
proof (induction es arbitrary: a c)
  case Nil
  then show ?case by auto
next
  case (Cons e es)
  from Cons.prems obtain b where "astep a (obs e c) b" "rel b (step e c)"
    using sim by fastforce
  with Cons.IH [of b "step e c"] Cons.prems show ?case by auto
qed

end

text \<open>A simulated component keeps every property of the abstract system that its steps keep.\<close>

locale simulation_invariant = simulation +
  fixes ainv :: "'a \<Rightarrow> bool"
  assumes ainv_step: "astep a l a' \<Longrightarrow> ainv a \<Longrightarrow> ainv a'"
begin

lemma ainv_steps: "steps astep a ls a' \<Longrightarrow> ainv a \<Longrightarrow> ainv a'"
  by (induction ls arbitrary: a) (auto intro: ainv_step)

lemma run_ainv:
  assumes "rel a c" and "ainv a" and "run_ok step ok es c"
  shows "\<exists>a'. steps astep a (run_obs step obs es c) a' \<and> ainv a' \<and> rel a' (run step es c)"
  using run_sim [OF assms(1,3)] ainv_steps assms(2) by blast

end

text \<open>
  A store of values by key behind an update operation: an event works on the value of its key and
  on nothing else. Whatever the store does inside, each key then sees its own events in order.
\<close>

locale keyed_store =
  fixes get :: "'c \<Rightarrow> 'k \<Rightarrow> 'v"
    and upd :: "'e \<Rightarrow> 'c \<Rightarrow> 'c"
    and key :: "'e \<Rightarrow> 'k"
    and f :: "'e \<Rightarrow> 'v \<Rightarrow> 'v"
    and ok :: "'e \<Rightarrow> 'c \<Rightarrow> bool"
    and invar :: "'c \<Rightarrow> bool"
    and valid :: "'k \<Rightarrow> bool"
  assumes invar_upd: "invar c \<Longrightarrow> ok e c \<Longrightarrow> invar (upd e c)"
    and get_same: "invar c \<Longrightarrow> ok e c \<Longrightarrow> get (upd e c) (key e) = f e (get c (key e))"
    and get_other: "invar c \<Longrightarrow> ok e c \<Longrightarrow> valid k \<Longrightarrow> k \<noteq> key e \<Longrightarrow> get (upd e c) k = get c k"
begin

lemma run_get:
  "invar c \<Longrightarrow> run_ok upd ok es c \<Longrightarrow> valid k \<Longrightarrow>
     get (run upd es c) k = run f (filter (\<lambda>e. key e = k) es) (get c k)"
proof (induction es arbitrary: c)
  case Nil
  then show ?case by simp
next
  case (Cons e es)
  then have "get (upd e c) k = (if key e = k then f e (get c k) else get c k)"
    using get_same get_other by auto
  with Cons show ?case using invar_upd by auto
qed

end

end
