(* ===== verification/Flow_State.thy ===== *)
theory Flow_State
  imports Flextoe_Prelude
begin

unbundle bit_operations_syntax

text \<open>
  The data the fast path passes around: the per-flow TCP state \<open>struct flowst_tcp_t\<close> of
  \<open>include/flow_state.h\<close>, the work items and work results of \<open>firmware/pipeline.h\<close>, the
  packet summary of \<open>firmware/packet_defs.h\<close>, and the flag words.
\<close>

subsection \<open>Flow state\<close>

record flowst_tcp_t =
  fs_tx_len :: u32
  fs_tx_avail :: u32
  fs_tx_remote_avail :: u32
  fs_tx_sent :: u32
  fs_tx_next_seq :: u32
  fs_tx_next_pos :: u32
  fs_tx_next_ts :: u32
  fs_flags :: u16
  fs_dupack_cnt :: u16
  fs_rx_len :: u32
  fs_rx_avail :: u32
  fs_rx_next_seq :: u32
  fs_rx_next_pos :: u32
  fs_rx_ooo_len :: u32
  fs_rx_ooo_start :: u32

definition FLEXNIC_PL_FLOWST_ECN :: u16 where "FLEXNIC_PL_FLOWST_ECN = 1"
definition FLEXNIC_PL_FLOWST_TXFIN :: u16 where "FLEXNIC_PL_FLOWST_TXFIN = 2"
definition FLEXNIC_PL_FLOWST_SLOWPATH :: u16 where "FLEXNIC_PL_FLOWST_SLOWPATH = 4"
definition FLEXNIC_PL_FLOWST_RXFIN :: u16 where "FLEXNIC_PL_FLOWST_RXFIN = 8"

lemmas flowst_flag_defs = FLEXNIC_PL_FLOWST_ECN_def FLEXNIC_PL_FLOWST_TXFIN_def
  FLEXNIC_PL_FLOWST_SLOWPATH_def FLEXNIC_PL_FLOWST_RXFIN_def

definition FLEXNIC_PL_FLOWST_NUM :: nat where "FLEXNIC_PL_FLOWST_NUM = 16384"
definition NUM_FLOW_GROUPS :: u32 where "NUM_FLOW_GROUPS = 4"

subsection \<open>Work items\<close>

text \<open>
  \<open>struct work_t\<close> is a union of three views of the same three words. The model keeps the
  words and reads each view's fields as bit slices.
\<close>

record work_t =
  raw0 :: u32
  raw1 :: u32
  raw2 :: u32

definition WORK_TYPE_RX :: u32 where "WORK_TYPE_RX = 0"
definition WORK_TYPE_TX :: u32 where "WORK_TYPE_TX = 1"
definition WORK_TYPE_AC :: u32 where "WORK_TYPE_AC = 2"
definition WORK_TYPE_RETX :: u32 where "WORK_TYPE_RETX = 3"

lemmas work_type_defs = WORK_TYPE_RX_def WORK_TYPE_TX_def WORK_TYPE_AC_def WORK_TYPE_RETX_def

definition work_type :: "work_t \<Rightarrow> u32" where "work_type w = bf_get 30 2 (raw0 w)"
definition work_flow_id :: "work_t \<Rightarrow> u32" where "work_flow_id w = bf_get 16 16 (raw2 w)"

definition io_cbs :: "work_t \<Rightarrow> u32" where "io_cbs w = bf_get 28 2 (raw0 w)"
definition io_isl :: "work_t \<Rightarrow> u32" where "io_isl w = bf_get 26 2 (raw0 w)"
definition io_pnum :: "work_t \<Rightarrow> u32" where "io_pnum w = bf_get 16 10 (raw0 w)"
definition io_seq :: "work_t \<Rightarrow> u32" where "io_seq w = bf_get 0 16 (raw0 w)"
definition io_force :: "work_t \<Rightarrow> u32" where "io_force w = bf_get 31 1 (raw1 w)"
definition io_bls :: "work_t \<Rightarrow> u32" where "io_bls w = bf_get 29 2 (raw1 w)"
definition io_muptr :: "work_t \<Rightarrow> u32" where "io_muptr w = bf_get 0 29 (raw1 w)"
definition io_seqr :: "work_t \<Rightarrow> u32" where "io_seqr w = bf_get 11 5 (raw2 w)"
definition io_plen :: "work_t \<Rightarrow> u32" where "io_plen w = bf_get 0 11 (raw2 w)"

definition io_set_seq :: "u32 \<Rightarrow> work_t \<Rightarrow> work_t" where
  "io_set_seq v w = w\<lparr>raw0 := bf_set 0 16 v (raw0 w)\<rparr>"

definition ac_fin :: "work_t \<Rightarrow> u32" where "ac_fin w = bf_get 29 1 (raw0 w)"
definition ac_rx_bump :: "work_t \<Rightarrow> u32" where "ac_rx_bump w = bf_get 0 29 (raw0 w)"
definition ac_tx_bump :: "work_t \<Rightarrow> u32" where "ac_tx_bump w = bf_get 0 29 (raw1 w)"
definition ac_desc_idx :: "work_t \<Rightarrow> u32" where "ac_desc_idx w = bf_get 0 16 (raw2 w)"

lemmas work_field_defs = work_type_def work_flow_id_def io_cbs_def io_isl_def io_pnum_def
  io_seq_def io_force_def io_bls_def io_muptr_def io_seqr_def io_plen_def
  ac_fin_def ac_rx_bump_def ac_tx_bump_def ac_desc_idx_def

lemma io_plen_bound: "unat (io_plen w) < 2048"
  using bf_get_bound [of 11 0 "raw2 w"] by (simp add: io_plen_def)

lemma io_set_seq_frame [simp]:
  "work_type (io_set_seq v w) = work_type w"
  "work_flow_id (io_set_seq v w) = work_flow_id w"
  "io_cbs (io_set_seq v w) = io_cbs w"
  "io_isl (io_set_seq v w) = io_isl w"
  "io_pnum (io_set_seq v w) = io_pnum w"
  "io_plen (io_set_seq v w) = io_plen w"
  "io_force (io_set_seq v w) = io_force w"
  "io_seqr (io_set_seq v w) = io_seqr w"
  by (simp_all add: io_set_seq_def work_field_defs bf_get_set_other)

lemma io_seq_set_seq [simp]: "io_seq (io_set_seq v w) = take_bit 16 v"
  by (simp add: io_set_seq_def io_seq_def bf_get_set_same)

subsection \<open>Work results\<close>

record work_result_t =
  res_work :: work_t
  res_seq :: u32
  res_ack :: u32
  res_win :: u32
  res_ts_val :: u32
  res_ts_ecr :: u32
  res_qm_bump :: u32
  res_dma_pos :: u32
  res_dma_raw :: u32
  res_ac_rx_bump :: u32
  res_ac_tx_bump :: u32
  res_flags :: u32

definition WORK_RESULT_TX :: u32 where "WORK_RESULT_TX = 1"
definition WORK_RESULT_DMA_ACDESC :: u32 where "WORK_RESULT_DMA_ACDESC = 2"
definition WORK_RESULT_DMA_PAYLOAD :: u32 where "WORK_RESULT_DMA_PAYLOAD = 4"
definition WORK_RESULT_RETX :: u32 where "WORK_RESULT_RETX = 8"
definition WORK_RESULT_FIN :: u32 where "WORK_RESULT_FIN = 16"
definition WORK_RESULT_QM :: u32 where "WORK_RESULT_QM = 32"
definition WORK_RESULT_QM_FORCE :: u32 where "WORK_RESULT_QM_FORCE = 64"
definition WORK_RESULT_ECE :: u32 where "WORK_RESULT_ECE = 128"
definition WORK_RESULT_TXP_ZERO :: u32 where "WORK_RESULT_TXP_ZERO = 256"
definition WORK_RESULT_ECNB :: u32 where "WORK_RESULT_ECNB = 512"

lemmas work_result_defs = WORK_RESULT_TX_def WORK_RESULT_DMA_ACDESC_def
  WORK_RESULT_DMA_PAYLOAD_def WORK_RESULT_RETX_def WORK_RESULT_FIN_def WORK_RESULT_QM_def
  WORK_RESULT_QM_FORCE_def WORK_RESULT_ECE_def WORK_RESULT_TXP_ZERO_def WORK_RESULT_ECNB_def

text \<open>\<open>WORK_DMA_OFFSET_LEN_SET\<close> writes \<open>dma_len\<close> and \<open>dma_offset\<close> as one word.\<close>

definition WORK_DMA_OFFSET_LEN_SET :: "u32 \<Rightarrow> u32 \<Rightarrow> work_result_t \<Rightarrow> work_result_t" where
  "WORK_DMA_OFFSET_LEN_SET len off r = r\<lparr>res_dma_raw := push_bit 16 len OR off\<rparr>"

definition res_dma_len :: "work_result_t \<Rightarrow> u32" where
  "res_dma_len r = bf_get 16 16 (res_dma_raw r)"

definition res_dma_offset :: "work_result_t \<Rightarrow> u32" where
  "res_dma_offset r = bf_get 0 16 (res_dma_raw r)"

lemma res_dma_len_set:
  "unat len < 2 ^ 16 \<Longrightarrow> unat off < 2 ^ 16 \<Longrightarrow>
     res_dma_len (WORK_DMA_OFFSET_LEN_SET len off r) = len"
  by (rule bit_word_eqI)
     (auto simp: res_dma_len_def WORK_DMA_OFFSET_LEN_SET_def bit_bf_get bit_or_iff bit_push_bit_iff
       dest: bit_unat_16)

lemma res_dma_offset_set:
  "unat off < 2 ^ 16 \<Longrightarrow> res_dma_offset (WORK_DMA_OFFSET_LEN_SET len off r) = off"
  by (rule bit_word_eqI)
     (auto simp: res_dma_offset_def WORK_DMA_OFFSET_LEN_SET_def bit_bf_get bit_or_iff
       bit_push_bit_iff dest: bit_unat_16)

lemma WORK_DMA_OFFSET_LEN_SET_simps [simp]:
  "res_flags (WORK_DMA_OFFSET_LEN_SET len off r) = res_flags r"
  "res_dma_pos (WORK_DMA_OFFSET_LEN_SET len off r) = res_dma_pos r"
  "res_seq (WORK_DMA_OFFSET_LEN_SET len off r) = res_seq r"
  "res_ack (WORK_DMA_OFFSET_LEN_SET len off r) = res_ack r"
  "res_win (WORK_DMA_OFFSET_LEN_SET len off r) = res_win r"
  "WORK_DMA_OFFSET_LEN_SET len off (WORK_DMA_OFFSET_LEN_SET len' off' r) =
     WORK_DMA_OFFSET_LEN_SET len off r"
  by (simp_all add: WORK_DMA_OFFSET_LEN_SET_def)

lemma res_dma_flags_upd [simp]:
  "res_dma_len (r\<lparr>res_flags := f\<rparr>) = res_dma_len r"
  "res_dma_offset (r\<lparr>res_flags := f\<rparr>) = res_dma_offset r"
  by (simp_all add: res_dma_len_def res_dma_offset_def)

text \<open>The C test \<open>(fl & b) != 0\<close>, at every width the code uses it.\<close>

definition has_flag :: "'a::len word \<Rightarrow> 'a word \<Rightarrow> bool" where
  "has_flag fl b = (fl AND b \<noteq> 0)"

lemma has_flag_or [simp]: "has_flag (a OR b) f \<longleftrightarrow> has_flag a f \<or> has_flag b f"
  by (auto simp: has_flag_def bit.conj_disj_distrib2 or_eq_0_iff)

lemma has_flag_zero [simp]: "\<not> has_flag 0 f"
  by (simp add: has_flag_def)

lemma has_flag_result [simp]:
  "has_flag WORK_RESULT_TX WORK_RESULT_TX"
  "has_flag WORK_RESULT_DMA_PAYLOAD WORK_RESULT_DMA_PAYLOAD"
  "has_flag WORK_RESULT_RETX WORK_RESULT_RETX"
  "has_flag WORK_RESULT_FIN WORK_RESULT_FIN"
  "has_flag WORK_RESULT_QM WORK_RESULT_QM"
  "\<not> has_flag WORK_RESULT_TX WORK_RESULT_FIN"
  "\<not> has_flag WORK_RESULT_DMA_PAYLOAD WORK_RESULT_FIN"
  "\<not> has_flag WORK_RESULT_TX WORK_RESULT_RETX"
  "\<not> has_flag WORK_RESULT_FIN WORK_RESULT_RETX"
  "\<not> has_flag WORK_RESULT_DMA_ACDESC WORK_RESULT_RETX"
  "\<not> has_flag WORK_RESULT_DMA_PAYLOAD WORK_RESULT_RETX"
  "\<not> has_flag WORK_RESULT_TXP_ZERO WORK_RESULT_RETX"
  "\<not> has_flag WORK_RESULT_QM WORK_RESULT_RETX"
  "\<not> has_flag WORK_RESULT_ECE WORK_RESULT_RETX"
  "\<not> has_flag WORK_RESULT_ECNB WORK_RESULT_RETX"
  "\<not> has_flag WORK_RESULT_TX WORK_RESULT_DMA_PAYLOAD"
  "\<not> has_flag WORK_RESULT_FIN WORK_RESULT_DMA_PAYLOAD"
  "\<not> has_flag WORK_RESULT_DMA_ACDESC WORK_RESULT_DMA_PAYLOAD"
  "\<not> has_flag WORK_RESULT_TXP_ZERO WORK_RESULT_DMA_PAYLOAD"
  "\<not> has_flag WORK_RESULT_QM WORK_RESULT_DMA_PAYLOAD"
  "\<not> has_flag WORK_RESULT_ECE WORK_RESULT_DMA_PAYLOAD"
  "\<not> has_flag WORK_RESULT_ECNB WORK_RESULT_DMA_PAYLOAD"
  by (simp_all add: has_flag_def work_result_defs)

subsection \<open>Packet summary\<close>

record pkt_summary_t =
  pkt_seq :: u32
  pkt_ack :: u32
  pkt_ecn :: bool
  pkt_flags :: u8
  pkt_win :: u16
  pkt_ts_val :: u32
  pkt_ts_ecr :: u32

definition NET_TCP_FLAG_FIN :: u8 where "NET_TCP_FLAG_FIN = 1"
definition NET_TCP_FLAG_ECE :: u8 where "NET_TCP_FLAG_ECE = 64"

subsection \<open>Sample values\<close>

text \<open>
  A flow with 3000 unsent bytes and an open window, its receive buffer half full, and work items
  of each type; used to instantiate the properties.
\<close>

definition sample_fs :: flowst_tcp_t where
  "sample_fs = \<lparr>fs_tx_len = 8192, fs_tx_avail = 3000, fs_tx_remote_avail = 4096, fs_tx_sent = 0,
     fs_tx_next_seq = 0, fs_tx_next_pos = 0, fs_tx_next_ts = 7, fs_flags = 0, fs_dupack_cnt = 0,
     fs_rx_len = 8192, fs_rx_avail = 4096, fs_rx_next_seq = 5000, fs_rx_next_pos = 4096,
     fs_rx_ooo_len = 0, fs_rx_ooo_start = 0\<rparr>"

definition sample_result :: work_result_t where
  "sample_result = \<lparr>res_work = \<lparr>raw0 = 0, raw1 = 0, raw2 = 0\<rparr>, res_seq = 0, res_ack = 0,
     res_win = 0, res_ts_val = 0, res_ts_ecr = 0, res_qm_bump = 0, res_dma_pos = 0,
     res_dma_raw = 0, res_ac_rx_bump = 0, res_ac_tx_bump = 0, res_flags = 0\<rparr>"

text \<open>A segment of 100 bytes that starts at the next expected byte and acknowledges nothing new.\<close>

definition sample_pkt :: pkt_summary_t where
  "sample_pkt = \<lparr>pkt_seq = 5000, pkt_ack = 0, pkt_ecn = False, pkt_flags = 16, pkt_win = 4096,
     pkt_ts_val = 9, pkt_ts_ecr = 8\<rparr>"

definition work_rx100 :: work_t where
  "work_rx100 = \<lparr>raw0 = 0, raw1 = 0, raw2 = push_bit 16 1 OR 100\<rparr>"

definition work_tx :: work_t where
  "work_tx = \<lparr>raw0 = push_bit 30 1, raw1 = 0, raw2 = push_bit 16 1\<rparr>"

definition work_ac200 :: work_t where
  "work_ac200 = \<lparr>raw0 = push_bit 30 2 OR 50, raw1 = 200, raw2 = push_bit 16 1\<rparr>"

lemmas sample_defs = sample_fs_def sample_result_def sample_pkt_def work_rx100_def work_tx_def
  work_ac200_def

lemma sample_work_types [simp]:
  "work_type work_rx100 = WORK_TYPE_RX" "work_type work_tx = WORK_TYPE_TX"
  "work_type work_ac200 = WORK_TYPE_AC" "io_plen work_rx100 = 100" "io_force work_tx = 0"
  "ac_tx_bump work_ac200 = 200" "ac_rx_bump work_ac200 = 50"
  by (simp_all add: sample_defs work_field_defs work_type_defs bf_get_def)

end
