(* ===== verification/Tcp_Flows.thy ===== *)
theory Tcp_Flows
  imports Flow_State
begin

unbundle bit_operations_syntax

text \<open>
  The protocol stage of the fast path, \<open>firmware/flows.c\<close>: one definition per intrinsic. Every
  handler takes the work item, the flow state and the previous contents of the result registers
  and returns the new flow state and result; fields the C code does not write keep their old
  contents. The compile-time switches have the values of \<open>firmware/config.h\<close>:
  \<open>ALLOW_FUTURE_ACKS = 1\<close>, \<open>SKIP_ACK = 0\<close>, \<open>ALLOW_OOO_RECV = 1\<close>, \<open>FORCE_SEND_WINUPDATE = 1\<close>.

  The lemmas show what each handler keeps of the send side (unacknowledged and unsent bytes, the
  sequence number and buffer position of the oldest unacknowledged byte) and of the receive side
  (the out-of-order interval stays inside the free part of the receive buffer).
\<close>

definition TCP_MSS :: u32 where "TCP_MSS = 1448"

subsection \<open>Checks\<close>

definition tcp_txavail :: "flowst_tcp_t \<Rightarrow> u32 \<Rightarrow> u32" where
  "tcp_txavail fs bump =
     (let buf_avail = bump + fs_tx_avail fs;
          fc_avail = fs_tx_remote_avail fs - fs_tx_sent fs
      in min buf_avail fc_avail)"

definition tcp_valid_rxack :: "flowst_tcp_t \<Rightarrow> u32 \<Rightarrow> u32 option" where
  "tcp_valid_rxack fs ack =
     (let next_ack = fs_tx_next_seq fs - fs_tx_sent fs;
          tx_sent = fs_tx_sent fs + fs_tx_avail fs;
          hole = ack - next_ack
      in if hole > tx_sent then None else Some hole)"

definition tcp_rxseq_inwindow :: "flowst_tcp_t \<Rightarrow> u32 \<Rightarrow> bool" where
  "tcp_rxseq_inwindow fs seq =
     (let trim = seq - fs_rx_next_seq fs in \<not> trim > fs_rx_avail fs)"

definition tcp_trim_rxbuf :: "flowst_tcp_t \<Rightarrow> u32 \<Rightarrow> u32 \<Rightarrow> (u32 \<times> u32) option" where
  "tcp_trim_rxbuf fs seq bytes =
     (let next_seq = fs_rx_next_seq fs; avail = fs_rx_avail fs;
          trim = next_seq - seq
      in if trim \<le> bytes then
           Some (trim, (let t = bytes - trim in if t \<le> avail then 0 else t - avail))
         else let t = - trim in
           if t \<ge> avail then None
           else Some (0, if avail - t \<ge> bytes then 0 else bytes - (avail - t)))"

text \<open>
  Compiled but not called with \<open>ALLOW_OOO_RECV\<close>. It loads word 10 of the flow state, the next
  sequence number, where its comment says \<open>rx_avail\<close> (word 9).
\<close>

definition tcp_valid_rxseq :: "flowst_tcp_t \<Rightarrow> u32 \<Rightarrow> u32 \<Rightarrow> (u32 \<times> u32) option" where
  "tcp_valid_rxseq fs seq bytes =
     (let next_seq = fs_rx_next_seq fs; avail = fs_rx_next_seq fs;
          trim = next_seq - seq
      in if trim > bytes then None
         else Some (trim, (let t = bytes - trim in if t \<le> avail then 0 else t - avail)))"

subsection \<open>Transmission, application updates, retransmission\<close>

definition flows_tx :: "work_t \<Rightarrow> flowst_tcp_t \<Rightarrow> work_result_t \<Rightarrow> flowst_tcp_t \<times> work_result_t" where
  "flows_tx work fs result =
     (let r = result\<lparr>res_work := work\<rparr>;
          avail = tcp_txavail fs 0;
          flags = WORK_RESULT_TX OR WORK_RESULT_DMA_PAYLOAD
      in if avail = 0 \<and> io_force work = 0 then (fs, r\<lparr>res_flags := 0\<rparr>)
         else
           let payload_len = min avail TCP_MSS;
               fin = has_flag (fs_flags fs) FLEXNIC_PL_FLOWST_TXFIN \<and> fs_tx_avail fs = 0;
               r1 = r\<lparr>res_seq := fs_tx_next_seq fs, res_ack := fs_rx_next_seq fs,
                      res_win := fs_rx_avail fs, res_ts_ecr := fs_tx_next_ts fs,
                      res_dma_pos := fs_tx_next_pos fs\<rparr>;
               r2 = WORK_DMA_OFFSET_LEN_SET payload_len 0 r1;
               fs1 = fs\<lparr>fs_tx_next_seq := fs_tx_next_seq fs + payload_len,
                        fs_tx_next_pos := fs_tx_next_pos fs + payload_len,
                        fs_tx_sent := fs_tx_sent fs + payload_len,
                        fs_tx_avail := fs_tx_avail fs - payload_len\<rparr>
           in if fin then
                (fs1, (WORK_DMA_OFFSET_LEN_SET (payload_len - 1) 0 r2)
                        \<lparr>res_flags := flags OR WORK_RESULT_FIN\<rparr>)
              else (fs1, r2\<lparr>res_flags := flags\<rparr>))"

definition flows_ac :: "work_t \<Rightarrow> flowst_tcp_t \<Rightarrow> work_result_t \<Rightarrow> flowst_tcp_t \<times> work_result_t" where
  "flows_ac work fs result =
     (let r = result\<lparr>res_work := work\<rparr>;
          rx_bump = ac_rx_bump work;
          tx_bump = ac_tx_bump work;
          old_avail = tcp_txavail fs 0;
          new_avail = tcp_txavail fs tx_bump;
          fs1 = (if ac_fin work \<noteq> 0
                 then fs\<lparr>fs_flags := fs_flags fs OR FLEXNIC_PL_FLOWST_TXFIN\<rparr> else fs);
          rx_avail_prev = fs_rx_avail fs1;
          fs2 = fs1\<lparr>fs_rx_avail := fs_rx_avail fs1 + rx_bump,
                    fs_tx_avail := fs_tx_avail fs1 + tx_bump\<rparr>;
          rx_avail = fs_rx_avail fs2;
          (r1, flags) = (if old_avail < new_avail
                         then (r\<lparr>res_qm_bump := new_avail - old_avail\<rparr>, WORK_RESULT_QM)
                         else (r, 0));
          flags = (if new_avail = 0 \<and> rx_avail_prev = 0 \<and> rx_avail \<noteq> 0
                   then flags OR WORK_RESULT_QM_FORCE else flags)
      in (fs2, r1\<lparr>res_flags := flags\<rparr>))"

definition flows_reset_retransmit :: "flowst_tcp_t \<Rightarrow> flowst_tcp_t" where
  "flows_reset_retransmit fs =
     (let x = fs_tx_sent fs in
      fs\<lparr>fs_dupack_cnt := 0,
         fs_tx_avail := fs_tx_avail fs + x,
         fs_tx_remote_avail := fs_tx_remote_avail fs + x,
         fs_tx_next_seq := fs_tx_next_seq fs - x,
         fs_tx_next_pos := fs_tx_next_pos fs - x,
         fs_tx_sent := 0\<rparr>)"

definition flows_retx :: "work_t \<Rightarrow> flowst_tcp_t \<Rightarrow> work_result_t \<Rightarrow> flowst_tcp_t \<times> work_result_t" where
  "flows_retx work fs result =
     (let r = result\<lparr>res_work := work\<rparr>;
          old_avail = tcp_txavail fs 0;
          fs1 = flows_reset_retransmit fs;
          new_avail = tcp_txavail fs1 0
      in if old_avail < new_avail
         then (fs1, r\<lparr>res_qm_bump := new_avail - old_avail, res_flags := WORK_RESULT_QM\<rparr>)
         else (fs1, r\<lparr>res_flags := 0\<rparr>))"

subsection \<open>Acknowledgements\<close>

text \<open>
  The acknowledgement block that both receive handlers inline: \<open>bhs\<close> jumps when
  \<open>tx_bump \<ge> tx_sent\<close>, the case of an acknowledgement at or beyond the next byte to send.
\<close>

definition flows_rx_ack :: "u32 \<Rightarrow> flowst_tcp_t \<Rightarrow> flowst_tcp_t" where
  "flows_rx_ack tx_bump fs =
     (let tx_sent = fs_tx_sent fs;
          fs1 = (if tx_bump \<ge> tx_sent
                 then fs\<lparr>fs_tx_next_seq := fs_tx_next_seq fs + tx_bump - tx_sent,
                         fs_tx_avail := fs_tx_avail fs - tx_bump + tx_sent,
                         fs_tx_sent := 0,
                         fs_tx_next_pos := fs_tx_next_pos fs + tx_bump - tx_sent\<rparr>
                 else fs\<lparr>fs_tx_sent := tx_sent - tx_bump\<rparr>)
      in fs1\<lparr>fs_dupack_cnt := 0\<rparr>)"

definition flows_rx_ack_flags :: "flowst_tcp_t \<Rightarrow> u32" where
  "flows_rx_ack_flags fs =
     WORK_RESULT_DMA_ACDESC OR (if fs_tx_sent fs = 0 then WORK_RESULT_TXP_ZERO else 0)"

text \<open>\<open>flows_ack\<close> from the comparison with the next expected sequence number to \<open>finalize\<close>.\<close>

definition flows_ack_inorder :: "pkt_summary_t \<Rightarrow> flowst_tcp_t \<Rightarrow> u32 \<Rightarrow> flowst_tcp_t \<times> u32" where
  "flows_ack_inorder pkt fs flags =
     (if fs_rx_next_seq fs \<noteq> pkt_seq pkt then (fs, flags OR WORK_RESULT_TX)
      else
        let fs1 = fs\<lparr>fs_tx_remote_avail := ucast (pkt_win pkt), fs_tx_next_ts := pkt_ts_val pkt\<rparr>
        in if has_flag (pkt_flags pkt) NET_TCP_FLAG_FIN
              \<and> \<not> has_flag (fs_flags fs1) FLEXNIC_PL_FLOWST_RXFIN \<and> fs_rx_ooo_len fs1 = 0
           then (fs1\<lparr>fs_flags := fs_flags fs1 OR FLEXNIC_PL_FLOWST_RXFIN,
                     fs_rx_next_seq := fs_rx_next_seq fs1 + 1\<rparr>,
                 flags OR WORK_RESULT_FIN OR WORK_RESULT_TX OR WORK_RESULT_DMA_ACDESC)
           else (fs1, flags))"

text \<open>\<open>flows_ack\<close> up to \<open>finalize\<close>: the new flow state, \<open>tx_bump\<close> and the result flags.\<close>

definition flows_ack_process :: "pkt_summary_t \<Rightarrow> flowst_tcp_t \<Rightarrow> flowst_tcp_t \<times> u32 \<times> u32" where
  "flows_ack_process pkt fs =
     (if \<not> tcp_rxseq_inwindow fs (pkt_seq pkt) then (fs, 0, WORK_RESULT_TX)
      else case tcp_valid_rxack fs (pkt_ack pkt) of
        None \<Rightarrow> (let (fs', fl) = flows_ack_inorder pkt fs 0 in (fs', 0, fl))
      | Some tx_bump \<Rightarrow>
          if tx_bump \<noteq> 0 then
            let fs1 = flows_rx_ack tx_bump fs;
                (fs', fl) = flows_ack_inorder pkt fs1 (flows_rx_ack_flags fs1)
            in (fs', tx_bump, fl)
          else
            let dupack_cnt = (ucast (fs_dupack_cnt fs) :: u32) + 1;
                fs1 = fs\<lparr>fs_dupack_cnt := ucast dupack_cnt\<rparr>
            in if dupack_cnt \<ge> 3 then (flows_reset_retransmit fs1, 0, WORK_RESULT_RETX)
               else let (fs', fl) = flows_ack_inorder pkt fs1 0 in (fs', 0, fl))"

definition flows_ack :: "work_t \<Rightarrow> pkt_summary_t \<Rightarrow> flowst_tcp_t \<Rightarrow> work_result_t \<Rightarrow>
    flowst_tcp_t \<times> work_result_t" where
  "flows_ack work pkt fs result =
     (let r = result\<lparr>res_work := work\<rparr>;
          old_avail = tcp_txavail fs 0;
          (fs', tx_bump, flags) = flows_ack_process pkt fs;
          new_avail = tcp_txavail fs' 0;
          (r1, flags) = (if old_avail < new_avail
                         then (r\<lparr>res_qm_bump := new_avail - old_avail\<rparr>, flags OR WORK_RESULT_QM)
                         else (r, flags));
          r2 = r1\<lparr>res_ac_rx_bump := 0, res_ac_tx_bump := tx_bump\<rparr>;
          flags = (if has_flag (pkt_flags pkt) NET_TCP_FLAG_ECE then flags OR WORK_RESULT_ECNB
                   else flags);
          r3 = r2\<lparr>res_ts_val := pkt_ts_ecr pkt\<rparr>
      in if has_flag flags WORK_RESULT_TX then
           (fs', r3\<lparr>res_seq := fs_tx_next_seq fs', res_ack := fs_rx_next_seq fs',
                    res_win := fs_rx_avail fs', res_ts_val := 0, res_ts_ecr := fs_tx_next_ts fs',
                    res_flags := (if pkt_ecn pkt then flags OR WORK_RESULT_ECE else flags)\<rparr>)
         else (fs', r3\<lparr>res_flags := flags\<rparr>))"

subsection \<open>Data segments\<close>

text \<open>The out-of-order branch of \<open>flows_seg\<close>, for a trimmed segment that starts at \<open>seq\<close>.\<close>

definition flows_seg_ooo :: "u32 \<Rightarrow> u32 \<Rightarrow> u32 \<Rightarrow> flowst_tcp_t \<Rightarrow> u32 \<Rightarrow> work_result_t \<Rightarrow>
    flowst_tcp_t \<times> u32 \<times> work_result_t" where
  "flows_seg_ooo seq payload_bytes trim_start fs flags r =
     (if payload_bytes = 0 then (fs, flags, r)
      else
        let diff = seq - fs_rx_next_seq fs;
            pos = fs_rx_next_pos fs + diff;
            rx_ooo_len = fs_rx_ooo_len fs;
            rx_ooo_start = fs_rx_ooo_start fs;
            r' = WORK_DMA_OFFSET_LEN_SET payload_bytes trim_start (r\<lparr>res_dma_pos := pos\<rparr>);
            flags' = flags OR WORK_RESULT_DMA_PAYLOAD
        in if rx_ooo_len = 0 then
             (fs\<lparr>fs_rx_ooo_len := payload_bytes, fs_rx_ooo_start := seq\<rparr>, flags', r')
           else if seq + payload_bytes = rx_ooo_start then
             (fs\<lparr>fs_rx_ooo_len := fs_rx_ooo_len fs + payload_bytes, fs_rx_ooo_start := seq\<rparr>,
              flags', r')
           else if rx_ooo_start + rx_ooo_len = seq then
             (fs\<lparr>fs_rx_ooo_len := fs_rx_ooo_len fs + payload_bytes\<rparr>, flags', r')
           else (fs, flags, r))"

text \<open>After in-order data: is the out-of-order interval superfluous, trimmed, or caught up with?\<close>

definition flows_seg_merge_ooo :: "flowst_tcp_t \<Rightarrow> u32 \<Rightarrow> flowst_tcp_t \<times> u32" where
  "flows_seg_merge_ooo fs rx_bump =
     (if fs_rx_ooo_len fs = 0 then (fs, rx_bump)
      else case tcp_trim_rxbuf fs (fs_rx_ooo_start fs) (fs_rx_ooo_len fs) of
        None \<Rightarrow> (fs\<lparr>fs_rx_ooo_len := 0\<rparr>, rx_bump)
      | Some (trim_start, trim_end) \<Rightarrow>
          let fs1 = fs\<lparr>fs_rx_ooo_start := fs_rx_ooo_start fs + trim_start,
                       fs_rx_ooo_len := fs_rx_ooo_len fs - trim_start - trim_end\<rparr>;
              rx_ooo_len = fs_rx_ooo_len fs1
          in if rx_ooo_len > 0 \<and> fs_rx_ooo_start fs1 = fs_rx_next_seq fs1 then
               (fs1\<lparr>fs_rx_avail := fs_rx_avail fs1 - rx_ooo_len,
                    fs_rx_next_seq := fs_rx_next_seq fs1 + rx_ooo_len,
                    fs_rx_ooo_len := 0,
                    fs_rx_next_pos := fs_rx_next_pos fs1 + rx_ooo_len\<rparr>,
                rx_bump + rx_ooo_len)
             else (fs1, rx_bump))"

text \<open>In-order payload: the DMA descriptor and the receive state.\<close>

definition flows_seg_payload :: "u32 \<Rightarrow> u32 \<Rightarrow> flowst_tcp_t \<Rightarrow> u32 \<Rightarrow> work_result_t \<Rightarrow>
    flowst_tcp_t \<times> u32 \<times> u32 \<times> work_result_t" where
  "flows_seg_payload payload_bytes trim_start fs flags r =
     (if payload_bytes = 0 then (fs, 0, flags, r)
      else
        let r' = WORK_DMA_OFFSET_LEN_SET payload_bytes trim_start
                   (r\<lparr>res_dma_pos := fs_rx_next_pos fs\<rparr>);
            flags' = flags OR (WORK_RESULT_DMA_PAYLOAD OR WORK_RESULT_DMA_ACDESC);
            fs1 = fs\<lparr>fs_rx_avail := fs_rx_avail fs - payload_bytes,
                     fs_rx_next_seq := fs_rx_next_seq fs + payload_bytes,
                     fs_rx_next_pos := fs_rx_next_pos fs + payload_bytes\<rparr>;
            (fs2, rx_bump) = flows_seg_merge_ooo fs1 payload_bytes
        in (fs2, rx_bump, flags', r'))"

text \<open>The FIN check at the end of the in-order path.\<close>

definition flows_seg_fin :: "pkt_summary_t \<Rightarrow> u32 \<Rightarrow> u16 \<Rightarrow> flowst_tcp_t \<Rightarrow> u32 \<Rightarrow> flowst_tcp_t \<times> u32" where
  "flows_seg_fin pkt orig_payload flow_flags fs flags =
     (if has_flag (pkt_flags pkt) NET_TCP_FLAG_FIN
         \<and> \<not> has_flag flow_flags FLEXNIC_PL_FLOWST_RXFIN
         \<and> fs_rx_next_seq fs = pkt_seq pkt + orig_payload \<and> fs_rx_ooo_len fs = 0
      then (fs\<lparr>fs_flags := flow_flags OR FLEXNIC_PL_FLOWST_RXFIN,
               fs_rx_next_seq := fs_rx_next_seq fs + 1\<rparr>,
            flags OR (WORK_RESULT_FIN OR WORK_RESULT_DMA_ACDESC OR WORK_RESULT_TX))
      else (fs, flags))"

text \<open>The in-order path of \<open>flows_seg\<close>.\<close>

definition flows_seg_inorder :: "pkt_summary_t \<Rightarrow> u32 \<Rightarrow> u32 \<Rightarrow> u32 \<Rightarrow> flowst_tcp_t \<Rightarrow> u32 \<Rightarrow>
    work_result_t \<Rightarrow> flowst_tcp_t \<times> u32 \<times> u32 \<times> work_result_t" where
  "flows_seg_inorder pkt orig_payload payload_bytes trim_start fs flags r =
     (let fs1 = fs\<lparr>fs_tx_next_ts := pkt_ts_val pkt, fs_tx_remote_avail := ucast (pkt_win pkt)\<rparr>;
          flow_flags = fs_flags fs1
      in if has_flag flow_flags FLEXNIC_PL_FLOWST_RXFIN \<and> payload_bytes \<noteq> 0
         then (fs1, 0, flags, r)
         else
           let (fs2, rx_bump, flags2, r2) = flows_seg_payload payload_bytes trim_start fs1 flags r;
               (fs3, flags3) = flows_seg_fin pkt orig_payload flow_flags fs2 flags2
           in (fs3, rx_bump, flags3, r2))"

text \<open>The acknowledgement a data segment carries; a duplicate one does not count here.\<close>

definition seg_ack :: "pkt_summary_t \<Rightarrow> flowst_tcp_t \<Rightarrow> u32 \<Rightarrow> flowst_tcp_t \<times> u32 \<times> u32" where
  "seg_ack pkt fs flags =
     (case tcp_valid_rxack fs (pkt_ack pkt) of
        None \<Rightarrow> (fs, 0, flags)
      | Some tx_bump \<Rightarrow>
          if tx_bump \<noteq> 0
          then let fs' = flows_rx_ack tx_bump fs
               in (fs', tx_bump, flags OR flows_rx_ack_flags fs')
          else (fs, tx_bump, flags))"

text \<open>
  \<open>flows_seg\<close> up to \<open>finalize\<close>: the new flow state, \<open>rx_bump\<close>, \<open>tx_bump\<close>, the result flags
  and the result registers with the DMA descriptor.
\<close>

definition flows_seg_process :: "work_t \<Rightarrow> pkt_summary_t \<Rightarrow> flowst_tcp_t \<Rightarrow> work_result_t \<Rightarrow>
    flowst_tcp_t \<times> u32 \<times> u32 \<times> u32 \<times> work_result_t" where
  "flows_seg_process work pkt fs r =
     (let orig_payload = io_plen work; flags = WORK_RESULT_TX
      in case tcp_trim_rxbuf fs (pkt_seq pkt) orig_payload of
        None \<Rightarrow> (fs, 0, 0, flags, r)
      | Some (trim_start, trim_end) \<Rightarrow>
          let (fs1, tx_bump, flags1) = seg_ack pkt fs flags;
              payload_bytes = orig_payload - (trim_start + trim_end);
              seq = pkt_seq pkt + trim_start
          in if seq \<noteq> fs_rx_next_seq fs1
             then let (fs2, flags2, r2) = flows_seg_ooo seq payload_bytes trim_start fs1 flags1 r
                  in (fs2, 0, tx_bump, flags2, r2)
             else let (fs2, rx_bump, flags2, r2) =
                        flows_seg_inorder pkt orig_payload payload_bytes trim_start fs1 flags1 r
                  in (fs2, rx_bump, tx_bump, flags2, r2))"

definition flows_seg :: "work_t \<Rightarrow> pkt_summary_t \<Rightarrow> flowst_tcp_t \<Rightarrow> work_result_t \<Rightarrow>
    flowst_tcp_t \<times> work_result_t" where
  "flows_seg work pkt fs result =
     (let r = result\<lparr>res_work := work\<rparr>;
          old_avail = tcp_txavail fs 0;
          (fs', rx_bump, tx_bump, flags, r0) = flows_seg_process work pkt fs r;
          new_avail = tcp_txavail fs' 0;
          (r1, flags) = (if old_avail < new_avail
                         then (r0\<lparr>res_qm_bump := new_avail - old_avail\<rparr>, flags OR WORK_RESULT_QM)
                         else (r0, flags));
          r2 = r1\<lparr>res_ac_rx_bump := rx_bump, res_ac_tx_bump := tx_bump\<rparr>;
          flags = (if has_flag (pkt_flags pkt) NET_TCP_FLAG_ECE then flags OR WORK_RESULT_ECNB
                   else flags);
          r3 = r2\<lparr>res_ts_val := pkt_ts_ecr pkt, res_seq := fs_tx_next_seq fs',
                  res_ack := fs_rx_next_seq fs', res_win := fs_rx_avail fs',
                  res_ts_ecr := fs_tx_next_ts fs'\<rparr>
      in (fs', r3\<lparr>res_flags := (if pkt_ecn pkt then flags OR WORK_RESULT_ECE else flags)\<rparr>))"

subsection \<open>Dispatch\<close>

text \<open>
  Step 5 of the loop in \<open>process_work\<close> (\<open>firmware/process.c\<close>): the handler for the work type.
  The sequencer number \<open>seq\<close> is stamped on received and transmitted packets only.
\<close>

record proc_state =
  ps_seq :: u32
  ps_fs :: flowst_tcp_t
  ps_result :: work_result_t

definition process_switch :: "work_t \<times> pkt_summary_t \<Rightarrow> proc_state \<Rightarrow> proc_state" where
  "process_switch ev s =
     (let (work, pkt) = ev; seq = ps_seq s; fs = ps_fs s; result = ps_result s;
          type = work_type work
      in if type = WORK_TYPE_RX then
           let work' = io_set_seq seq work;
               (fs', r') = (if io_plen work' = 0 then flows_ack work' pkt fs result
                            else flows_seg work' pkt fs result)
           in \<lparr>ps_seq = seq + 1, ps_fs = fs', ps_result = r'\<rparr>
         else if type = WORK_TYPE_TX then
           let (fs', r') = flows_tx (io_set_seq seq work) fs result
           in \<lparr>ps_seq = seq + 1, ps_fs = fs', ps_result = r'\<rparr>
         else if type = WORK_TYPE_AC then
           let (fs', r') = flows_ac work fs result
           in \<lparr>ps_seq = seq, ps_fs = fs', ps_result = r'\<rparr>
         else if type = WORK_TYPE_RETX then
           let (fs', r') = flows_retx work fs result
           in \<lparr>ps_seq = seq, ps_fs = fs', ps_result = r'\<rparr>
         else s)"

lemma work_type_cases:
  obtains "work_type w = WORK_TYPE_RX" | "work_type w = WORK_TYPE_TX"
    | "work_type w = WORK_TYPE_AC" | "work_type w = WORK_TYPE_RETX"
proof -
  have "unat (work_type w) < 4"
    using bf_get_bound [of 2 30 "raw0 w"] by (simp add: work_type_def)
  then have "unat (work_type w) \<in> {0, 1, 2, 3}" by auto
  then have "work_type w \<in> {WORK_TYPE_RX, WORK_TYPE_TX, WORK_TYPE_AC, WORK_TYPE_RETX}"
    by (auto simp: work_type_defs word_unat_eq_iff)
  then show thesis using that by auto
qed

lemma process_switch_fs:
  "work_type w = WORK_TYPE_RX \<Longrightarrow> ps_fs (process_switch (w, p) s) =
     fst (if io_plen w = 0 then flows_ack (io_set_seq (ps_seq s) w) p (ps_fs s) (ps_result s)
          else flows_seg (io_set_seq (ps_seq s) w) p (ps_fs s) (ps_result s))"
  "work_type w = WORK_TYPE_TX \<Longrightarrow> ps_fs (process_switch (w, p) s) =
     fst (flows_tx (io_set_seq (ps_seq s) w) (ps_fs s) (ps_result s))"
  "work_type w = WORK_TYPE_AC \<Longrightarrow> ps_fs (process_switch (w, p) s) =
     fst (flows_ac w (ps_fs s) (ps_result s))"
  "work_type w = WORK_TYPE_RETX \<Longrightarrow> ps_fs (process_switch (w, p) s) =
     fst (flows_retx w (ps_fs s) (ps_result s))"
  by (simp_all add: process_switch_def work_type_defs Let_def split: prod.split)

lemma flows_ack_fs: "fst (flows_ack w p fs r) = fst (flows_ack_process p fs)"
  by (simp add: flows_ack_def Let_def split: prod.split)

lemma flows_seg_fs: "fst (flows_seg w p fs r) = fst (flows_seg_process w p fs (r\<lparr>res_work := w\<rparr>))"
  by (simp add: flows_seg_def Let_def split: prod.split)

text \<open>The new flow state depends on the work item and the old flow state only.\<close>

lemma flows_seg_process_fs_indep:
  assumes "io_plen w = io_plen w'"
  shows "fst (flows_seg_process w p fs r) = fst (flows_seg_process w' p fs r')"
proof -
  have ooo: "fst (flows_seg_ooo s n t f fl r) = fst (flows_seg_ooo s n t f fl r')" for s n t f fl
    by (simp add: flows_seg_ooo_def Let_def)
  have pl: "flows_seg_payload n t f fl r = (a, b, l, q) \<Longrightarrow>
      \<exists>q'. flows_seg_payload n t f fl r' = (a, b, l, q')" for n t f fl a b l q
    by (auto simp: flows_seg_payload_def Let_def split: if_splits prod.splits)
  have ino: "fst (flows_seg_inorder p m n t f fl r) = fst (flows_seg_inorder p m n t f fl r')"
    for m n t f fl
    by (auto simp: flows_seg_inorder_def Let_def split: prod.split dest!: pl)
  show ?thesis
    using ooo ino by (auto simp: flows_seg_process_def Let_def assms fst_def
        split: option.split prod.split; metis fst_conv)
qed

definition flow_step :: "work_t \<times> pkt_summary_t \<Rightarrow> flowst_tcp_t \<Rightarrow> flowst_tcp_t" where
  "flow_step ev fs = ps_fs (process_switch ev \<lparr>ps_seq = 0, ps_fs = fs, ps_result = sample_result\<rparr>)"

lemma process_switch_flow_step: "ps_fs (process_switch ev s) = flow_step ev (ps_fs s)"
proof -
  obtain w p where ev: "ev = (w, p)" by (cases ev)
  have seg: "fst (flows_seg (io_set_seq a w) p fs r) = fst (flows_seg (io_set_seq b w) p fs r')"
    for a b fs r r'
    by (simp add: flows_seg_fs flows_seg_process_fs_indep [of "io_set_seq a w" "io_set_seq b w"])
  show ?thesis
    by (cases rule: work_type_cases [of w])
       (auto simp: ev flow_step_def process_switch_fs flows_ack_fs flows_tx_def flows_ac_def
         flows_retx_def Let_def split: prod.split intro: seg)
qed

end
