(* ===== verification/Tcp_Send.thy ===== *)
theory Tcp_Send
  imports Tcp_Flows
begin

unbundle bit_operations_syntax

text \<open>
  The send side of \<open>firmware/flows.c\<close> against an abstract sender. The abstract sender counts
  stream bytes without wrap-around: \<open>s_una\<close> bytes are acknowledged, \<open>s_nxt\<close> have been handed to
  the network, \<open>s_end\<close> have been supplied by the application. The flow state keeps the same
  information in 32-bit sequence numbers, buffer positions and counters.
\<close>

subsection \<open>The abstract sender\<close>

record snd_st =
  s_una :: nat
  s_nxt :: nat
  s_end :: nat

datatype snd_event = Transmit nat | Supply nat | Rewind | Acked nat

inductive snd_step :: "snd_st \<Rightarrow> snd_event \<Rightarrow> snd_st \<Rightarrow> bool" where
  transmit: "n \<le> s_end s - s_nxt s \<Longrightarrow> snd_step s (Transmit n) (s\<lparr>s_nxt := s_nxt s + n\<rparr>)"
| supplied: "snd_step s (Supply n) (s\<lparr>s_end := s_end s + n\<rparr>)"
| rewind: "snd_step s Rewind (s\<lparr>s_nxt := s_una s\<rparr>)"
| acked: "n \<le> s_end s - s_una s \<Longrightarrow>
    snd_step s (Acked n) (s\<lparr>s_una := s_una s + n, s_nxt := max (s_nxt s) (s_una s + n)\<rparr>)"

inductive_cases snd_stepE: "snd_step s l t"

definition snd_wf :: "snd_st \<Rightarrow> bool" where
  "snd_wf s \<longleftrightarrow> s_una s \<le> s_nxt s \<and> s_nxt s \<le> s_end s"

lemma snd_step_wf: "snd_step s l t \<Longrightarrow> snd_wf s \<Longrightarrow> snd_wf t"
  by (induction rule: snd_step.induct) (auto simp: snd_wf_def)

text \<open>What a trace of the abstract sender adds up to.\<close>

fun acked_bytes :: "snd_event \<Rightarrow> nat" where
  "acked_bytes (Acked n) = n"
| "acked_bytes _ = 0"

fun supplied_bytes :: "snd_event \<Rightarrow> nat" where
  "supplied_bytes (Supply n) = n"
| "supplied_bytes _ = 0"

lemma snd_steps_account:
  "steps snd_step s ls t \<Longrightarrow>
     s_una t = s_una s + sum_list (map acked_bytes ls) \<and>
     s_end t = s_end s + sum_list (map supplied_bytes ls)"
proof (induction ls arbitrary: s)
  case Nil
  then show ?case by simp
next
  case (Cons l ls)
  then show ?case by (fastforce elim!: snd_stepE)
qed

subsection \<open>How the flow state represents it\<close>

definition snd_rel :: "u32 \<Rightarrow> u32 \<Rightarrow> snd_st \<Rightarrow> flowst_tcp_t \<Rightarrow> bool" where
  "snd_rel iss ipos s fs \<longleftrightarrow>
     snd_wf s \<and> s_end s - s_una s < 2 ^ 32 \<and>
     fs_tx_next_seq fs = iss + of_nat (s_nxt s) \<and>
     fs_tx_next_pos fs = ipos + of_nat (s_nxt s) \<and>
     unat (fs_tx_sent fs) = s_nxt s - s_una s \<and>
     unat (fs_tx_avail fs) = s_end s - s_nxt s"

text \<open>The environment: an application never supplies more than the counters can hold.\<close>

definition snd_ok :: "work_t \<times> pkt_summary_t \<Rightarrow> proc_state \<Rightarrow> bool" where
  "snd_ok ev s \<longleftrightarrow> (work_type (fst ev) = WORK_TYPE_AC \<longrightarrow>
     unat (fs_tx_sent (ps_fs s)) + unat (fs_tx_avail (ps_fs s)) + unat (ac_tx_bump (fst ev)) < 2 ^ 32)"

text \<open>Only the five send fields matter.\<close>

definition tx_fields :: "flowst_tcp_t \<Rightarrow> u32 \<times> u32 \<times> u32 \<times> u32" where
  "tx_fields fs = (fs_tx_next_seq fs, fs_tx_next_pos fs, fs_tx_sent fs, fs_tx_avail fs)"

definition rx_part :: "flowst_tcp_t \<Rightarrow> u32 \<times> u32 \<times> u32 \<times> u32 \<times> u32 \<times> u32 \<times> u16" where
  "rx_part fs = (fs_rx_len fs, fs_rx_avail fs, fs_rx_next_seq fs, fs_rx_next_pos fs,
                 fs_rx_ooo_len fs, fs_rx_ooo_start fs, fs_flags fs)"

lemma snd_rel_cong: "tx_fields fs = tx_fields fs' \<Longrightarrow> snd_rel iss ipos s fs = snd_rel iss ipos s fs'"
  by (simp add: snd_rel_def tx_fields_def)

lemma snd_rel_total:
  "snd_rel iss ipos s fs \<Longrightarrow> unat (fs_tx_sent fs) + unat (fs_tx_avail fs) = s_end s - s_una s"
  by (auto simp: snd_rel_def snd_wf_def)

lemma snd_rel_seq_una:
  assumes "snd_rel iss ipos s fs"
  shows "fs_tx_next_seq fs - fs_tx_sent fs = iss + of_nat (s_una s)"
proof -
  have "(of_nat (s_nxt s) :: u32) = of_nat (s_una s) + of_nat (unat (fs_tx_sent fs))"
    using assms by (simp add: snd_rel_def snd_wf_def flip: of_nat_add)
  then show ?thesis using assms by (simp add: snd_rel_def)
qed

subsection \<open>Each handler is a step of the abstract sender\<close>

lemma tcp_txavail_le:
  "unat (tcp_txavail fs 0) \<le> unat (fs_tx_avail fs)"
  by (simp add: tcp_txavail_def word_nat)

lemma flows_tx_fs:
  "fst (flows_tx w fs r) =
     (if tcp_txavail fs 0 = 0 \<and> io_force w = 0 then fs
      else let n = min (tcp_txavail fs 0) TCP_MSS in
        fs\<lparr>fs_tx_next_seq := fs_tx_next_seq fs + n, fs_tx_next_pos := fs_tx_next_pos fs + n,
           fs_tx_sent := fs_tx_sent fs + n, fs_tx_avail := fs_tx_avail fs - n\<rparr>)"
  by (simp add: flows_tx_def Let_def)

lemma flows_tx_sim:
  assumes "snd_rel iss ipos s fs"
  shows "\<exists>s'. snd_step s (Transmit (unat (fs_tx_sent (fst (flows_tx w fs r)) - fs_tx_sent fs))) s' \<and>
    snd_rel iss ipos s' (fst (flows_tx w fs r))"
proof (cases "tcp_txavail fs 0 = 0 \<and> io_force w = 0")
  case True
  have "snd_step s (Transmit 0) (s\<lparr>s_nxt := s_nxt s + 0\<rparr>)" by (intro snd_step.transmit) simp
  with True assms show ?thesis by (auto simp: flows_tx_fs)
next
  case False
  define n where "n = min (tcp_txavail fs 0) TCP_MSS"
  have le: "unat n \<le> unat (fs_tx_avail fs)"
    using tcp_txavail_le [of fs] by (simp add: n_def word_nat)
  have "unat (fs_tx_sent fs + n) = unat (fs_tx_sent fs) + unat n"
    using le snd_rel_total [OF assms] assms by (intro unat_add_exact) (simp add: snd_rel_def)
  moreover have "unat (fs_tx_avail fs - n) = unat (fs_tx_avail fs) - unat n"
    using le by (intro unat_sub_exact) (simp add: word_nat)
  ultimately have "snd_rel iss ipos (s\<lparr>s_nxt := s_nxt s + unat n\<rparr>) (fst (flows_tx w fs r))"
    using assms le False by (simp add: flows_tx_fs snd_rel_def snd_wf_def Let_def flip: n_def) arith
  moreover have "snd_step s (Transmit (unat n)) (s\<lparr>s_nxt := s_nxt s + unat n\<rparr>)"
    using le assms by (intro snd_step.transmit) (simp add: snd_rel_def)
  ultimately show ?thesis using False by (auto simp: flows_tx_fs Let_def simp flip: n_def)
qed

lemma flows_ac_tx_fields:
  "fs_tx_next_seq (fst (flows_ac w fs r)) = fs_tx_next_seq fs"
  "fs_tx_next_pos (fst (flows_ac w fs r)) = fs_tx_next_pos fs"
  "fs_tx_sent (fst (flows_ac w fs r)) = fs_tx_sent fs"
  "fs_tx_avail (fst (flows_ac w fs r)) = fs_tx_avail fs + ac_tx_bump w"
  by (simp_all add: flows_ac_def Let_def split: prod.split)

lemma flows_ac_sim:
  assumes "snd_rel iss ipos s fs"
    and "unat (fs_tx_sent fs) + unat (fs_tx_avail fs) + unat (ac_tx_bump w) < 2 ^ 32"
  shows "\<exists>s'. snd_step s (Supply (unat (ac_tx_bump w))) s' \<and> snd_rel iss ipos s' (fst (flows_ac w fs r))"
proof -
  let ?s = "s\<lparr>s_end := s_end s + unat (ac_tx_bump w)\<rparr>"
  have "unat (fs_tx_avail fs + ac_tx_bump w) = unat (fs_tx_avail fs) + unat (ac_tx_bump w)"
    using assms(2) by (intro unat_add_exact) simp
  then have "snd_rel iss ipos ?s (fst (flows_ac w fs r))"
    using assms snd_rel_total [OF assms(1)]
    by (simp add: snd_rel_def snd_wf_def flows_ac_tx_fields)
  then show ?thesis using snd_step.supplied by blast
qed

lemma flows_reset_sim:
  assumes "snd_rel iss ipos s fs"
  shows "\<exists>s'. snd_step s Rewind s' \<and> snd_rel iss ipos s' (flows_reset_retransmit fs)"
proof -
  have "unat (fs_tx_avail fs + fs_tx_sent fs) = unat (fs_tx_avail fs) + unat (fs_tx_sent fs)"
    using snd_rel_total [OF assms] assms by (intro unat_add_exact) (simp add: snd_rel_def)
  moreover have "(of_nat (s_nxt s) :: u32) - fs_tx_sent fs = of_nat (s_una s)"
    using snd_rel_seq_una [OF assms] assms by (simp add: snd_rel_def algebra_simps)
  ultimately have "snd_rel iss ipos (s\<lparr>s_nxt := s_una s\<rparr>) (flows_reset_retransmit fs)"
    using assms snd_rel_total [OF assms]
    by (simp add: snd_rel_def snd_wf_def flows_reset_retransmit_def Let_def flip: add_diff_eq)
  then show ?thesis using snd_step.rewind by blast
qed

lemma flows_retx_fs: "fst (flows_retx w fs r) = flows_reset_retransmit fs"
  by (simp add: flows_retx_def Let_def)

lemma tcp_valid_rxack_Some:
  assumes "snd_rel iss ipos s fs" and "tcp_valid_rxack fs ack = Some b"
  shows "unat b \<le> s_end s - s_una s" and "ack = iss + of_nat (s_una s + unat b)"
proof -
  have "unat (fs_tx_sent fs + fs_tx_avail fs) = s_end s - s_una s"
    using snd_rel_total [OF assms(1)] assms(1)
    by (subst unat_add_exact) (auto simp: snd_rel_def)
  then show "unat b \<le> s_end s - s_una s"
    using assms(2) by (auto simp: tcp_valid_rxack_def Let_def word_nat split: if_splits)
  show "ack = iss + of_nat (s_una s + unat b)"
    using assms(2) snd_rel_seq_una [OF assms(1)]
    by (auto simp: tcp_valid_rxack_def Let_def split: if_splits)
qed

lemma flows_rx_ack_sim:
  assumes rel: "snd_rel iss ipos s fs" and b: "unat b \<le> s_end s - s_una s"
  shows "snd_rel iss ipos (s\<lparr>s_una := s_una s + unat b, s_nxt := max (s_nxt s) (s_una s + unat b)\<rparr>)
           (flows_rx_ack b fs)" (is "snd_rel _ _ ?s _")
proof (cases "b \<ge> fs_tx_sent fs")
  case True
  have una: "(of_nat (s_nxt s) :: u32) - fs_tx_sent fs = of_nat (s_una s)"
    using snd_rel_seq_una [OF rel] rel by (simp add: snd_rel_def algebra_simps)
  have "fs_tx_avail fs - b + fs_tx_sent fs = fs_tx_avail fs - (b - fs_tx_sent fs)" by simp
  moreover have "unat (b - fs_tx_sent fs) = unat b - unat (fs_tx_sent fs)"
    using True by (rule unat_sub_exact)
  moreover have "unat (fs_tx_avail fs - (b - fs_tx_sent fs)) =
      unat (fs_tx_avail fs) - (unat b - unat (fs_tx_sent fs))"
    using calculation b snd_rel_total [OF rel] by (subst unat_sub_exact) (auto simp: word_nat)
  ultimately show ?thesis
    using True rel b una snd_rel_total [OF rel]
    by (auto simp: snd_rel_def snd_wf_def flows_rx_ack_def Let_def word_nat max_def algebra_simps)
next
  case False
  then have "unat (fs_tx_sent fs - b) = unat (fs_tx_sent fs) - unat b"
    by (intro unat_sub_exact) simp
  with False show ?thesis
    using rel b snd_rel_total [OF rel]
    by (auto simp: snd_rel_def snd_wf_def flows_rx_ack_def Let_def word_nat max_def)
qed

lemma flows_rx_ack_step:
  assumes "snd_rel iss ipos s fs" and "tcp_valid_rxack fs ack = Some b"
  shows "\<exists>s'. snd_step s (Acked (unat b)) s' \<and> snd_rel iss ipos s' (flows_rx_ack b fs)"
  using tcp_valid_rxack_Some(1) [OF assms] flows_rx_ack_sim [OF assms(1), of b]
    snd_step.acked by blast

lemma snd_idle: "snd_rel iss ipos s fs \<Longrightarrow> snd_step s (Acked 0) s"
  using snd_step.acked [of 0 s] by (auto simp: snd_rel_def snd_wf_def max_def)

lemma flows_ack_inorder_tx [simp]:
  "tx_fields (fst (flows_ack_inorder pkt fs fl)) = tx_fields fs"
  by (simp add: flows_ack_inorder_def tx_fields_def Let_def)

lemma flows_seg_ooo_tx: "flows_seg_ooo seq n ts fs fl r = (fs', x) \<Longrightarrow> tx_fields fs' = tx_fields fs"
  by (auto simp: flows_seg_ooo_def tx_fields_def Let_def split: if_splits)

lemma flows_seg_merge_ooo_tx:
  "flows_seg_merge_ooo fs b = (fs', x) \<Longrightarrow> tx_fields fs' = tx_fields fs"
  by (auto simp: flows_seg_merge_ooo_def tx_fields_def Let_def split: if_splits option.splits)

lemma flows_seg_inorder_tx:
  "flows_seg_inorder pkt op n ts fs fl r = (fs', x) \<Longrightarrow> tx_fields fs' = tx_fields fs"
  by (auto simp: flows_seg_inorder_def flows_seg_payload_def flows_seg_fin_def Let_def
      split: if_splits prod.splits dest!: flows_seg_merge_ooo_tx)
     (auto simp: tx_fields_def)

text \<open>The abstract event an acknowledgement or a data segment amounts to.\<close>

definition rx_snd_event :: "work_result_t \<Rightarrow> snd_event" where
  "rx_snd_event r = (if has_flag (res_flags r) WORK_RESULT_RETX then Rewind
                     else Acked (unat (res_ac_tx_bump r)))"

lemma flows_ack_event:
  "rx_snd_event (snd (flows_ack w p fs r)) =
     (let (_, b, fl) = flows_ack_process p fs in
      if has_flag fl WORK_RESULT_RETX then Rewind else Acked (unat b))"
  by (simp add: flows_ack_def rx_snd_event_def Let_def split: prod.split)

lemma flows_ack_inorder_retx:
  "has_flag (snd (flows_ack_inorder p fs fl)) WORK_RESULT_RETX = has_flag fl WORK_RESULT_RETX"
  by (simp add: flows_ack_inorder_def Let_def)

lemma flows_ack_sim:
  assumes rel: "snd_rel iss ipos s fs"
  shows "\<exists>s'. snd_step s (rx_snd_event (snd (flows_ack w p fs r))) s' \<and>
    snd_rel iss ipos s' (fst (flows_ack w p fs r))"
proof -
  note tx = snd_rel_cong [OF flows_ack_inorder_tx]
  have dup: "snd_rel iss ipos s (fs\<lparr>fs_dupack_cnt := c\<rparr>)" for c
    using rel snd_rel_cong [of "fs\<lparr>fs_dupack_cnt := c\<rparr>" fs] by (simp add: tx_fields_def)
  consider (drop) "\<not> tcp_rxseq_inwindow fs (pkt_seq p)"
    | (invalid) "tcp_rxseq_inwindow fs (pkt_seq p)" "tcp_valid_rxack fs (pkt_ack p) = None"
    | (valid) b where "tcp_rxseq_inwindow fs (pkt_seq p)" "tcp_valid_rxack fs (pkt_ack p) = Some b"
    by (cases "tcp_valid_rxack fs (pkt_ack p)") auto
  then show ?thesis
  proof cases
    case drop
    then show ?thesis
      using rel snd_idle [OF rel] by (auto simp: flows_ack_event flows_ack_fs flows_ack_process_def)
  next
    case invalid
    then show ?thesis
      using rel snd_idle [OF rel] tx
      by (auto simp: flows_ack_event flows_ack_fs flows_ack_process_def Let_def
          flows_ack_inorder_retx split_beta)
  next
    case (valid b)
    show ?thesis
    proof (cases "b = 0")
      case True
      with valid flows_reset_sim [OF dup] snd_idle [OF dup] dup tx show ?thesis
        by (auto simp: flows_ack_event flows_ack_fs flows_ack_process_def Let_def
            flows_ack_inorder_retx split_beta)
    next
      case False
      with valid flows_rx_ack_step [OF rel valid(2)] tx show ?thesis
        by (auto simp: flows_ack_event flows_ack_fs flows_ack_process_def Let_def
            flows_ack_inorder_retx split_beta flows_rx_ack_flags_def)
    qed
  qed
qed

text \<open>The acknowledgement part of \<open>flows_seg\<close>.\<close>

lemma seg_ack_step:
  assumes "snd_rel iss ipos s fs"
  shows "\<exists>s'. snd_step s (Acked (unat (fst (snd (seg_ack p fs fl))))) s' \<and>
    snd_rel iss ipos s' (fst (seg_ack p fs fl))"
  using assms snd_idle [OF assms] flows_rx_ack_step [OF assms]
  by (auto simp: seg_ack_def Let_def split: option.split)

lemma seg_ack_retx:
  "has_flag (snd (snd (seg_ack p fs fl))) WORK_RESULT_RETX = has_flag fl WORK_RESULT_RETX"
  by (simp add: seg_ack_def flows_rx_ack_flags_def Let_def split: option.split)

lemma flows_seg_ooo_retx:
  "flows_seg_ooo seq n ts fs fl r = (fs', fl', r') \<Longrightarrow>
     has_flag fl' WORK_RESULT_RETX = has_flag fl WORK_RESULT_RETX"
  by (auto simp: flows_seg_ooo_def Let_def split: if_splits)

lemma flows_seg_inorder_retx:
  "flows_seg_inorder pkt op n ts fs fl r = (fs', b, fl', r') \<Longrightarrow>
     has_flag fl' WORK_RESULT_RETX = has_flag fl WORK_RESULT_RETX"
  by (auto simp: flows_seg_inorder_def flows_seg_payload_def flows_seg_fin_def Let_def
      split: if_splits prod.splits)

text \<open>What \<open>flows_seg_process\<close> does to the send side: the acknowledgement and nothing else.\<close>

lemma flows_seg_process_tx:
  assumes "flows_seg_process w p fs r = (fs', rb, tb, fl, r')"
  shows "\<not> has_flag fl WORK_RESULT_RETX \<and>
    (tb = 0 \<and> tx_fields fs' = tx_fields fs \<or>
     tb = fst (snd (seg_ack p fs WORK_RESULT_TX)) \<and>
     tx_fields fs' = tx_fields (fst (seg_ack p fs WORK_RESULT_TX)))"
proof (cases "tcp_trim_rxbuf fs (pkt_seq p) (io_plen w)")
  case None
  with assms show ?thesis by (simp add: flows_seg_process_def)
next
  case (Some t)
  obtain a b where t: "t = (a, b)" by (cases t)
  obtain fs1 tb1 fl1 where ack: "seg_ack p fs WORK_RESULT_TX = (fs1, tb1, fl1)"
    by (cases "seg_ack p fs WORK_RESULT_TX")
  have "\<not> has_flag fl1 WORK_RESULT_RETX"
    using seg_ack_retx [of p fs WORK_RESULT_TX] by (simp add: ack)
  with assms Some t ack show ?thesis
    by (auto simp: flows_seg_process_def Let_def split: if_splits prod.splits
        dest: flows_seg_ooo_tx flows_seg_inorder_tx flows_seg_ooo_retx flows_seg_inorder_retx)
qed

lemma flows_seg_event:
  "flows_seg_process w p fs (r\<lparr>res_work := w\<rparr>) = (fs', rb, tb, fl, r') \<Longrightarrow>
     rx_snd_event (snd (flows_seg w p fs r)) = Acked (unat tb)"
  using flows_seg_process_tx [of w p fs "r\<lparr>res_work := w\<rparr>"]
  by (simp add: flows_seg_def rx_snd_event_def Let_def)

lemma flows_seg_sim:
  assumes rel: "snd_rel iss ipos s fs"
  shows "\<exists>s'. snd_step s (rx_snd_event (snd (flows_seg w p fs r))) s' \<and>
    snd_rel iss ipos s' (fst (flows_seg w p fs r))"
proof -
  obtain fs' rb tb fl r' where
    eq: "flows_seg_process w p fs (r\<lparr>res_work := w\<rparr>) = (fs', rb, tb, fl, r')"
    by (cases "flows_seg_process w p fs (r\<lparr>res_work := w\<rparr>)")
  have fs: "fst (flows_seg w p fs r) = fs'" by (simp add: flows_seg_fs eq)
  show ?thesis unfolding flows_seg_event [OF eq] fs
    using flows_seg_process_tx [OF eq] rel snd_idle [OF rel]
      seg_ack_step [OF rel, of p WORK_RESULT_TX] by (auto cong: snd_rel_cong dest: snd_rel_cong)
qed

subsection \<open>The send side refines the abstract sender\<close>

definition snd_obs :: "work_t \<times> pkt_summary_t \<Rightarrow> proc_state \<Rightarrow> snd_event" where
  "snd_obs ev s =
     (let w = fst ev; s' = process_switch ev s in
      if work_type w = WORK_TYPE_RX then rx_snd_event (ps_result s')
      else if work_type w = WORK_TYPE_TX
        then Transmit (unat (fs_tx_sent (ps_fs s') - fs_tx_sent (ps_fs s)))
      else if work_type w = WORK_TYPE_AC then Supply (unat (ac_tx_bump w))
      else Rewind)"

lemma process_switch_rx_result:
  "work_type w = WORK_TYPE_RX \<Longrightarrow> ps_result (process_switch (w, p) s) =
     snd (if io_plen w = 0 then flows_ack (io_set_seq (ps_seq s) w) p (ps_fs s) (ps_result s)
          else flows_seg (io_set_seq (ps_seq s) w) p (ps_fs s) (ps_result s))"
  by (simp add: process_switch_def work_type_defs Let_def split: prod.split)

lemma process_switch_snd_sim:
  assumes rel: "snd_rel iss ipos a (ps_fs c)" and ok: "snd_ok ev c"
  shows "\<exists>a'. snd_step a (snd_obs ev c) a' \<and> snd_rel iss ipos a' (ps_fs (process_switch ev c))"
proof -
  obtain w p where ev: "ev = (w, p)" by (cases ev)
  consider "work_type w = WORK_TYPE_RX" | "work_type w = WORK_TYPE_TX"
    | "work_type w = WORK_TYPE_AC" | "work_type w = WORK_TYPE_RETX"
    by (rule work_type_cases)
  then show ?thesis
  proof cases
    case 1
    then show ?thesis using flows_ack_sim [OF rel] flows_seg_sim [OF rel]
      by (simp add: ev snd_obs_def process_switch_fs process_switch_rx_result Let_def)
  next
    case 2
    then show ?thesis using flows_tx_sim [OF rel]
      by (simp add: ev snd_obs_def process_switch_fs Let_def work_type_defs)
  next
    case 3
    then show ?thesis using flows_ac_sim [OF rel] ok
      by (simp add: ev snd_obs_def snd_ok_def process_switch_fs Let_def work_type_defs)
  next
    case 4
    then show ?thesis using flows_reset_sim [OF rel]
      by (simp add: ev snd_obs_def process_switch_fs flows_retx_fs Let_def work_type_defs)
  qed
qed

interpretation snd_sim: simulation_invariant process_switch snd_ok snd_obs snd_step
  "\<lambda>a c. snd_rel iss ipos a (ps_fs c)" snd_wf for iss ipos
  by unfold_locales (auto intro: process_switch_snd_sim snd_step_wf)

text \<open>
  C2. The send side of the protocol stage, over any sequence of received packets, transmissions,
  application updates and retransmissions, refines the abstract sender: the flow state still
  represents a sender with \<open>s_una \<le> s_nxt \<le> s_end\<close>, whose acknowledged bytes grew by exactly the
  acknowledged bytes reported to the application and whose supplied bytes grew by exactly the
  bytes the application announced. The hypothesis on the run is that the application never has
  \<open>2 ^ 32\<close> or more bytes outstanding.
\<close>

theorem send_side_refines:
  assumes "snd_rel iss ipos a (ps_fs c)" and "run_ok process_switch snd_ok evs c"
  shows "\<exists>a'. steps snd_step a (run_obs process_switch snd_obs evs c) a' \<and> snd_wf a' \<and>
    s_una a' = s_una a + sum_list (map acked_bytes (run_obs process_switch snd_obs evs c)) \<and>
    s_end a' = s_end a + sum_list (map supplied_bytes (run_obs process_switch snd_obs evs c)) \<and>
    snd_rel iss ipos a' (ps_fs (run process_switch evs c))"
proof -
  have "snd_wf a" using assms(1) by (simp add: snd_rel_def)
  from snd_sim.run_ainv [OF assms(1) this assms(2)] show ?thesis
    using snd_steps_account by blast
qed

theorem send_side_refines_witness:
  "snd_rel 0 0 \<lparr>s_una = 0, s_nxt = 0, s_end = 3000\<rparr> sample_fs \<and>
   (\<exists>a'. steps snd_step \<lparr>s_una = 0, s_nxt = 0, s_end = 3000\<rparr>
      (run_obs process_switch snd_obs [(work_ac200, sample_pkt), (work_tx, sample_pkt)]
        \<lparr>ps_seq = 0, ps_fs = sample_fs, ps_result = sample_result\<rparr>) a' \<and> s_end a' = 3200)"
proof -
  let ?a = "\<lparr>s_una = 0, s_nxt = 0, s_end = 3000\<rparr>"
  let ?c = "\<lparr>ps_seq = 0, ps_fs = sample_fs, ps_result = sample_result\<rparr>"
  let ?evs = "[(work_ac200, sample_pkt), (work_tx, sample_pkt)]"
  have rel: "snd_rel 0 0 ?a (ps_fs ?c)" by (simp add: snd_rel_def snd_wf_def sample_fs_def)
  have "run_ok process_switch snd_ok ?evs ?c"
    by (simp add: snd_ok_def work_type_defs) (simp add: sample_fs_def)
  from send_side_refines [OF rel this] show ?thesis
    using rel by (auto simp: snd_obs_def Let_def work_type_defs)
qed

subsection \<open>Flow control\<close>

text \<open>
  C12. A transmission never exceeds the peer's window: while the bytes in flight fit in the
  advertised window, they still do after \<open>flows_tx\<close>; the segment carries at most \<open>TCP_MSS\<close> bytes,
  all of them unsent bytes of the transmit buffer, and it is described by the old sequence number
  and buffer position.
\<close>

theorem flows_tx_respects_window:
  assumes "fs_tx_sent fs \<le> fs_tx_remote_avail fs" and "flows_tx w fs r = (fs', r')"
    and "has_flag (res_flags r') WORK_RESULT_TX"
  shows "fs_tx_sent fs' \<le> fs_tx_remote_avail fs' \<and> fs_tx_remote_avail fs' = fs_tx_remote_avail fs \<and>
    (\<exists>n. n \<le> TCP_MSS \<and> n \<le> fs_tx_avail fs \<and>
      fs_tx_sent fs' = fs_tx_sent fs + n \<and> unat (fs_tx_sent fs') = unat (fs_tx_sent fs) + unat n \<and>
      fs_tx_avail fs' = fs_tx_avail fs - n \<and>
      res_seq r' = fs_tx_next_seq fs \<and> fs_tx_next_seq fs' = fs_tx_next_seq fs + n \<and>
      res_dma_pos r' = fs_tx_next_pos fs \<and> fs_tx_next_pos fs' = fs_tx_next_pos fs + n \<and>
      res_ack r' = fs_rx_next_seq fs \<and> res_win r' = fs_rx_avail fs \<and>
      (\<not> has_flag (res_flags r') WORK_RESULT_FIN \<longrightarrow> res_dma_len r' = n \<and> res_dma_offset r' = 0))"
proof -
  define n where "n = min (tcp_txavail fs 0) TCP_MSS"
  have room: "unat (fs_tx_remote_avail fs - fs_tx_sent fs) =
      unat (fs_tx_remote_avail fs) - unat (fs_tx_sent fs)"
    using assms(1) by (rule unat_sub_exact)
  then have n: "n \<le> TCP_MSS" "n \<le> fs_tx_avail fs"
      "unat (fs_tx_sent fs) + unat n \<le> unat (fs_tx_remote_avail fs)"
    using assms(1) by (auto simp: n_def tcp_txavail_def word_nat)
  have sent: "unat (fs_tx_sent fs + n) = unat (fs_tx_sent fs) + unat n"
    using n(3) by (rule unat_add_le)
  have go: "\<not> (tcp_txavail fs 0 = 0 \<and> io_force w = 0)"
    using assms(2,3) by (auto simp: flows_tx_def Let_def)
  have small: "unat n < 2 ^ 16" using n(1) by (simp add: TCP_MSS_def word_nat)
  show ?thesis
    using assms(2) go n sent small
    by (auto simp: flows_tx_def Let_def word_nat res_dma_len_set res_dma_offset_set
        simp flip: n_def intro!: exI [of _ n] split: if_splits)
qed

theorem flows_tx_respects_window_witness:
  "fs_tx_sent (fst (flows_tx work_tx sample_fs sample_result)) \<le>
     fs_tx_remote_avail (fst (flows_tx work_tx sample_fs sample_result)) \<and>
   unat (fs_tx_sent (fst (flows_tx work_tx sample_fs sample_result))) = 1448"
proof -
  let ?t = "flows_tx work_tx sample_fs sample_result"
  have 1: "fs_tx_sent sample_fs \<le> fs_tx_remote_avail sample_fs" by (simp add: sample_fs_def)
  have 2: "?t = (fst ?t, snd ?t)" by simp
  have av: "tcp_txavail sample_fs 0 = 3000" by (simp add: tcp_txavail_def sample_fs_def min_def)
  have 3: "has_flag (res_flags (snd ?t)) WORK_RESULT_TX" by (simp add: flows_tx_def Let_def av)
  from flows_tx_respects_window [OF 1 2 3] show ?thesis
    by (simp add: flows_tx_fs av Let_def TCP_MSS_def min_def) (simp add: sample_fs_def)
qed

text \<open>
  The FIN flag of \<open>flows_tx\<close>. The test for "nothing left to send" reads \<open>tx_avail\<close> before the
  segment is taken from it, so a result carries the FIN flag only for a forced transmission with
  no payload at all; the flow state does not change, and the length of the DMA, meant to leave out
  the dummy byte of the FIN, is \<open>0 - 1\<close>, which the 16-bit field keeps as 65535.
\<close>

theorem flows_tx_fin_only_without_payload:
  assumes "flows_tx w fs r = (fs', r')" and "has_flag (res_flags r') WORK_RESULT_FIN"
  shows "fs_tx_avail fs = 0 \<and> io_force w \<noteq> 0 \<and> fs' = fs \<and> res_dma_len r' = 65535 \<and>
    has_flag (res_flags r') WORK_RESULT_DMA_PAYLOAD"
proof -
  have av: "fs_tx_avail fs = 0" and force: "\<not> (tcp_txavail fs 0 = 0 \<and> io_force w = 0)"
    using assms by (auto simp: flows_tx_def Let_def split: if_splits)
  have "tcp_txavail fs 0 = 0" using av by (simp add: tcp_txavail_def)
  then have "r' = (WORK_DMA_OFFSET_LEN_SET (- 1) 0 r')" "fs' = fs" "io_force w \<noteq> 0"
      "has_flag (res_flags r') WORK_RESULT_DMA_PAYLOAD"
    using assms av force
    by (auto simp: flows_tx_def Let_def WORK_DMA_OFFSET_LEN_SET_def split: if_splits)
  moreover have "res_dma_len (WORK_DMA_OFFSET_LEN_SET (- 1) 0 r') = 65535"
    by (simp add: res_dma_len_def WORK_DMA_OFFSET_LEN_SET_def bf_get_def) code_simp
  ultimately show ?thesis using av by simp
qed

definition work_tx_force :: work_t where
  "work_tx_force = \<lparr>raw0 = push_bit 30 1, raw1 = push_bit 31 1, raw2 = push_bit 16 1\<rparr>"

theorem flows_tx_fin_only_without_payload_witness:
  "has_flag (res_flags (snd (flows_tx work_tx_force
       (sample_fs\<lparr>fs_flags := FLEXNIC_PL_FLOWST_TXFIN, fs_tx_avail := 0\<rparr>) sample_result)))
     WORK_RESULT_FIN \<and>
   res_dma_len (snd (flows_tx work_tx_force
       (sample_fs\<lparr>fs_flags := FLEXNIC_PL_FLOWST_TXFIN, fs_tx_avail := 0\<rparr>) sample_result)) = 65535"
proof -
  let ?t = "flows_tx work_tx_force
       (sample_fs\<lparr>fs_flags := FLEXNIC_PL_FLOWST_TXFIN, fs_tx_avail := 0\<rparr>) sample_result"
  have 1: "?t = (fst ?t, snd ?t)" by simp
  have "io_force work_tx_force = 1" by (simp add: io_force_def work_tx_force_def bf_get_def)
  then have 2: "has_flag (res_flags (snd ?t)) WORK_RESULT_FIN"
    by (simp add: flows_tx_def Let_def)
       (simp add: has_flag_def flowst_flag_defs work_result_defs)
  from flows_tx_fin_only_without_payload [OF 1 2] 2 show ?thesis by simp
qed

text \<open>
  C15. Retransmission moves back to the oldest unacknowledged byte: nothing is in flight, the bytes
  in flight become unsent again, sequence number and position go back by the same amount, and the
  result asks the queue manager for exactly the growth of the sendable bytes. The peer's window is
  not kept: the sendable bytes are limited by the advertised window plus the bytes that were in
  flight, which the peer never advertised.
\<close>

theorem flows_retx_resets:
  assumes "unat (fs_tx_remote_avail fs) + unat (fs_tx_sent fs) < 2 ^ 32"
    and "flows_retx w fs r = (fs', r')"
  shows "fs_tx_sent fs' = 0 \<and> fs_tx_avail fs' = fs_tx_avail fs + fs_tx_sent fs \<and>
    fs_tx_next_seq fs' = fs_tx_next_seq fs - fs_tx_sent fs \<and>
    fs_tx_next_pos fs' = fs_tx_next_pos fs - fs_tx_sent fs \<and> fs_dupack_cnt fs' = 0 \<and>
    rx_part fs' = rx_part fs \<and>
    unat (tcp_txavail fs' 0) = min (unat (fs_tx_avail fs + fs_tx_sent fs))
      (unat (fs_tx_remote_avail fs) + unat (fs_tx_sent fs)) \<and>
    (has_flag (res_flags r') WORK_RESULT_QM \<longleftrightarrow> tcp_txavail fs 0 < tcp_txavail fs' 0) \<and>
    (has_flag (res_flags r') WORK_RESULT_QM \<longrightarrow>
       res_qm_bump r' = tcp_txavail fs' 0 - tcp_txavail fs 0)"
  using assms unat_add_exact [OF assms(1)]
  by (auto simp: flows_retx_def flows_reset_retransmit_def tcp_txavail_def rx_part_def Let_def
      word_nat split: if_splits)

theorem flows_retx_resets_witness:
  "tcp_txavail (fst (flows_retx work_tx (sample_fs\<lparr>fs_tx_sent := 1000, fs_tx_remote_avail := 1000\<rparr>)
       sample_result)) 0 = 2000"
proof -
  let ?fs = "sample_fs\<lparr>fs_tx_sent := 1000, fs_tx_remote_avail := 1000\<rparr>"
  let ?t = "flows_retx work_tx ?fs sample_result"
  have 1: "unat (fs_tx_remote_avail ?fs) + unat (fs_tx_sent ?fs) < 2 ^ 32" by simp
  have 2: "?t = (fst ?t, snd ?t)" by simp
  from flows_retx_resets [OF 1 2] have "unat (tcp_txavail (fst ?t) 0) = 2000"
    by (simp add: sample_fs_def)
  then show ?thesis by (simp add: word_unat_eq_iff)
qed

end
