(* ===== verification/Flow_Cache.thy ===== *)
theory Flow_Cache
  imports Tcp_Flows
begin

unbundle bit_operations_syntax

text \<open>
  The flow-state cache of the protocol stage, \<open>firmware/process.c\<close>: 16 entries in local memory
  indexed by the CAM, a direct-mapped victim cache of 512 entries in CLS, and the flow table in
  external memory. The model is sequential: a miss is handled as one step, which is what the
  entry's miss lock gives each entry; the signals and locks themselves are not modelled. Which
  entry a missing lookup returns is the choice of the CAM hardware (least recently used), an
  argument of the model.

  The lemmas show that the three levels together always hold one current value per flow, so that
  a work item sees and updates its flow as in a flat table.
\<close>

definition FS_LM_CACHE_SIZE :: nat where "FS_LM_CACHE_SIZE = 16"
definition FS_CLS_CACHE_SIZE :: nat where "FS_CLS_CACHE_SIZE = 512"
definition FS_CLS_CACHE_MASK :: u32 where "FS_CLS_CACHE_MASK = 511"

record fcache =
  cam_tag :: "nat \<Rightarrow> u32"
  cam_state :: "nat \<Rightarrow> u32"
  fs_lm :: "nat \<Rightarrow> flowst_tcp_t"
  fs_cls_status :: "nat \<Rightarrow> u32"
  flowst_cache :: "nat \<Rightarrow> flowst_tcp_t"
  flows_tcp_state :: "u32 \<Rightarrow> flowst_tcp_t"

definition init_cls_cache :: "fcache \<Rightarrow> fcache" where
  "init_cls_cache c =
     c\<lparr>fs_cls_status := (\<lambda>i. if i < FS_CLS_CACHE_SIZE then 0 else fs_cls_status c i)\<rparr>"

definition init_lm_cache :: "fcache \<Rightarrow> fcache" where
  "init_lm_cache c =
     c\<lparr>cam_tag := (\<lambda>i. if i < FS_LM_CACHE_SIZE then 0xFFFFFFFF - of_nat i else cam_tag c i),
       cam_state := (\<lambda>i. if i < FS_LM_CACHE_SIZE then 0 else cam_state c i)\<rparr>"

definition cam_misslock_release :: "nat \<Rightarrow> fcache \<Rightarrow> fcache" where
  "cam_misslock_release e c = c\<lparr>cam_state := (cam_state c)(e := 0)\<rparr>"

definition cam_misslock_acquire :: "nat \<Rightarrow> fcache \<Rightarrow> fcache" where
  "cam_misslock_acquire e c = c\<lparr>cam_state := (cam_state c)(e := 1)\<rparr>"

definition cls_slot :: "u32 \<Rightarrow> nat" where
  "cls_slot flow_id = unat (flow_id AND FS_CLS_CACHE_MASK)"

definition handle_miss :: "nat \<Rightarrow> u32 \<Rightarrow> fcache \<Rightarrow> fcache" where
  "handle_miss entry_idx flow_id c =
     (let incoming_cls_slot = cls_slot flow_id;
          lm_evicted_flowid = cam_tag c entry_idx;
          lm_evicted_cls_slot = cls_slot lm_evicted_flowid;
          cls_evicted_flowid = fs_cls_status c lm_evicted_cls_slot;
          \<comment> \<open>modify the CAM, leave the entry locked\<close>
          c1 = c\<lparr>cam_tag := (cam_tag c)(entry_idx := flow_id),
                 cam_state := (cam_state c)(entry_idx := 1)\<rparr>;
          lm_evict_fs = fs_lm c1 entry_idx;
          c2 = c1\<lparr>fs_cls_status := (fs_cls_status c1)(lm_evicted_cls_slot := lm_evicted_flowid)\<rparr>;
          swapped = flowst_cache c2 lm_evicted_cls_slot;
          c3 = c2\<lparr>flowst_cache := (flowst_cache c2)(lm_evicted_cls_slot := lm_evict_fs)\<rparr>
      in if cls_evicted_flowid \<noteq> 0 \<and> cls_evicted_flowid = flow_id then
           cam_misslock_release entry_idx (c3\<lparr>fs_lm := (fs_lm c3)(entry_idx := swapped)\<rparr>)
         else
           let c4 = (if cls_evicted_flowid = 0 then c3
                     else c3\<lparr>flows_tcp_state := (flows_tcp_state c3)(cls_evicted_flowid := swapped)\<rparr>);
               (c5, incoming_fs) =
                 (if fs_cls_status c4 incoming_cls_slot = flow_id
                  then (c4\<lparr>fs_cls_status := (fs_cls_status c4)(incoming_cls_slot := 0)\<rparr>,
                        flowst_cache c4 incoming_cls_slot)
                  else (c4, flows_tcp_state c4 flow_id))
           in cam_misslock_release entry_idx (c5\<lparr>fs_lm := (fs_lm c5)(entry_idx := incoming_fs)\<rparr>))"

text \<open>
  \<open>cam_lookup\<close>: the entry with the tag, or a miss with the entry the hardware offers for
  replacement.
\<close>

definition cam_lookup :: "u32 \<Rightarrow> nat \<Rightarrow> fcache \<Rightarrow> bool \<times> nat" where
  "cam_lookup flow_id lru c =
     (case List.find (\<lambda>i. cam_tag c i = flow_id) [0..<FS_LM_CACHE_SIZE] of
        Some i \<Rightarrow> (True, i)
      | None \<Rightarrow> (False, lru))"

text \<open>
  One turn of the loop in \<open>process_work\<close>: look the flow up, handle a miss, run the handler on the
  cached state.
\<close>

definition process_work_step ::
  "(work_t \<times> pkt_summary_t) \<times> nat \<Rightarrow> fcache \<times> u32 \<times> work_result_t \<Rightarrow> fcache \<times> u32 \<times> work_result_t" where
  "process_work_step e s =
     (let (ev, lru) = e; (c, seq, result) = s;
          flow_id = work_flow_id (fst ev);
          (hit, fs_lm_idx) = cam_lookup flow_id lru c;
          c1 = (if hit then c else handle_miss fs_lm_idx flow_id c);
          s' = process_switch ev \<lparr>ps_seq = seq, ps_fs = fs_lm c1 fs_lm_idx, ps_result = result\<rparr>
      in (c1\<lparr>fs_lm := (fs_lm c1)(fs_lm_idx := ps_fs s')\<rparr>, ps_seq s', ps_result s'))"

subsection \<open>The current value of a flow\<close>

definition in_lm :: "fcache \<Rightarrow> u32 \<Rightarrow> nat \<Rightarrow> bool" where
  "in_lm c f i \<longleftrightarrow> i < FS_LM_CACHE_SIZE \<and> cam_tag c i = f"

definition flow_view :: "fcache \<Rightarrow> u32 \<Rightarrow> flowst_tcp_t" where
  "flow_view c f =
     (case List.find (\<lambda>i. cam_tag c i = f) [0..<FS_LM_CACHE_SIZE] of
        Some i \<Rightarrow> fs_lm c i
      | None \<Rightarrow> if fs_cls_status c (cls_slot f) = f then flowst_cache c (cls_slot f)
                else flows_tcp_state c f)"

text \<open>Tags are distinct and not 0, and a flow in local memory is not also in CLS.\<close>

definition cache_inv :: "fcache \<Rightarrow> bool" where
  "cache_inv c \<longleftrightarrow>
     inj_on (cam_tag c) {..<FS_LM_CACHE_SIZE} \<and>
     (\<forall>i<FS_LM_CACHE_SIZE. cam_tag c i \<noteq> 0 \<and> fs_cls_status c (cls_slot (cam_tag c i)) \<noteq> cam_tag c i) \<and>
     (\<forall>s<FS_CLS_CACHE_SIZE. fs_cls_status c s \<noteq> 0 \<longrightarrow> cls_slot (fs_cls_status c s) = s)"

lemma find_tag_Some:
  assumes "inj_on (cam_tag c) {..<FS_LM_CACHE_SIZE}" "i < FS_LM_CACHE_SIZE" "cam_tag c i = f"
  shows "List.find (\<lambda>i. cam_tag c i = f) [0..<FS_LM_CACHE_SIZE] = Some i"
proof -
  have "\<exists>j. List.find (\<lambda>i. cam_tag c i = f) [0..<FS_LM_CACHE_SIZE] = Some j"
    using assms(2,3) by (force simp: find_None_iff simp flip: not_None_eq)
  then obtain j where j: "List.find (\<lambda>i. cam_tag c i = f) [0..<FS_LM_CACHE_SIZE] = Some j" ..
  then have "j < FS_LM_CACHE_SIZE" "cam_tag c j = f"
    by (auto simp: find_Some_iff)
  with assms have "j = i" by (auto simp: inj_on_def)
  with j show ?thesis by simp
qed

lemma find_tag_None:
  "(List.find (\<lambda>i. cam_tag c i = f) [0..<FS_LM_CACHE_SIZE] = None) \<longleftrightarrow>
     (\<forall>i<FS_LM_CACHE_SIZE. cam_tag c i \<noteq> f)"
  by (auto simp: find_None_iff)

lemma flow_view_lm:
  "cache_inv c \<Longrightarrow> i < FS_LM_CACHE_SIZE \<Longrightarrow> cam_tag c i = f \<Longrightarrow> flow_view c f = fs_lm c i"
  by (simp add: flow_view_def cache_inv_def find_tag_Some)

lemma flow_view_not_lm:
  "(\<forall>i<FS_LM_CACHE_SIZE. cam_tag c i \<noteq> f) \<Longrightarrow>
     flow_view c f = (if fs_cls_status c (cls_slot f) = f then flowst_cache c (cls_slot f)
                      else flows_tcp_state c f)"
  using find_tag_None [of c f] by (simp add: flow_view_def)

lemma cls_slot_less: "cls_slot f < FS_CLS_CACHE_SIZE"
proof -
  have "unat (f AND FS_CLS_CACHE_MASK) \<le> unat FS_CLS_CACHE_MASK"
    by (metis word_and_le1 word_le_nat_alt)
  then show ?thesis by (simp add: cls_slot_def FS_CLS_CACHE_MASK_def FS_CLS_CACHE_SIZE_def)
qed

subsection \<open>A miss keeps every flow's value\<close>

text \<open>
  The state after a miss, with \<open>E\<close> the evicted flow, \<open>s\<close> its CLS slot and \<open>X\<close> the flow that slot
  held.
\<close>

lemma handle_miss_fields:
  fixes c e f
  defines "E \<equiv> cam_tag c e"
  defines "s \<equiv> cls_slot E"
  defines "X \<equiv> fs_cls_status c s"
  defines "status2 \<equiv> (fs_cls_status c)(s := E)"
  defines "cache2 \<equiv> (flowst_cache c)(s := fs_lm c e)"
  defines "mem2 \<equiv> (if X = 0 then flows_tcp_state c else (flows_tcp_state c)(X := flowst_cache c s))"
  shows "cam_tag (handle_miss e f c) = (cam_tag c)(e := f)"
    and "cam_state (handle_miss e f c) = (cam_state c)(e := 0)"
    and "flowst_cache (handle_miss e f c) = cache2"
    and "X \<noteq> 0 \<and> X = f \<Longrightarrow> fs_cls_status (handle_miss e f c) = status2 \<and>
           fs_lm (handle_miss e f c) = (fs_lm c)(e := flowst_cache c s) \<and>
           flows_tcp_state (handle_miss e f c) = flows_tcp_state c"
    and "\<not> (X \<noteq> 0 \<and> X = f) \<Longrightarrow>
           fs_cls_status (handle_miss e f c) =
             (if status2 (cls_slot f) = f then status2(cls_slot f := 0) else status2) \<and>
           fs_lm (handle_miss e f c) = (fs_lm c)
             (e := if status2 (cls_slot f) = f then cache2 (cls_slot f) else mem2 f) \<and>
           flows_tcp_state (handle_miss e f c) = mem2"
proof -
  note miss = handle_miss_def [of e f c, unfolded Let_def, folded E_def, folded s_def, folded X_def]
    cam_misslock_release_def
  show "cam_tag (handle_miss e f c) = (cam_tag c)(e := f)"
    "cam_state (handle_miss e f c) = (cam_state c)(e := 0)"
    "flowst_cache (handle_miss e f c) = cache2"
    by (simp_all add: miss cache2_def split: prod.split)
  show "fs_cls_status (handle_miss e f c) = status2 \<and>
      fs_lm (handle_miss e f c) = (fs_lm c)(e := flowst_cache c s) \<and>
      flows_tcp_state (handle_miss e f c) = flows_tcp_state c" if "X \<noteq> 0 \<and> X = f"
    by (simp only: miss if_P [OF that], simp add: status2_def)
  show "fs_cls_status (handle_miss e f c) =
        (if status2 (cls_slot f) = f then status2(cls_slot f := 0) else status2) \<and>
      fs_lm (handle_miss e f c) = (fs_lm c)
        (e := if status2 (cls_slot f) = f then cache2 (cls_slot f) else mem2 f) \<and>
      flows_tcp_state (handle_miss e f c) = mem2" if n: "\<not> (X \<noteq> 0 \<and> X = f)"
    by (simp only: miss if_not_P [OF n])
       (cases "status2 (cls_slot f) = f"; cases "X = 0";
        simp add: cache2_def mem2_def flip: status2_def)
qed

lemma cache_inv_slot:
  "cache_inv c \<Longrightarrow> t < FS_CLS_CACHE_SIZE \<Longrightarrow> fs_cls_status c t = g \<Longrightarrow> g \<noteq> 0 \<Longrightarrow> cls_slot g = t"
  by (auto simp: cache_inv_def)

text \<open>After a miss the victim's slot holds the victim, and the incoming flow is in no slot.\<close>

lemma handle_miss_status:
  assumes inv: "cache_inv c" and Ef: "cam_tag c e \<noteq> f" and f: "f \<noteq> 0"
    and t: "t < FS_CLS_CACHE_SIZE"
  shows "fs_cls_status (handle_miss e f c) t =
    (if t = cls_slot (cam_tag c e) then cam_tag c e
     else if fs_cls_status c t = f then 0 else fs_cls_status c t)"
proof -
  let ?s = "cls_slot (cam_tag c e)"
  note fields = handle_miss_fields(4,5) [where e = e and f = f and c = c]
  show ?thesis
  proof (cases "fs_cls_status c ?s \<noteq> 0 \<and> fs_cls_status c ?s = f")
    case True
    then have "cls_slot f = ?s" using cache_inv_slot [OF inv cls_slot_less] by blast
    then have "fs_cls_status c t = f \<Longrightarrow> t = ?s" using cache_inv_slot [OF inv t] f by metis
    then show ?thesis using fields(1) [OF True] by simp
  next
    case False
    define st2 where "st2 = (fs_cls_status c)(?s := cam_tag c e)"
    have eq: "fs_cls_status (handle_miss e f c) t =
        (if st2 (cls_slot f) = f then (st2(cls_slot f := 0)) t else st2 t)"
      using fields(2) [OF False] by (simp add: st2_def)
    show ?thesis
    proof (cases "t = ?s")
      case True
      then have "st2 t = cam_tag c e" by (simp add: st2_def)
      moreover from this have "t = cls_slot f \<Longrightarrow> st2 (cls_slot f) \<noteq> f" using Ef by metis
      ultimately show ?thesis using True eq by auto
    next
      case False
      then have "st2 t = fs_cls_status c t" by (simp add: st2_def)
      moreover have "fs_cls_status c t = f \<Longrightarrow> cls_slot f = t"
        using cache_inv_slot [OF inv t] f by blast
      ultimately show ?thesis using False eq by auto
    qed
  qed
qed

lemma handle_miss_mem:
  assumes "g \<noteq> f" and "g \<noteq> 0"
  shows "flows_tcp_state (handle_miss e f c) g =
    (if fs_cls_status c (cls_slot (cam_tag c e)) = g then flowst_cache c (cls_slot (cam_tag c e))
     else flows_tcp_state c g)"
proof (cases "fs_cls_status c (cls_slot (cam_tag c e)) \<noteq> 0 \<and> fs_cls_status c (cls_slot (cam_tag c e)) = f")
  case True
  then show ?thesis using handle_miss_fields(4) [OF True] assms by simp
next
  case False
  then show ?thesis using handle_miss_fields(5) [OF False] assms by simp
qed

text \<open>The local memory after a miss: the incoming flow's current value, the others unchanged.\<close>

lemma handle_miss_lm:
  assumes inv: "cache_inv c" and e: "e < FS_LM_CACHE_SIZE"
    and miss: "\<forall>i<FS_LM_CACHE_SIZE. cam_tag c i \<noteq> f" and f: "f \<noteq> 0"
  shows "fs_lm (handle_miss e f c) = (fs_lm c)(e := flow_view c f)"
proof -
  let ?s = "cls_slot (cam_tag c e)"
  have Ef: "cam_tag c e \<noteq> f" using miss e by blast
  show ?thesis
  proof (cases "fs_cls_status c ?s \<noteq> 0 \<and> fs_cls_status c ?s = f")
    case True
    then have "cls_slot f = ?s" using cache_inv_slot [OF inv cls_slot_less] by blast
    then show ?thesis using handle_miss_fields(4) [OF True] True flow_view_not_lm [OF miss] by simp
  next
    case False
    with f have X: "fs_cls_status c ?s \<noteq> f" by auto
    have "fs_lm (handle_miss e f c) = (fs_lm c)(e :=
        if cls_slot f \<noteq> ?s \<and> fs_cls_status c (cls_slot f) = f then flowst_cache c (cls_slot f)
        else flows_tcp_state c f)"
      using handle_miss_fields(5) [OF False] X Ef by (cases "cls_slot f = ?s") auto
    then show ?thesis using flow_view_not_lm [OF miss] X by auto
  qed
qed

lemma handle_miss_inv:
  assumes inv: "cache_inv c" and e: "e < FS_LM_CACHE_SIZE"
    and miss: "\<forall>i<FS_LM_CACHE_SIZE. cam_tag c i \<noteq> f" and f: "f \<noteq> 0"
  shows "cache_inv (handle_miss e f c)"
proof -
  let ?c = "handle_miss e f c" and ?E = "cam_tag c e"
  note tag = handle_miss_fields(1) [where e = e and f = f and c = c]
  have inj: "inj_on (cam_tag c) {..<FS_LM_CACHE_SIZE}"
    and tags: "\<And>i. i < FS_LM_CACHE_SIZE \<Longrightarrow> cam_tag c i \<noteq> 0 \<and>
      fs_cls_status c (cls_slot (cam_tag c i)) \<noteq> cam_tag c i"
    using inv by (auto simp: cache_inv_def)
  have Ef: "?E \<noteq> f" using miss e by blast
  note status = handle_miss_status [OF inv Ef f]
  have uniq: "cam_tag c i \<noteq> ?E" if "i < FS_LM_CACHE_SIZE" "i \<noteq> e" for i
    using inj that e by (auto simp: inj_on_def)
  have "inj_on (cam_tag ?c) {..<FS_LM_CACHE_SIZE}"
    using inj miss e by (auto simp: tag inj_on_def)
  moreover have "cam_tag ?c i \<noteq> 0 \<and> fs_cls_status ?c (cls_slot (cam_tag ?c i)) \<noteq> cam_tag ?c i"
    if i: "i < FS_LM_CACHE_SIZE" for i
  proof (cases "i = e")
    case True
    then show ?thesis using status [OF cls_slot_less, of f] f Ef by (simp add: tag)
  next
    case False
    then show ?thesis
      using status [OF cls_slot_less, of "cam_tag c i"] tags [OF i] uniq [OF i] by (simp add: tag)
  qed
  moreover have "fs_cls_status ?c t \<noteq> 0 \<longrightarrow> cls_slot (fs_cls_status ?c t) = t"
    if "t < FS_CLS_CACHE_SIZE" for t
    using status [OF that] cache_inv_slot [OF inv that] by simp
  ultimately show ?thesis by (simp add: cache_inv_def)
qed

lemma handle_miss_view:
  assumes inv: "cache_inv c" and e: "e < FS_LM_CACHE_SIZE"
    and miss: "\<forall>i<FS_LM_CACHE_SIZE. cam_tag c i \<noteq> f" and f: "f \<noteq> 0" and g: "g \<noteq> 0"
  shows "flow_view (handle_miss e f c) g = flow_view c g"
proof -
  let ?c = "handle_miss e f c" and ?E = "cam_tag c e"
  note fields = handle_miss_fields [where e = e and f = f and c = c]
  note inv' = handle_miss_inv [OF inv e miss f]
  have Ef: "?E \<noteq> f" using miss e by blast
  consider (new) "g = f"
    | (lm) j where "j < FS_LM_CACHE_SIZE" "cam_tag c j = g" "j \<noteq> e" "g \<noteq> f"
    | (evicted) "g = ?E" "\<forall>i<FS_LM_CACHE_SIZE. cam_tag ?c i \<noteq> g"
    | (other) "g \<noteq> ?E" "g \<noteq> f" "\<forall>i<FS_LM_CACHE_SIZE. cam_tag c i \<noteq> g"
        "\<forall>i<FS_LM_CACHE_SIZE. cam_tag ?c i \<noteq> g"
  proof -
    have "cam_tag ?c i \<noteq> ?E" if "i < FS_LM_CACHE_SIZE" for i
      using inv that e Ef by (auto simp: fields(1) cache_inv_def inj_on_def)
    moreover have "\<forall>i<FS_LM_CACHE_SIZE. cam_tag ?c i \<noteq> g"
      if "g \<noteq> f" "\<forall>i<FS_LM_CACHE_SIZE. cam_tag c i \<noteq> g"
      using that by (simp add: fields(1))
    ultimately show thesis using that by metis
  qed
  then show ?thesis
  proof cases
    case new
    then show ?thesis
      using flow_view_lm [OF inv' e] by (simp add: fields(1) handle_miss_lm [OF inv e miss f])
  next
    case lm
    then show ?thesis
      using flow_view_lm [OF inv' lm(1)] flow_view_lm [OF inv lm(1,2)]
      by (simp add: fields(1) handle_miss_lm [OF inv e miss f])
  next
    case evicted
    then show ?thesis
      using flow_view_not_lm [OF evicted(2)] flow_view_lm [OF inv e]
      by (simp add: fields(3) handle_miss_status [OF inv Ef f cls_slot_less])
  next
    case other
    have slot: "fs_cls_status c (cls_slot ?E) = g \<Longrightarrow> cls_slot g = cls_slot ?E"
      using cache_inv_slot [OF inv cls_slot_less] g by blast
    note views = flow_view_not_lm [OF other(4)] flow_view_not_lm [OF other(3)] fields(3)
      handle_miss_status [OF inv Ef f cls_slot_less, of g] handle_miss_mem [OF other(2) g, of e c]
    show ?thesis
    proof (cases "cls_slot g = cls_slot ?E")
      case True
      show ?thesis unfolding views unfolding True using other(1) by auto
    next
      case False
      then have "fs_cls_status c (cls_slot ?E) \<noteq> g" using slot by blast
      then show ?thesis unfolding views using False other(2) g by auto
    qed
  qed
qed

subsection \<open>A work item and the flow table\<close>

lemma cache_inv_fs_lm [simp]: "cache_inv (c\<lparr>fs_lm := l\<rparr>) = cache_inv c"
  by (simp add: cache_inv_def)

text \<open>Writing a cached entry changes the value of the flow in it and of no other.\<close>

lemma flow_view_write:
  assumes inv: "cache_inv c" and e: "e < FS_LM_CACHE_SIZE"
  shows "flow_view (c\<lparr>fs_lm := (fs_lm c)(e := v)\<rparr>) g = (if g = cam_tag c e then v else flow_view c g)"
proof (cases "\<forall>i<FS_LM_CACHE_SIZE. cam_tag c i \<noteq> g")
  case True
  then show ?thesis using e
    by (auto simp: flow_view_not_lm [of c] flow_view_not_lm [of "c\<lparr>fs_lm := (fs_lm c)(e := v)\<rparr>"])
next
  case False
  then obtain i where i: "i < FS_LM_CACHE_SIZE" "cam_tag c i = g" by blast
  then have "flow_view (c\<lparr>fs_lm := (fs_lm c)(e := v)\<rparr>) g = ((fs_lm c)(e := v)) i"
    using flow_view_lm [of "c\<lparr>fs_lm := (fs_lm c)(e := v)\<rparr>" i] inv by simp
  moreover have "flow_view c g = fs_lm c i" using flow_view_lm [OF inv i] .
  moreover have "i = e \<longleftrightarrow> g = cam_tag c e"
    using inv i e by (auto simp: cache_inv_def inj_on_def)
  ultimately show ?thesis by simp
qed

text \<open>After the lookup and the miss handling the flow is in the entry the handler works on.\<close>

lemma cam_lookup_entry:
  assumes inv: "cache_inv c" and lru: "lru < FS_LM_CACHE_SIZE" and f: "f \<noteq> 0"
    and l: "cam_lookup f lru c = (hit, i)"
  defines "c1 \<equiv> (if hit then c else handle_miss i f c)"
  shows "i < FS_LM_CACHE_SIZE" "cam_tag c1 i = f" "cache_inv c1"
    "g \<noteq> 0 \<Longrightarrow> flow_view c1 g = flow_view c g"
proof -
  have "i < FS_LM_CACHE_SIZE \<and> cam_tag c1 i = f \<and> cache_inv c1 \<and>
      (g \<noteq> 0 \<longrightarrow> flow_view c1 g = flow_view c g)"
  proof (cases "List.find (\<lambda>i. cam_tag c i = f) [0..<FS_LM_CACHE_SIZE]")
    case None
    then have "\<forall>i<FS_LM_CACHE_SIZE. cam_tag c i \<noteq> f" by (simp only: find_tag_None)
    moreover from None l have "\<not> hit" "i = lru" by (auto simp: cam_lookup_def)
    ultimately show ?thesis
      using handle_miss_fields(1) [of i f c] handle_miss_inv [OF inv lru _ f]
        handle_miss_view [OF inv lru _ f] lru
      by (simp add: c1_def)
  next
    case (Some j)
    with l inv show ?thesis by (auto simp: cam_lookup_def c1_def find_Some_iff)
  qed
  then show "i < FS_LM_CACHE_SIZE" "cam_tag c1 i = f" "cache_inv c1"
    "g \<noteq> 0 \<Longrightarrow> flow_view c1 g = flow_view c g" by auto
qed

lemma process_work_step_view:
  assumes inv: "cache_inv c" and lru: "lru < FS_LM_CACHE_SIZE" and f: "work_flow_id (fst ev) \<noteq> 0"
    and step: "process_work_step (ev, lru) (c, seq, r) = (c', seq', r')"
  shows "cache_inv c'"
    "g \<noteq> 0 \<Longrightarrow> flow_view c' g =
       (if g = work_flow_id (fst ev) then flow_step ev (flow_view c g) else flow_view c g)"
proof -
  let ?f = "work_flow_id (fst ev)"
  obtain hit i where l: "cam_lookup ?f lru c = (hit, i)" by fastforce
  define c1 where "c1 = (if hit then c else handle_miss i ?f c)"
  note e = cam_lookup_entry [OF inv lru f l, folded c1_def]
  have "c' = c1\<lparr>fs_lm := (fs_lm c1)(i := flow_step ev (fs_lm c1 i))\<rparr>"
    using step by (auto simp: process_work_step_def l c1_def [symmetric] Let_def process_switch_flow_step)
  moreover have "fs_lm c1 i = flow_view c ?f"
    using flow_view_lm [OF e(3,1,2)] e(4) [OF f] by simp
  ultimately show "cache_inv c'"
    "g \<noteq> 0 \<Longrightarrow> flow_view c' g = (if g = ?f then flow_step ev (flow_view c g) else flow_view c g)"
    using flow_view_write [OF e(3,1)] e(2,3,4) by auto
qed

subsection \<open>The cache as a keyed store\<close>

type_synonym work_event = "(work_t \<times> pkt_summary_t) \<times> nat"

definition event_flow :: "work_event \<Rightarrow> u32" where
  "event_flow e = work_flow_id (fst (fst e))"

definition event_ok :: "work_event \<Rightarrow> fcache \<times> u32 \<times> work_result_t \<Rightarrow> bool" where
  "event_ok e s \<longleftrightarrow> snd e < FS_LM_CACHE_SIZE \<and> event_flow e \<noteq> 0"

interpretation flow_table: keyed_store
  "\<lambda>s. flow_view (fst s)" process_work_step event_flow "\<lambda>e. flow_step (fst e)" event_ok
  "\<lambda>s. cache_inv (fst s)" "\<lambda>f. f \<noteq> 0"
proof (unfold_locales, goal_cases)
  case (1 c e)
  obtain ev lru cc seq r c' seq' r' where "e = (ev, lru)" "c = (cc, seq, r)"
    "process_work_step e c = (c', seq', r')" by (metis prod.exhaust)
  with 1 process_work_step_view(1) [of cc lru ev seq r c' seq' r'] show ?case
    by (simp add: event_ok_def event_flow_def)
next
  case (2 c e)
  obtain ev lru cc seq r c' seq' r' where "e = (ev, lru)" "c = (cc, seq, r)"
    "process_work_step e c = (c', seq', r')" by (metis prod.exhaust)
  with 2 process_work_step_view(2) [of cc lru ev seq r c' seq' r'] show ?case
    by (simp add: event_ok_def event_flow_def)
next
  case (3 c e k)
  obtain ev lru cc seq r c' seq' r' where "e = (ev, lru)" "c = (cc, seq, r)"
    "process_work_step e c = (c', seq', r')" by (metis prod.exhaust)
  with 3 process_work_step_view(2) [of cc lru ev seq r c' seq' r'] show ?case
    by (simp add: event_ok_def event_flow_def)
qed

lemma init_tags_inj: "inj_on (\<lambda>i. 0xFFFFFFFF - of_nat i :: u32) {..<16}"
proof (rule inj_onI)
  fix i j :: nat
  assume "i \<in> {..<16}" "j \<in> {..<16}" and "(0xFFFFFFFF - of_nat i :: u32) = 0xFFFFFFFF - of_nat j"
  then have "(of_nat i :: u32) = of_nat j" "i < 16" "j < 16" by auto
  then have "unat (of_nat i :: u32) = unat (of_nat j :: u32)" by simp
  then show "i = j" using \<open>i < 16\<close> \<open>j < 16\<close> by (simp add: unat_of_nat)
qed

lemma init_tag_nonzero: "i < 16 \<Longrightarrow> (0xFFFFFFFF - of_nat i :: u32) \<noteq> 0"
proof
  assume "i < 16" "(0xFFFFFFFF - of_nat i :: u32) = 0"
  then have "unat (of_nat i :: u32) = unat (0xFFFFFFFF :: u32)" by simp
  with \<open>i < 16\<close> show False by (simp add: unat_of_nat)
qed

lemma init_cache_inv: "cache_inv (init_cls_cache (init_lm_cache c))"
proof -
  have "inj_on (cam_tag (init_cls_cache (init_lm_cache c))) {..<16} =
      inj_on (\<lambda>i. 0xFFFFFFFF - of_nat i :: u32) {..<16}"
    by (rule inj_on_cong) (simp add: init_cls_cache_def init_lm_cache_def FS_LM_CACHE_SIZE_def)
  then show ?thesis
    using init_tags_inj cls_slot_less init_tag_nonzero
    by (simp add: cache_inv_def init_cls_cache_def init_lm_cache_def FS_LM_CACHE_SIZE_def)
qed

lemma init_view:
  assumes "f \<noteq> 0" and "\<forall>i<16. f \<noteq> 0xFFFFFFFF - of_nat i"
  shows "flow_view (init_cls_cache (init_lm_cache c)) f = flows_tcp_state c f"
proof -
  have "\<forall>i<FS_LM_CACHE_SIZE. cam_tag (init_cls_cache (init_lm_cache c)) i \<noteq> f"
    using assms(2) by (auto simp: init_cls_cache_def init_lm_cache_def FS_LM_CACHE_SIZE_def)
  from flow_view_not_lm [OF this] show ?thesis
    using assms(1) cls_slot_less [of f] by (simp add: init_cls_cache_def init_lm_cache_def)
qed

subsection \<open>Properties\<close>

lemma run_ok_event_ok:
  "(\<forall>e\<in>set es. snd e < FS_LM_CACHE_SIZE \<and> event_flow e \<noteq> 0) \<Longrightarrow> run_ok process_work_step event_ok es s"
  by (induction es arbitrary: s) (auto simp: event_ok_def)

lemma small_not_placeholder: "f < 0x10000 \<Longrightarrow> \<forall>i<16. f \<noteq> 0xFFFFFFFF - of_nat i" for f :: u32
proof (intro allI impI notI)
  fix i :: nat
  assume "f < 0x10000" "i < 16" and f: "f = 0xFFFFFFFF - of_nat i"
  from \<open>i < 16\<close> have "unat (of_nat i :: u32) = i" by (simp add: unat_of_nat)
  moreover from this \<open>i < 16\<close> have "unat f = 0xFFFFFFFF - i"
    by (simp add: f unat_sub_exact word_nat)
  ultimately show False using \<open>f < 0x10000\<close> \<open>i < 16\<close> by (simp add: word_nat)
qed

text \<open>
  C4. From the initialised caches, any sequence of work items, on any flows, with any choice of
  replaced entries by the CAM, leaves each flow with the state that its own work items give, taken
  in order, on the state the flow table held at the start: the three cache levels never lose,
  duplicate or mix up a flow's state. Flow id 0 is not used, as the code documents, and flow ids
  have 16 bits, as in a work item.
\<close>

theorem process_work_keeps_flows:
  assumes "\<forall>e\<in>set es. snd e < FS_LM_CACHE_SIZE \<and> event_flow e \<noteq> 0"
    and "f \<noteq> 0" and "f < 0x10000"
  shows "flow_view (fst (run process_work_step es (init_cls_cache (init_lm_cache c), seq, r))) f =
    run (\<lambda>e. flow_step (fst e)) (filter (\<lambda>e. event_flow e = f) es) (flows_tcp_state c f)"
  using flow_table.run_get [of "(init_cls_cache (init_lm_cache c), seq, r)" es f]
    init_cache_inv [of c] init_view [OF assms(2) small_not_placeholder [OF assms(3)]]
    run_ok_event_ok [OF assms(1)] assms(2)
  by simp

definition empty_cache :: fcache where
  "empty_cache = \<lparr>cam_tag = \<lambda>_. 0, cam_state = \<lambda>_. 0, fs_lm = \<lambda>_. sample_fs,
     fs_cls_status = \<lambda>_. 0, flowst_cache = \<lambda>_. sample_fs, flows_tcp_state = \<lambda>_. sample_fs\<rparr>"

definition sample_work :: "u32 \<Rightarrow> work_t" where
  "sample_work f = work_ac200\<lparr>raw2 := bf_set 16 16 f (raw2 work_ac200)\<rparr>"

definition sample_events :: "work_event list" where
  "sample_events =
     [((sample_work 5, sample_pkt), 3), ((sample_work 517, sample_pkt), 3),
      ((sample_work 5, sample_pkt), 3)]"

lemma sample_events_flows: "map event_flow sample_events = [5, 517, 5]"
  by (simp add: sample_events_def event_flow_def sample_work_def work_flow_id_def bf_get_set_same)

text \<open>Flows 5 and 517 share a CLS slot and here also a local-memory entry.\<close>

theorem process_work_keeps_flows_witness:
  "flow_view (fst (run process_work_step sample_events
       (init_cls_cache (init_lm_cache empty_cache), 0, sample_result))) 5 =
     flow_step (sample_work 5, sample_pkt) (flow_step (sample_work 5, sample_pkt) sample_fs)"
proof -
  have flows: "event_flow ((sample_work 5, sample_pkt), 3) = 5"
    "event_flow ((sample_work 517, sample_pkt), 3) = 517"
    using sample_events_flows by (simp_all add: sample_events_def)
  then have "\<forall>e\<in>set sample_events. snd e < FS_LM_CACHE_SIZE \<and> event_flow e \<noteq> 0"
    by (simp add: sample_events_def FS_LM_CACHE_SIZE_def)
  with process_work_keeps_flows [of sample_events 5 empty_cache 0 sample_result] flows
  show ?thesis by (simp add: sample_events_def empty_cache_def)
qed


end
