(* ===== verification/Tcp_Recv.thy ===== *)
theory Tcp_Recv
  imports Tcp_Flows
begin

unbundle bit_operations_syntax

text \<open>
  The receive side of \<open>firmware/flows.c\<close>. Offsets are counted from the next expected byte:
  the free part of the receive buffer is \<open>{0 ..< rx_avail}\<close>, the out-of-order interval is
  \<open>ooo_set\<close>, and the bytes a result asks the DMA stage to write are \<open>dma_set\<close>.
\<close>

definition ooo_off :: "flowst_tcp_t \<Rightarrow> nat" where
  "ooo_off fs = unat (fs_rx_ooo_start fs - fs_rx_next_seq fs)"

definition ooo_set :: "flowst_tcp_t \<Rightarrow> nat set" where
  "ooo_set fs = {ooo_off fs ..< ooo_off fs + unat (fs_rx_ooo_len fs)}"

text \<open>The out-of-order interval lies beyond the next byte and inside the free space.\<close>

definition rcv_inv :: "flowst_tcp_t \<Rightarrow> bool" where
  "rcv_inv fs \<longleftrightarrow> (fs_rx_ooo_len fs \<noteq> 0 \<longrightarrow>
     0 < ooo_off fs \<and> ooo_off fs + unat (fs_rx_ooo_len fs) \<le> unat (fs_rx_avail fs))"

definition rx_fields :: "flowst_tcp_t \<Rightarrow> u32 \<times> u32 \<times> u32 \<times> u32 \<times> u32" where
  "rx_fields fs = (fs_rx_avail fs, fs_rx_next_seq fs, fs_rx_next_pos fs, fs_rx_ooo_len fs,
                   fs_rx_ooo_start fs)"

lemma rcv_cong:
  assumes "rx_fields fs = rx_fields fs'"
  shows "ooo_off fs = ooo_off fs'" "ooo_set fs = ooo_set fs'" "rcv_inv fs = rcv_inv fs'"
  using assms by (simp_all add: rx_fields_def ooo_off_def ooo_set_def rcv_inv_def)

subsection \<open>Trimming\<close>

text \<open>
  What trimming leaves of a segment: either the part from the next expected byte on, or the part
  of a segment ahead of it, in both cases inside the free space.
\<close>

lemma tcp_trim_rxbuf_Some:
  assumes "tcp_trim_rxbuf fs seq bytes = Some (ts, te)"
  defines "n \<equiv> bytes - (ts + te)"
  shows "seq + ts = fs_rx_next_seq fs \<and> unat n \<le> unat (fs_rx_avail fs) \<and>
           unat ts + unat n \<le> unat bytes
       \<or> ts = 0 \<and> seq \<noteq> fs_rx_next_seq fs \<and>
           unat (seq - fs_rx_next_seq fs) < unat (fs_rx_avail fs) \<and>
           unat (seq - fs_rx_next_seq fs) + unat n \<le> unat (fs_rx_avail fs) \<and>
           unat n \<le> unat bytes"
proof -
  let ?next = "fs_rx_next_seq fs" and ?avail = "fs_rx_avail fs"
  show ?thesis
  proof (cases "?next - seq \<le> bytes")
    case True
    have ts: "ts = ?next - seq"
      and te: "te = (if bytes - ts \<le> ?avail then 0 else bytes - ts - ?avail)"
      using assms(1) True by (auto simp: tcp_trim_rxbuf_def Let_def)
    have le: "ts \<le> bytes" using True ts by simp
    have "n = (if bytes - ts \<le> ?avail then bytes - ts else ?avail)"
      by (simp add: n_def te)
    moreover have "unat (bytes - ts) = unat bytes - unat ts" using le by (rule unat_sub_exact)
    ultimately have "unat n \<le> unat ?avail \<and> unat ts + unat n \<le> unat bytes"
      using le by (auto simp: word_nat)
    then show ?thesis using ts by simp
  next
    case False
    let ?t = "seq - ?next"
    have "?t < ?avail" and ts: "ts = 0"
      and te: "te = (if ?avail - ?t \<ge> bytes then 0 else bytes - (?avail - ?t))"
      using assms(1) False by (auto simp: tcp_trim_rxbuf_def Let_def not_le split: if_splits)
    then have "n = (if ?avail - ?t \<ge> bytes then bytes else ?avail - ?t)"
      and "unat (?avail - ?t) = unat ?avail - unat ?t"
      by (simp_all add: n_def unat_sub_exact)
    moreover have "seq \<noteq> ?next" using False by auto
    ultimately show ?thesis using \<open>?t < ?avail\<close> ts
      by (auto simp: word_nat)
  qed
qed

text \<open>A segment strictly ahead that fits as a whole is not trimmed.\<close>

lemma tcp_trim_rxbuf_fits:
  "fs_rx_next_seq fs - seq = - t \<Longrightarrow> \<not> - t \<le> bytes \<Longrightarrow> \<not> fs_rx_avail fs \<le> t \<Longrightarrow>
     bytes \<le> fs_rx_avail fs - t \<Longrightarrow> tcp_trim_rxbuf fs seq bytes = Some (0, 0)"
  by (simp add: tcp_trim_rxbuf_def Let_def)

lemma tcp_trim_rxbuf_overlaps:
  "fs_rx_next_seq fs - seq = t \<Longrightarrow> t \<le> bytes \<Longrightarrow> bytes - t \<le> fs_rx_avail fs \<Longrightarrow>
     tcp_trim_rxbuf fs seq bytes = Some (t, 0)"
  by (simp add: tcp_trim_rxbuf_def Let_def)

lemma tcp_trim_rxbuf_outside:
  "fs_rx_next_seq fs - seq = t \<Longrightarrow> \<not> t \<le> bytes \<Longrightarrow> fs_rx_avail fs \<le> - t \<Longrightarrow>
     tcp_trim_rxbuf fs seq bytes = None"
  by (simp add: tcp_trim_rxbuf_def Let_def)

subsection \<open>The acknowledgement part does not touch the receive side\<close>

lemma flows_rx_ack_rx [simp]: "rx_fields (flows_rx_ack b fs) = rx_fields fs"
  "fs_flags (flows_rx_ack b fs) = fs_flags fs"
  by (simp_all add: flows_rx_ack_def rx_fields_def Let_def)

lemma seg_ack_rx:
  "seg_ack p fs fl = (fs', b, fl') \<Longrightarrow> rx_fields fs' = rx_fields fs \<and> fs_flags fs' = fs_flags fs"
  by (auto simp: seg_ack_def Let_def split: option.splits if_splits)

lemma seg_ack_dma:
  "seg_ack p fs fl = (fs', b, fl') \<Longrightarrow>
     has_flag fl' WORK_RESULT_DMA_PAYLOAD = has_flag fl WORK_RESULT_DMA_PAYLOAD"
  by (auto simp: seg_ack_def flows_rx_ack_flags_def Let_def split: option.splits if_splits)

subsection \<open>Out-of-order data\<close>

definition dma_set :: "flowst_tcp_t \<Rightarrow> u32 \<Rightarrow> work_result_t \<Rightarrow> nat set" where
  "dma_set fs flags r =
     (if has_flag flags WORK_RESULT_DMA_PAYLOAD
      then {unat (res_dma_pos r - fs_rx_next_pos fs) ..<
            unat (res_dma_pos r - fs_rx_next_pos fs) + unat (res_dma_len r)}
      else {})"

text \<open>
  The contract of a receive step from \<open>fs\<close> to \<open>fs'\<close> that advances by \<open>bump\<close> bytes: the DMA stays
  inside the free space; what is delivered, and what is kept out of order, was received.
\<close>

definition rcv_contract :: "flowst_tcp_t \<Rightarrow> flowst_tcp_t \<Rightarrow> u32 \<Rightarrow> u32 \<Rightarrow> work_result_t \<Rightarrow> bool" where
  "rcv_contract fs fs' bump flags r \<longleftrightarrow>
     rcv_inv fs' \<and>
     bump \<le> fs_rx_avail fs \<and>
     fs_rx_avail fs' = fs_rx_avail fs - bump \<and>
     fs_rx_next_pos fs' = fs_rx_next_pos fs + bump \<and>
     dma_set fs flags r \<subseteq> {..<unat (fs_rx_avail fs)} \<and>
     {..<unat bump} \<subseteq> ooo_set fs \<union> dma_set fs flags r \<and>
     (\<lambda>i. unat bump + i) ` ooo_set fs' \<subseteq> ooo_set fs \<union> dma_set fs flags r"

lemma ooo_set_empty [simp]: "fs_rx_ooo_len fs = 0 \<Longrightarrow> ooo_set fs = {}"
  by (simp add: ooo_set_def)

lemma rcv_contract_idle:
  "rcv_inv fs \<Longrightarrow> rx_fields fs' = rx_fields fs \<Longrightarrow> \<not> has_flag fl WORK_RESULT_DMA_PAYLOAD \<Longrightarrow>
     rcv_contract fs fs' 0 fl r"
  using rcv_cong [of fs' fs] by (auto simp: rcv_contract_def dma_set_def rx_fields_def)

lemma flows_seg_ooo_contract:
  assumes inv: "rcv_inv fs"
    and ahead: "seq \<noteq> fs_rx_next_seq fs"
      "unat (seq - fs_rx_next_seq fs) + unat n \<le> unat (fs_rx_avail fs)"
    and small: "unat n < 2 ^ 16" "unat ts < 2 ^ 16"
    and nodma: "\<not> has_flag fl WORK_RESULT_DMA_PAYLOAD"
    and eq: "flows_seg_ooo seq n ts fs fl r = (fs', fl', r')"
  shows "rcv_contract fs fs' 0 fl' r'"
proof -
  let ?d = "seq - fs_rx_next_seq fs" and ?len = "fs_rx_ooo_len fs" and ?start = "fs_rx_ooo_start fs"
  define R where "R = WORK_DMA_OFFSET_LEN_SET n ts (r\<lparr>res_dma_pos := fs_rx_next_pos fs + ?d\<rparr>)"
  have dpos: "0 < unat ?d" using ahead(1) by (simp add: unat_gt_0)
  have dma: "dma_set fs (fl OR WORK_RESULT_DMA_PAYLOAD) R = {unat ?d ..< unat ?d + unat n}"
    using small by (simp add: dma_set_def R_def res_dma_len_set)
  consider (none) "fs' = fs" "fl' = fl" "r' = r"
    | (new) "?len = 0" "fs' = fs\<lparr>fs_rx_ooo_len := n, fs_rx_ooo_start := seq\<rparr>"
        "fl' = fl OR WORK_RESULT_DMA_PAYLOAD" "r' = R"
    | (front) "?len \<noteq> 0" "seq + n = ?start"
        "fs' = fs\<lparr>fs_rx_ooo_len := ?len + n, fs_rx_ooo_start := seq\<rparr>"
        "fl' = fl OR WORK_RESULT_DMA_PAYLOAD" "r' = R"
    | (tail) "?len \<noteq> 0" "?start + ?len = seq" "fs' = fs\<lparr>fs_rx_ooo_len := ?len + n\<rparr>"
        "fl' = fl OR WORK_RESULT_DMA_PAYLOAD" "r' = R"
  proof -
    have "(fs', fl', r') =
      (if n = 0 then (fs, fl, r)
       else if ?len = 0 then (fs\<lparr>fs_rx_ooo_len := n, fs_rx_ooo_start := seq\<rparr>,
         fl OR WORK_RESULT_DMA_PAYLOAD, R)
       else if seq + n = ?start then (fs\<lparr>fs_rx_ooo_len := ?len + n, fs_rx_ooo_start := seq\<rparr>,
         fl OR WORK_RESULT_DMA_PAYLOAD, R)
       else if ?start + ?len = seq then (fs\<lparr>fs_rx_ooo_len := ?len + n\<rparr>,
         fl OR WORK_RESULT_DMA_PAYLOAD, R)
       else (fs, fl, r))"
      using eq unfolding flows_seg_ooo_def Let_def R_def by (rule sym)
    then show thesis using that by (metis Pair_inject)
  qed
  then show ?thesis
  proof cases
    case none
    then show ?thesis using inv nodma by (simp add: rcv_contract_idle)
  next
    case new
    then show ?thesis using ahead dma dpos
      by (auto simp: rcv_contract_def rcv_inv_def ooo_off_def ooo_set_def)
  next
    case front
    have off: "ooo_off fs = unat ?d + unat n"
      using unat_offset_add_le [OF ahead(2)] front(2) by (simp add: ooo_off_def)
    have len: "unat (?len + n) = unat ?len + unat n"
      using inv front(1) off by (intro unat_add_le [of _ _ "fs_rx_avail fs"]) (auto simp: rcv_inv_def)
    show ?thesis using front inv ahead dma dpos off len
      by (auto simp: rcv_contract_def rcv_inv_def ooo_off_def ooo_set_def)
  next
    case tail
    have off: "unat ?d = ooo_off fs + unat ?len"
      using inv tail(1,2) unat_offset_add_le [of ?start "fs_rx_next_seq fs" ?len "fs_rx_avail fs"]
      by (simp add: ooo_off_def rcv_inv_def)
    have len: "unat (?len + n) = unat ?len + unat n"
      using ahead(2) off by (intro unat_add_le [of _ _ "fs_rx_avail fs"]) auto
    show ?thesis using tail inv ahead dma dpos off len
      by (auto simp: rcv_contract_def rcv_inv_def ooo_off_def ooo_set_def)
  qed
qed

subsection \<open>In-order data\<close>

definition advance :: "u32 \<Rightarrow> flowst_tcp_t \<Rightarrow> flowst_tcp_t" where
  "advance n fs = fs\<lparr>fs_rx_avail := fs_rx_avail fs - n, fs_rx_next_seq := fs_rx_next_seq fs + n,
                     fs_rx_next_pos := fs_rx_next_pos fs + n\<rparr>"

text \<open>How far an advance by \<open>n\<close> moves past the start of the out-of-order interval.\<close>

lemma trim_after_advance:
  assumes inv: "rcv_inv fs" "fs_rx_ooo_len fs \<noteq> 0" and n: "unat n \<le> unat (fs_rx_avail fs)"
  defines "len \<equiv> fs_rx_ooo_len fs"
  shows "ooo_off fs > unat n \<Longrightarrow>
      tcp_trim_rxbuf (advance n fs) (fs_rx_ooo_start fs) len = Some (0, 0)"
    and "ooo_off fs \<le> unat n \<Longrightarrow> unat n - ooo_off fs \<le> unat len \<Longrightarrow>
      tcp_trim_rxbuf (advance n fs) (fs_rx_ooo_start fs) len =
        Some (of_nat (unat n - ooo_off fs), 0)"
    and "ooo_off fs \<le> unat n \<Longrightarrow> unat n - ooo_off fs > unat len \<Longrightarrow>
      tcp_trim_rxbuf (advance n fs) (fs_rx_ooo_start fs) len = None"
proof -
  let ?k = "fs_rx_ooo_start fs - fs_rx_next_seq fs"
  have av: "unat (fs_rx_avail fs - n) = unat (fs_rx_avail fs) - unat n"
    using n by (intro unat_sub_exact) (simp add: word_nat)
  have fit: "0 < ooo_off fs" "ooo_off fs + unat len \<le> unat (fs_rx_avail fs)" "0 < unat len"
    using inv by (simp_all add: rcv_inv_def len_def unat_gt_0)
  have lim: "unat (fs_rx_avail fs) < 4294967296" by (rule unat_u32_less)
  show "tcp_trim_rxbuf (advance n fs) (fs_rx_ooo_start fs) len = Some (0, 0)"
    if "ooo_off fs > unat n"
  proof -
    have "unat (?k - n) = ooo_off fs - unat n"
      using that by (subst unat_sub_exact) (auto simp: ooo_off_def word_nat)
    moreover from this have "unat (n - ?k) = 2 ^ 32 - (ooo_off fs - unat n)"
      using that unat_neg_pos [of "?k - n"] by (auto simp: ooo_off_def)
    ultimately have "\<not> n - ?k \<le> len" and gt: "\<not> fs_rx_avail fs - n \<le> ?k - n"
      and k: "unat (fs_rx_avail fs - n) - unat (?k - n) = unat (fs_rx_avail fs) - ooo_off fs"
      using fit lim that av by (auto simp: word_nat)
    moreover have "unat (fs_rx_avail fs - n - (?k - n)) = unat (fs_rx_avail fs) - ooo_off fs"
      using gt k by (subst unat_sub_exact) auto
    ultimately show ?thesis using fit
      by (intro tcp_trim_rxbuf_fits [of _ _ "?k - n"]) (simp_all add: advance_def word_le_nat_alt [of len])
  qed
  have nk: "unat (n - ?k) = unat n - ooo_off fs" "n - ?k = of_nat (unat n - ooo_off fs)"
    if "ooo_off fs \<le> unat n"
  proof -
    show *: "unat (n - ?k) = unat n - ooo_off fs"
      using that by (subst unat_sub_exact) (auto simp: ooo_off_def word_nat)
    show "n - ?k = of_nat (unat n - ooo_off fs)" unfolding * [symmetric] by simp
  qed
  show "tcp_trim_rxbuf (advance n fs) (fs_rx_ooo_start fs) len =
      Some (of_nat (unat n - ooo_off fs), 0)"
    if le: "ooo_off fs \<le> unat n" and "unat n - ooo_off fs \<le> unat len"
  proof -
    have "n - ?k \<le> len" using that nk(1) [OF le] by (simp add: word_nat)
    moreover from this have "unat (len - (n - ?k)) = unat len - (unat n - ooo_off fs)"
      using nk(1) [OF le] by (simp add: unat_sub_exact)
    ultimately show ?thesis unfolding nk(2) [OF le, symmetric] using fit le av
      by (intro tcp_trim_rxbuf_overlaps) (auto simp: advance_def word_le_nat_alt [of "len - _"])
  qed
  show "tcp_trim_rxbuf (advance n fs) (fs_rx_ooo_start fs) len = None"
    if le: "ooo_off fs \<le> unat n" and gt: "unat n - ooo_off fs > unat len"
  proof -
    have "\<not> n - ?k \<le> len" "n - ?k \<noteq> 0"
      using gt nk(1) [OF le] by (auto simp: word_nat)
    moreover from this have "unat (- (n - ?k)) = 2 ^ 32 - (unat n - ooo_off fs)"
      using unat_neg_pos [of "n - ?k"] nk(1) [OF le] by simp
    ultimately show ?thesis using fit lim n av
      by (intro tcp_trim_rxbuf_outside [of _ _ "n - ?k"])
         (auto simp: advance_def word_le_nat_alt [of "fs_rx_avail fs - n"])
  qed
qed

lemma advance_simps [simp]:
  "fs_rx_ooo_len (advance n fs) = fs_rx_ooo_len fs"
  "fs_rx_ooo_start (advance n fs) = fs_rx_ooo_start fs"
  "fs_rx_avail (advance n fs) = fs_rx_avail fs - n"
  "fs_rx_next_seq (advance n fs) = fs_rx_next_seq fs + n"
  "fs_rx_next_pos (advance n fs) = fs_rx_next_pos fs + n"
  by (simp_all add: advance_def)

text \<open>
  Merging after an advance by \<open>n\<close>: the total advance \<open>bump\<close> covers only the \<open>n\<close> bytes and the
  out-of-order bytes, and the rest of the state follows it.
\<close>

lemma flows_seg_merge_ooo_contract:
  assumes inv: "rcv_inv fs" and n: "unat n \<le> unat (fs_rx_avail fs)"
    and eq: "flows_seg_merge_ooo (advance n fs) n = (fs', bump)"
  shows "rcv_inv fs' \<and> bump \<le> fs_rx_avail fs \<and>
    fs_rx_avail fs' = fs_rx_avail fs - bump \<and> fs_rx_next_seq fs' = fs_rx_next_seq fs + bump \<and>
    fs_rx_next_pos fs' = fs_rx_next_pos fs + bump \<and>
    {..<unat bump} \<subseteq> {..<unat n} \<union> ooo_set fs \<and>
    (\<lambda>i. unat bump + i) ` ooo_set fs' \<subseteq> ooo_set fs"
proof (cases "fs_rx_ooo_len fs = 0")
  case True
  with eq n show ?thesis by (auto simp: flows_seg_merge_ooo_def rcv_inv_def word_nat)
next
  case False
  let ?len = "fs_rx_ooo_len fs"
  note trim = trim_after_advance [OF inv False n]
  have fit: "0 < ooo_off fs" "ooo_off fs + unat ?len \<le> unat (fs_rx_avail fs)" "0 < unat ?len"
    using inv False by (simp_all add: rcv_inv_def unat_gt_0)
  consider (ahead) "unat n < ooo_off fs"
    | (touch) "ooo_off fs \<le> unat n" "unat n - ooo_off fs \<le> unat ?len"
    | (past) "ooo_off fs \<le> unat n" "unat n - ooo_off fs > unat ?len"
    by linarith
  then show ?thesis
  proof cases
    case ahead
    have k: "unat (fs_rx_ooo_start fs - (fs_rx_next_seq fs + n)) = ooo_off fs - unat n"
      using ahead by (simp add: ooo_off_def diff_diff_eq [symmetric] unat_sub_exact word_nat)
    then have "fs_rx_ooo_start fs \<noteq> fs_rx_next_seq fs + n" using ahead by auto
    with eq False trim(1) [OF ahead] have "fs' = advance n fs" "bump = n"
      by (auto simp: flows_seg_merge_ooo_def)
    moreover have "unat (fs_rx_avail fs - n) = unat (fs_rx_avail fs) - unat n"
      using n by (intro unat_sub_exact) (simp add: word_nat)
    moreover have "ooo_off (advance n fs) = ooo_off fs - unat n"
      using k by (simp add: ooo_off_def)
    ultimately show ?thesis using ahead fit n
      by (auto simp: rcv_inv_def ooo_set_def word_nat)
  next
    case touch
    define m where "m = ?len - of_nat (unat n - ooo_off fs)"
    have m: "unat m = unat ?len - (unat n - ooo_off fs)"
      using touch(2) by (simp add: m_def unat_sub_exact word_nat unat_of_nat_small)
    have start: "fs_rx_ooo_start fs + of_nat (unat n - ooo_off fs) = fs_rx_next_seq fs + n"
      using touch(1) by (simp add: of_nat_diff ooo_off_def)
    have nm: "unat (n + m) = unat n + unat m"
      using m fit touch by (intro unat_add_le [of _ _ "fs_rx_avail fs"]) linarith
    have "fs_rx_ooo_len fs' = 0 \<and> fs_rx_avail fs' = fs_rx_avail fs - (n + m) \<and>
      fs_rx_next_seq fs' = fs_rx_next_seq fs + (n + m) \<and>
      fs_rx_next_pos fs' = fs_rx_next_pos fs + (n + m) \<and> bump = n + m"
      using eq False trim(2) [OF touch] start
      by (cases "m = 0") (auto simp: flows_seg_merge_ooo_def Let_def word_neq_0_conv simp flip: m_def)
    then show ?thesis using nm m fit touch n
      by (auto simp: rcv_inv_def ooo_set_def word_nat)
  next
    case past
    with eq False trim(3) have "fs' = (advance n fs)\<lparr>fs_rx_ooo_len := 0\<rparr>" "bump = n"
      by (auto simp: flows_seg_merge_ooo_def)
    then show ?thesis using n by (auto simp: rcv_inv_def ooo_set_def word_nat)
  qed
qed

subsection \<open>The data segment handler\<close>

text \<open>
  Where the payload goes: byte \<open>dma_offset + i\<close> of the segment is written at the buffer position
  of its sequence number, and only bytes of the segment are written.
\<close>

definition dma_placed :: "work_t \<Rightarrow> pkt_summary_t \<Rightarrow> flowst_tcp_t \<Rightarrow> u32 \<Rightarrow> work_result_t \<Rightarrow> bool" where
  "dma_placed w p fs flags r \<longleftrightarrow>
     (has_flag flags WORK_RESULT_DMA_PAYLOAD \<longrightarrow>
        res_dma_pos r - fs_rx_next_pos fs = (pkt_seq p + res_dma_offset r) - fs_rx_next_seq fs \<and>
        0 < unat (res_dma_len r) \<and>
        unat (res_dma_offset r) + unat (res_dma_len r) \<le> unat (io_plen w))"

text \<open>The next expected sequence number follows the delivered bytes, plus one for a FIN.\<close>

definition seq_follows :: "pkt_summary_t \<Rightarrow> flowst_tcp_t \<Rightarrow> flowst_tcp_t \<Rightarrow> u32 \<Rightarrow> bool" where
  "seq_follows p fs fs' bump \<longleftrightarrow>
     fs_flags fs' = fs_flags fs \<and> fs_rx_next_seq fs' = fs_rx_next_seq fs + bump \<or>
     has_flag (pkt_flags p) NET_TCP_FLAG_FIN \<and> \<not> has_flag (fs_flags fs) FLEXNIC_PL_FLOWST_RXFIN \<and>
     fs_flags fs' = fs_flags fs OR FLEXNIC_PL_FLOWST_RXFIN \<and> fs_rx_ooo_len fs' = 0 \<and>
     fs_rx_next_seq fs' = fs_rx_next_seq fs + bump + 1"

lemma flows_seg_ooo_placed:
  assumes "flows_seg_ooo (pkt_seq p) n 0 fs fl r = (fs', fl', r')"
    and "unat n \<le> unat (io_plen w)" and "\<not> has_flag fl WORK_RESULT_DMA_PAYLOAD"
  shows "dma_placed w p fs fl' r' \<and> seq_follows p fs fs' 0"
proof -
  have "unat n < 2 ^ 16" using assms(2) io_plen_bound [of w] by simp
  then show ?thesis using assms
    by (auto simp: flows_seg_ooo_def dma_placed_def seq_follows_def Let_def res_dma_len_set
        res_dma_offset_set unat_gt_0 split: if_splits)
qed

lemma flows_seg_merge_ooo_flags:
  "flows_seg_merge_ooo fs b = (fs', x) \<Longrightarrow> fs_flags fs' = fs_flags fs"
  by (auto simp: flows_seg_merge_ooo_def Let_def split: if_splits option.splits)

lemma flows_seg_payload_contract:
  assumes inv: "rcv_inv fs" and n: "unat n \<le> unat (fs_rx_avail fs)"
    and plen: "unat ts + unat n \<le> unat (io_plen w)" and seq: "pkt_seq p + ts = fs_rx_next_seq fs"
    and nodma: "\<not> has_flag fl WORK_RESULT_DMA_PAYLOAD"
    and eq: "flows_seg_payload n ts fs fl r = (fs', bump, fl', r')"
  shows "rcv_contract fs fs' bump fl' r' \<and> dma_placed w p fs fl' r' \<and>
    fs_flags fs' = fs_flags fs \<and> fs_rx_next_seq fs' = fs_rx_next_seq fs + bump"
proof (cases "n = 0")
  case True
  with eq nodma rcv_contract_idle [OF inv refl nodma] show ?thesis
    by (simp add: flows_seg_payload_def dma_placed_def)
next
  case False
  obtain fs2 b where m: "flows_seg_merge_ooo (advance n fs) n = (fs2, b)"
    by (cases "flows_seg_merge_ooo (advance n fs) n")
  have out: "fs' = fs2" "bump = b" "fl' = fl OR (WORK_RESULT_DMA_PAYLOAD OR WORK_RESULT_DMA_ACDESC)"
    "r' = WORK_DMA_OFFSET_LEN_SET n ts (r\<lparr>res_dma_pos := fs_rx_next_pos fs\<rparr>)"
    using eq False m by (auto simp: flows_seg_payload_def Let_def advance_def split: prod.splits)
  have small: "unat n < 2 ^ 16" "unat ts < 2 ^ 16" using plen io_plen_bound [of w] by auto
  have "dma_set fs fl' r' = {..<unat n}"
    using small by (auto simp: out dma_set_def res_dma_len_set)
  with flows_seg_merge_ooo_contract [OF inv n m] n have "rcv_contract fs fs' bump fl' r'"
    by (auto simp: rcv_contract_def out)
  moreover have "dma_placed w p fs fl' r'"
    using small plen seq False
    by (simp add: out dma_placed_def res_dma_len_set res_dma_offset_set unat_gt_0)
  ultimately show ?thesis
    using flows_seg_merge_ooo_contract [OF inv n m] flows_seg_merge_ooo_flags [OF m]
    by (simp add: out advance_def)
qed

lemma rcv_contract_cong:
  assumes "rx_fields fs0 = rx_fields fs"
  shows "rcv_contract fs0 = rcv_contract fs" "dma_placed w p fs0 = dma_placed w p fs"
  using assms rcv_cong [OF assms]
  by (auto simp: rcv_contract_def dma_placed_def dma_set_def rx_fields_def fun_eq_iff)

text \<open>The FIN step keeps what the payload step established.\<close>

lemma flows_seg_fin_contract:
  assumes "rcv_contract fs fs2 bump fl r" and "fs_flags fs2 = fs_flags fs"
    and "fs_rx_next_seq fs2 = fs_rx_next_seq fs + bump"
    and "flows_seg_fin p op (fs_flags fs) fs2 fl = (fs3, fl3)"
  shows "rcv_contract fs fs3 bump fl3 r \<and> seq_follows p fs fs3 bump \<and>
    has_flag fl3 WORK_RESULT_DMA_PAYLOAD = has_flag fl WORK_RESULT_DMA_PAYLOAD"
  using assms
  by (auto simp: flows_seg_fin_def rcv_contract_def seq_follows_def rcv_inv_def dma_set_def
      split: if_splits)

lemma flows_seg_inorder_contract:
  assumes inv: "rcv_inv fs" and n: "unat n \<le> unat (fs_rx_avail fs)"
    and plen: "unat ts + unat n \<le> unat (io_plen w)" and seq: "pkt_seq p + ts = fs_rx_next_seq fs"
    and nodma: "\<not> has_flag fl WORK_RESULT_DMA_PAYLOAD"
    and eq: "flows_seg_inorder p op n ts fs fl r = (fs', bump, fl', r')"
  shows "rcv_contract fs fs' bump fl' r' \<and> dma_placed w p fs fl' r' \<and> seq_follows p fs fs' bump"
proof -
  define fs1 where
    "fs1 = fs\<lparr>fs_tx_next_ts := pkt_ts_val p, fs_tx_remote_avail := ucast (pkt_win p)\<rparr>"
  have cong: "rx_fields fs1 = rx_fields fs" "fs_flags fs1 = fs_flags fs"
    "fs_rx_next_seq fs1 = fs_rx_next_seq fs" "fs_rx_avail fs1 = fs_rx_avail fs"
    by (simp_all add: fs1_def rx_fields_def)
  show ?thesis
  proof (cases "has_flag (fs_flags fs) FLEXNIC_PL_FLOWST_RXFIN \<and> n \<noteq> 0")
    case True
    with eq have "fs' = fs1" "bump = 0" "fl' = fl" "r' = r"
      by (auto simp: flows_seg_inorder_def Let_def fs1_def)
    with inv nodma cong show ?thesis
      by (simp add: rcv_contract_idle dma_placed_def seq_follows_def)
  next
    case False
    obtain fs2 b fl2 r2 where p2: "flows_seg_payload n ts fs1 fl r = (fs2, b, fl2, r2)"
      by (cases "flows_seg_payload n ts fs1 fl r")
    obtain fs3 fl3 where p3: "flows_seg_fin p op (fs_flags fs1) fs2 fl2 = (fs3, fl3)"
      by (cases "flows_seg_fin p op (fs_flags fs1) fs2 fl2")
    have out: "fs' = fs3" "bump = b" "fl' = fl3" "r' = r2"
      using eq False p2 p3 unfolding flows_seg_inorder_def Let_def fs1_def [symmetric] cong(2)
      by simp_all
    have "rcv_inv fs1" using inv rcv_cong(3) [OF cong(1)] by simp
    from flows_seg_payload_contract [OF this _ plen _ nodma p2, of p] n seq cong
    have c: "rcv_contract fs1 fs2 b fl2 r2 \<and> dma_placed w p fs1 fl2 r2 \<and>
      fs_flags fs2 = fs_flags fs1 \<and> fs_rx_next_seq fs2 = fs_rx_next_seq fs1 + b" by simp
    with flows_seg_fin_contract [OF _ _ _ p3] have
      "rcv_contract fs1 fs3 b fl3 r2 \<and> seq_follows p fs1 fs3 b \<and>
       has_flag fl3 WORK_RESULT_DMA_PAYLOAD = has_flag fl2 WORK_RESULT_DMA_PAYLOAD" by blast
    with c cong rcv_contract_cong [OF cong(1)] show ?thesis
      by (auto simp: out dma_placed_def seq_follows_def)
  qed
qed

lemma flows_seg_process_contract:
  assumes inv: "rcv_inv fs" and eq: "flows_seg_process w p fs r = (fs', rb, tb, fl, r')"
  shows "rcv_contract fs fs' rb fl r' \<and> dma_placed w p fs fl r' \<and> seq_follows p fs fs' rb"
proof (cases "tcp_trim_rxbuf fs (pkt_seq p) (io_plen w)")
  case None
  with eq inv show ?thesis
    by (simp add: flows_seg_process_def rcv_contract_idle dma_placed_def seq_follows_def)
next
  case (Some t)
  obtain ts te where t: "t = (ts, te)" by (cases t)
  define n where "n = io_plen w - (ts + te)"
  obtain fs1 b fl1 where ack: "seg_ack p fs WORK_RESULT_TX = (fs1, b, fl1)"
    by (cases "seg_ack p fs WORK_RESULT_TX")
  note rx = seg_ack_rx [OF ack] seg_ack_dma [OF ack]
  then have cong: "rx_fields fs1 = rx_fields fs" "fs_rx_next_seq fs1 = fs_rx_next_seq fs"
    "fs_rx_avail fs1 = fs_rx_avail fs" "fs_flags fs1 = fs_flags fs"
    "\<not> has_flag fl1 WORK_RESULT_DMA_PAYLOAD"
    by (auto simp: rx_fields_def)
  have inv1: "rcv_inv fs1" using inv rcv_cong(3) [OF cong(1)] by simp
  note trim = tcp_trim_rxbuf_Some [OF Some [unfolded t], folded n_def]
  have "rcv_contract fs1 fs' rb fl r' \<and> dma_placed w p fs1 fl r' \<and> seq_follows p fs1 fs' rb"
  proof (cases "pkt_seq p + ts = fs_rx_next_seq fs")
    case True
    from True trim have n: "unat n \<le> unat (fs_rx_avail fs1)" "unat ts + unat n \<le> unat (io_plen w)"
      by (auto simp: cong)
    from eq Some t ack True have
      "flows_seg_inorder p (io_plen w) n ts fs1 fl1 r = (fs', rb, fl, r')"
      by (auto simp: flows_seg_process_def Let_def cong n_def split: prod.splits)
    from flows_seg_inorder_contract [OF inv1 n _ cong(5) this] True show ?thesis
      by (simp add: cong)
  next
    case False
    with trim have n: "ts = 0" "pkt_seq p \<noteq> fs_rx_next_seq fs1"
      "unat (pkt_seq p - fs_rx_next_seq fs1) + unat n \<le> unat (fs_rx_avail fs1)"
      "unat n \<le> unat (io_plen w)" by (auto simp: cong)
    from eq Some t ack False n(1) have
      o: "flows_seg_ooo (pkt_seq p) n 0 fs1 fl1 r = (fs', fl, r')" and "rb = 0"
      by (auto simp: flows_seg_process_def Let_def cong n_def split: prod.splits)
    have "unat n < 2 ^ 16" using n(4) io_plen_bound [of w] by simp
    from flows_seg_ooo_contract [OF inv1 n(2,3) this _ cong(5) o]
      flows_seg_ooo_placed [OF o n(4) cong(5)] \<open>rb = 0\<close> show ?thesis by simp
  qed
  then show ?thesis using rcv_contract_cong [OF cong(1)] cong by (auto simp: seq_follows_def)
qed

lemma flows_seg_result:
  assumes "flows_seg_process w p fs (r\<lparr>res_work := w\<rparr>) = (fs', rb, tb, fl, r')"
  defines "R \<equiv> snd (flows_seg w p fs r)"
  shows "fst (flows_seg w p fs r) = fs'" "res_ac_rx_bump R = rb" "res_dma_pos R = res_dma_pos r'"
    "res_dma_raw R = res_dma_raw r'"
    "has_flag (res_flags R) WORK_RESULT_DMA_PAYLOAD = has_flag fl WORK_RESULT_DMA_PAYLOAD"
  using assms by (simp_all add: flows_seg_def Let_def)

lemma flows_seg_contract:
  assumes "rcv_inv fs" and "flows_seg w p fs r = (fs', r')"
  shows "rcv_contract fs fs' (res_ac_rx_bump r') (res_flags r') r' \<and>
    dma_placed w p fs (res_flags r') r' \<and> seq_follows p fs fs' (res_ac_rx_bump r')"
proof -
  obtain fs1 rb tb fl r1 where eq: "flows_seg_process w p fs (r\<lparr>res_work := w\<rparr>) = (fs1, rb, tb, fl, r1)"
    by (cases "flows_seg_process w p fs (r\<lparr>res_work := w\<rparr>)")
  note res = flows_seg_result [OF eq, unfolded assms(2) fst_conv snd_conv]
  have len: "res_dma_len r' = res_dma_len r1" "res_dma_offset r' = res_dma_offset r1"
    using res by (simp_all add: res_dma_len_def res_dma_offset_def)
  have "dma_set fs (res_flags r') r' = dma_set fs fl r1"
    "dma_placed w p fs (res_flags r') r' = dma_placed w p fs fl r1"
    by (simp_all only: dma_set_def dma_placed_def res len)
  with flows_seg_process_contract [OF assms(1) eq] show ?thesis
    unfolding rcv_contract_def by (simp only: res)
qed

text \<open>
  C3. The data segment handler. In a state whose out-of-order interval lies in the free space, for
  any segment whatever its sequence number, length and flags: the payload DMA it asks for writes
  only free space of the receive buffer, only bytes of the segment, each at the position of its
  sequence number; the free space shrinks and the buffer position and sequence number grow by
  exactly the bytes reported to the application (a FIN takes one more sequence number); every
  byte reported, and every byte kept out of order, was kept before or is written now.
\<close>

theorem flows_seg_receives:
  assumes "rcv_inv fs" and "flows_seg w p fs r = (fs', r')"
  shows "rcv_contract fs fs' (res_ac_rx_bump r') (res_flags r') r' \<and>
    dma_placed w p fs (res_flags r') r' \<and> seq_follows p fs fs' (res_ac_rx_bump r')"
  by (rule flows_seg_contract [OF assms])

theorem flows_seg_receives_witness:
  "rcv_inv sample_fs \<and>
   rcv_contract sample_fs (fst (flows_seg work_rx100 sample_pkt sample_fs sample_result))
     (res_ac_rx_bump (snd (flows_seg work_rx100 sample_pkt sample_fs sample_result)))
     (res_flags (snd (flows_seg work_rx100 sample_pkt sample_fs sample_result)))
     (snd (flows_seg work_rx100 sample_pkt sample_fs sample_result))"
proof -
  let ?t = "flows_seg work_rx100 sample_pkt sample_fs sample_result"
  have 1: "rcv_inv sample_fs" by (simp add: rcv_inv_def sample_fs_def)
  have 2: "?t = (fst ?t, snd ?t)" by simp
  show ?thesis using 1 flows_seg_receives [OF 1 2] by blast
qed

subsection \<open>All handlers\<close>

lemma flows_tx_rx_fields: "rx_fields (fst (flows_tx w fs r)) = rx_fields fs"
  by (simp add: flows_tx_def rx_fields_def Let_def)

lemma flows_reset_rx_fields [simp]: "rx_fields (flows_reset_retransmit fs) = rx_fields fs"
  by (simp add: flows_reset_retransmit_def rx_fields_def Let_def)

lemma flows_retx_rx_fields: "rx_fields (fst (flows_retx w fs r)) = rx_fields fs"
  by (simp add: flows_retx_def Let_def)

lemma flows_ac_rcv_inv:
  assumes "rcv_inv fs" and "unat (fs_rx_avail fs) + unat (ac_rx_bump w) < 2 ^ 32"
  shows "rcv_inv (fst (flows_ac w fs r))"
  using assms unat_add_exact [OF assms(2)]
  by (auto simp: flows_ac_def rcv_inv_def ooo_off_def Let_def split: prod.split)

lemma flows_ack_inorder_rcv_inv: "rcv_inv fs \<Longrightarrow> rcv_inv (fst (flows_ack_inorder p fs fl))"
  by (auto simp: flows_ack_inorder_def rcv_inv_def ooo_off_def Let_def)

lemma flows_ack_rcv_inv: "rcv_inv fs \<Longrightarrow> rcv_inv (fst (flows_ack w p fs r))"
  using flows_ack_inorder_rcv_inv rcv_cong(3) [OF flows_rx_ack_rx(1)]
    rcv_cong(3) [OF flows_reset_rx_fields] rcv_cong(3) [of "fs\<lparr>fs_dupack_cnt := c\<rparr>" fs for c]
  by (auto simp: flows_ack_fs flows_ack_process_def Let_def rx_fields_def split_beta
      split: option.split)

text \<open>The environment: an application never frees more than the counter can hold.\<close>

definition rcv_ok :: "work_t \<times> pkt_summary_t \<Rightarrow> proc_state \<Rightarrow> bool" where
  "rcv_ok ev s \<longleftrightarrow> (work_type (fst ev) = WORK_TYPE_AC \<longrightarrow>
     unat (fs_rx_avail (ps_fs s)) + unat (ac_rx_bump (fst ev)) < 2 ^ 32)"

lemma process_switch_rcv_inv:
  assumes inv: "rcv_inv (ps_fs s)" and ok: "rcv_ok ev s"
  shows "rcv_inv (ps_fs (process_switch ev s))"
proof -
  obtain w p where ev: "ev = (w, p)" by (cases ev)
  have seg: "rcv_inv (fst (flows_seg w' p (ps_fs s) (ps_result s)))" for w'
    using flows_seg_contract [OF inv, of w' p "ps_result s"]
    by (cases "flows_seg w' p (ps_fs s) (ps_result s)") (auto simp: rcv_contract_def)
  show ?thesis
  proof (cases rule: work_type_cases [of w])
    case 1
    then show ?thesis using seg flows_ack_rcv_inv [OF inv] by (simp add: ev process_switch_fs)
  next
    case 2
    then show ?thesis using inv rcv_cong(3) [OF flows_tx_rx_fields]
      by (simp add: ev process_switch_fs)
  next
    case 3
    then show ?thesis using ok flows_ac_rcv_inv [OF inv] by (simp add: ev process_switch_fs rcv_ok_def)
  next
    case 4
    then show ?thesis using inv rcv_cong(3) [OF flows_retx_rx_fields]
      by (simp add: ev process_switch_fs)
  qed
qed

interpretation rcv_sys: invariant_system process_switch rcv_ok "\<lambda>s. rcv_inv (ps_fs s)"
  by unfold_locales (rule process_switch_rcv_inv)

end
