(* ===== verification/Dma.thy ===== *)
theory Dma
  imports Flow_State
begin

unbundle bit_operations_syntax

text \<open>
  The DMA stage: the command a postprocessing thread hands to a DMA thread
  (\<open>struct dma_pkt_cmd_t\<close> of \<open>firmware/dma.h\<close>), its translation to PCIe DMA descriptors
  (\<open>issue_pkt_dma\<close>, \<open>issue_pkt_dma_2\<close>), and the loops of \<open>dma_rx.c\<close>, \<open>dma_tx.c\<close> and \<open>dma_rxtx.c\<close>
  that keep several DMAs in flight and forward their packets in order.

  The words \<open>word1\<close> and \<open>word3\<close> (configuration index, token, originating thread) and the signal
  number are arguments, as in the code.
\<close>

subsection \<open>Commands and descriptors\<close>

record dma_pkt_cmd_t =
  cmd_raw0 :: u32
  cmd_raw1 :: u32
  cmd_raw2 :: u32
  param1 :: u32
  param2 :: u32
  param3 :: u32
  param4 :: u32
  cmd_raw7 :: u32

definition cmd_isl :: "dma_pkt_cmd_t \<Rightarrow> u32" where "cmd_isl c = bf_get 26 2 (cmd_raw0 c)"
definition cmd_flags :: "dma_pkt_cmd_t \<Rightarrow> u32" where "cmd_flags c = bf_get 0 11 (cmd_raw7 c)"
definition cmd_db_id :: "dma_pkt_cmd_t \<Rightarrow> u32" where "cmd_db_id c = bf_get 11 5 (cmd_raw7 c)"
definition cmd_desc_idx :: "dma_pkt_cmd_t \<Rightarrow> u32" where "cmd_desc_idx c = bf_get 16 16 (cmd_raw7 c)"
definition cmd_plen :: "dma_pkt_cmd_t \<Rightarrow> u32" where "cmd_plen c = bf_get 0 11 (cmd_raw2 c)"

definition cmd_set_plen :: "u32 \<Rightarrow> dma_pkt_cmd_t \<Rightarrow> dma_pkt_cmd_t" where
  "cmd_set_plen v c = c\<lparr>cmd_raw2 := bf_set 0 11 v (cmd_raw2 c)\<rparr>"
definition cmd_set_desc_idx :: "u32 \<Rightarrow> dma_pkt_cmd_t \<Rightarrow> dma_pkt_cmd_t" where
  "cmd_set_desc_idx v c = c\<lparr>cmd_raw7 := bf_set 16 16 v (cmd_raw7 c)\<rparr>"
definition cmd_set_db_id :: "u32 \<Rightarrow> dma_pkt_cmd_t \<Rightarrow> dma_pkt_cmd_t" where
  "cmd_set_db_id v c = c\<lparr>cmd_raw7 := bf_set 11 5 v (cmd_raw7 c)\<rparr>"
definition cmd_set_flags :: "u32 \<Rightarrow> dma_pkt_cmd_t \<Rightarrow> dma_pkt_cmd_t" where
  "cmd_set_flags v c = c\<lparr>cmd_raw7 := bf_set 0 11 v (cmd_raw7 c)\<rparr>"

lemmas cmd_field_defs = cmd_isl_def cmd_flags_def cmd_db_id_def cmd_desc_idx_def cmd_plen_def
  cmd_set_plen_def cmd_set_desc_idx_def cmd_set_db_id_def cmd_set_flags_def

record nfp_pcie_dma_cmd =
  pcie_raw0 :: u32
  pcie_raw1 :: u32
  pcie_raw2 :: u32
  pcie_raw3 :: u32

definition NFP_PCIE_DMA_CMD_LENGTH :: "u32 \<Rightarrow> u32" where
  "NFP_PCIE_DMA_CMD_LENGTH x = push_bit 20 (x AND 0xFFF)"
definition NFP_PCIE_DMA_CMD_PCIE_ADDR_HI :: "u32 \<Rightarrow> u32" where
  "NFP_PCIE_DMA_CMD_PCIE_ADDR_HI x = x AND 0xFF"
definition NFP_PCIE_DMA_CMD_CPP_ADDR_HI :: "u32 \<Rightarrow> u32" where
  "NFP_PCIE_DMA_CMD_CPP_ADDR_HI x = x AND 0xFF"
definition NFP_PCIE_DMA_CMD_DMA_MODE :: "u32 \<Rightarrow> u32" where
  "NFP_PCIE_DMA_CMD_DMA_MODE x = push_bit 14 (x AND 0xFFFF)"

text \<open>
  The constant words of the descriptors, from the reservations in \<open>dma.h\<close>: configuration index
  and token, thread and engine in word 1; requester and traffic class, both 0, in word 3.
\<close>

definition DMA_CMD_WORD1 :: "u32 \<Rightarrow> u32 \<Rightarrow> u32 \<Rightarrow> u32 \<Rightarrow> u32" where
  "DMA_CMD_WORD1 cfg token ctx meid =
     push_bit 8 (cfg AND 0xF) OR push_bit 12 (token AND 3) OR
     push_bit 14 (push_bit 4 (ctx AND 7) OR push_bit 7 (drop_bit 4 meid AND 0x3F) OR
       push_bit 13 (meid AND 0xF))"

definition DMA_CMD_WORD1_NOSIG :: "u32 \<Rightarrow> u32 \<Rightarrow> u32" where
  "DMA_CMD_WORD1_NOSIG cfg token = push_bit 8 (cfg AND 0xF) OR push_bit 12 (token AND 3)"

definition DMA_CMD_WORD3 :: "u32 \<Rightarrow> u32 \<Rightarrow> u32" where
  "DMA_CMD_WORD3 rid tran_class = push_bit 12 (rid AND 0xFF) OR push_bit 8 (tran_class AND 7)"

text \<open>
  \<open>issue_pkt_dma\<close>: the descriptors put in the PCIe queue, and whether the completion signal is
  raised at once because there is nothing to transfer.
\<close>

definition issue_pkt_dma ::
  "dma_pkt_cmd_t \<Rightarrow> u32 \<Rightarrow> u32 \<Rightarrow> u32 \<Rightarrow> nfp_pcie_dma_cmd list \<times> bool" where
  "issue_pkt_dma cmd word1 word3 signo =
     (if \<not> has_flag (cmd_flags cmd) WORK_RESULT_DMA_PAYLOAD then ([], True)
      else ([\<lparr>pcie_raw0 = param1 cmd,
              pcie_raw1 = word1 OR NFP_PCIE_DMA_CMD_DMA_MODE signo OR param2 cmd,
              pcie_raw2 = param3 cmd,
              pcie_raw3 = word3 OR param4 cmd\<rparr>], False))"

definition issue_pkt_dma_2 ::
  "dma_pkt_cmd_t \<Rightarrow> u32 \<Rightarrow> u32 \<Rightarrow> u32 \<Rightarrow> u32 \<Rightarrow> nfp_pcie_dma_cmd list \<times> bool" where
  "issue_pkt_dma_2 cmd word1 word1_nosig word3 signo =
     (if \<not> has_flag (cmd_flags cmd) WORK_RESULT_DMA_PAYLOAD then ([], True)
      else
        let isl = cmd_isl cmd + 32;
            pkt_addr_hi = 0x80 OR isl;
            len1 = drop_bit 20 (param4 cmd) + 1;
            len2 = drop_bit 8 (param4 cmd) AND 0xFFF
        in ([\<lparr>pcie_raw0 = param1 cmd,
              pcie_raw1 = word1_nosig OR pkt_addr_hi,
              pcie_raw2 = param3 cmd + param2 cmd,
              pcie_raw3 = (param4 cmd AND 0xFFF000FF) OR word3\<rparr>,
             \<lparr>pcie_raw0 = param1 cmd + len1,
              pcie_raw1 = word1 OR NFP_PCIE_DMA_CMD_DMA_MODE signo OR pkt_addr_hi,
              pcie_raw2 = param3 cmd,
              pcie_raw3 = word3 OR NFP_PCIE_DMA_CMD_LENGTH (len2 - 1)
                OR NFP_PCIE_DMA_CMD_PCIE_ADDR_HI (param4 cmd)\<rparr>], False))"

subsection \<open>What a descriptor does\<close>

text \<open>
  The layout of a descriptor as \<open>dma.h\<close> and \<open>nfp_pcie.h\<close> give it: a 40-bit address on the card,
  a 40-bit address on the host, and the length less one. A DMA copies bytes between them.
\<close>

definition desc_cpp_addr :: "nfp_pcie_dma_cmd \<Rightarrow> nat" where
  "desc_cpp_addr d = unat (bf_get 0 8 (pcie_raw1 d)) * 2 ^ 32 + unat (pcie_raw0 d)"

definition desc_pcie_addr :: "nfp_pcie_dma_cmd \<Rightarrow> nat" where
  "desc_pcie_addr d = unat (bf_get 0 8 (pcie_raw3 d)) * 2 ^ 32 + unat (pcie_raw2 d)"

definition desc_len :: "nfp_pcie_dma_cmd \<Rightarrow> nat" where
  "desc_len d = unat (bf_get 20 12 (pcie_raw3 d)) + 1"

definition copy_bytes :: "(nat \<Rightarrow> 'b) \<Rightarrow> nat \<Rightarrow> nat \<Rightarrow> nat \<Rightarrow> (nat \<Rightarrow> 'b) \<Rightarrow> nat \<Rightarrow> 'b" where
  "copy_bytes src from to n dst a = (if to \<le> a \<and> a < to + n then src (from + (a - to)) else dst a)"

text \<open>Transfers to the host, in the order they were queued.\<close>

fun dma_to_host :: "(nat \<Rightarrow> 'b) \<Rightarrow> nfp_pcie_dma_cmd list \<Rightarrow> (nat \<Rightarrow> 'b) \<Rightarrow> nat \<Rightarrow> 'b" where
  "dma_to_host ctm [] host = host"
| "dma_to_host ctm (d # ds) host =
     dma_to_host ctm ds (copy_bytes ctm (desc_cpp_addr d) (desc_pcie_addr d) (desc_len d) host)"

fun dma_from_host :: "(nat \<Rightarrow> 'b) \<Rightarrow> nfp_pcie_dma_cmd list \<Rightarrow> (nat \<Rightarrow> 'b) \<Rightarrow> nat \<Rightarrow> 'b" where
  "dma_from_host host [] ctm = ctm"
| "dma_from_host host (d # ds) ctm =
     dma_from_host host ds (copy_bytes host (desc_pcie_addr d) (desc_cpp_addr d) (desc_len d) ctm)"

lemma word1_addr [simp]:
  "bf_get 0 8 (DMA_CMD_WORD1 cfg token ctx meid) = 0"
  "bf_get 0 8 (DMA_CMD_WORD1_NOSIG cfg token) = 0"
  "bf_get 0 8 (NFP_PCIE_DMA_CMD_DMA_MODE signo) = 0"
  by (simp_all add: DMA_CMD_WORD1_def DMA_CMD_WORD1_NOSIG_def NFP_PCIE_DMA_CMD_DMA_MODE_def
      bf_get_or bf_get_and bf_get_push_above)

lemma word3_fields [simp]:
  "bf_get 0 8 (DMA_CMD_WORD3 rid tc) = 0"
  "bf_get 20 12 (DMA_CMD_WORD3 rid tc) = 0"
  by (simp_all add: DMA_CMD_WORD3_def bf_get_or bf_get_and bf_get_push_above)
     (simp add: bf_get_def)

end
