(* ===== verification/Postprocess.thy ===== *)
theory Postprocess
  imports Dma
begin

unbundle bit_operations_syntax

text \<open>
  The postprocessing stage, \<open>firmware/postprocess.c\<close>: it turns the result of the protocol stage
  into a TCP header for the packet buffer, statistics for congestion control, a bump for the
  queue manager, a descriptor for the application and a DMA command for the payload.

  The state holds what the stage reads and writes: the congestion-control block of each flow, the
  queue-manager credits, the buffer descriptions of the flows in memory and in the local cache
  (16 entries under the CAM), and the free application descriptors. What it sends to other stages
  and to the packet hardware is a list of outputs. Time stamps, and the entry the CAM offers for
  replacement, are arguments.
\<close>

record flowst_mem_t =
  mem_db_id :: u16
  mem_opaque_hi :: u16
  mem_opaque_lo :: u32
  mem_rx_base :: u64
  mem_tx_base :: u64
  mem_rx_len :: u32
  mem_tx_len :: u32

record flowst_cc_t =
  cc_tx_avail :: u32
  cc_tx_rate :: u32
  cc_rtt_est :: u32
  cc_txp :: u32
  cc_cnt_tx_drops :: u32
  cc_cnt_rx_acks :: u32
  cc_cnt_rx_ack_bytes :: u32
  cc_cnt_rx_ecn_bytes :: u32

record flextcp_pl_arx_t =
  arx_opaque :: u64
  arx_rx_bump :: u32
  arx_tx_bump :: u32
  arx_flags :: u32
  arx_type :: u32

definition FLEXTCP_PL_ARX_CONNUPDATE :: u32 where "FLEXTCP_PL_ARX_CONNUPDATE = 1"
definition FLEXTCP_PL_ARX_FLRXDONE :: u32 where "FLEXTCP_PL_ARX_FLRXDONE = 2"

datatype pp_out =
    Pkt_Write u32 u32 u32 "u32 list"
  | Qm_Sched u32 u32
  | Qm_Bump u32
  | Atx_Free u32
  | Nbi_Send u32 u32 u32 u32 u32 u32 u32
  | Nbi_Drop u32 u32 u32 u32 u32 u32 u32
  | Blm_Free u32 u32
  | Ctm_Free u32 u32
  | Arx_Write u32 flextcp_pl_arx_t
  | Arx_Work u32
  | Dma_Rx dma_pkt_cmd_t
  | Dma_Rx_Excep dma_pkt_cmd_t
  | Dma_Tx dma_pkt_cmd_t
  | Dma_Tx_Excep dma_pkt_cmd_t

record pp_state =
  flows_cc_info :: "u32 \<Rightarrow> flowst_cc_t"
  flows_mem_info :: "u32 \<Rightarrow> flowst_mem_t"
  mem_tag :: "nat \<Rightarrow> u32"
  mem_cache :: "nat \<Rightarrow> flowst_mem_t"
  qm_credits :: u32
  arx_desc_ring :: "u32 list"
  flow_grp_mask :: u32
  pp_outs :: "pp_out list"

definition emit :: "pp_out \<Rightarrow> pp_state \<Rightarrow> pp_state" where
  "emit m s = s\<lparr>pp_outs := pp_outs s @ [m]\<rparr>"

definition upd_cc :: "u32 \<Rightarrow> (flowst_cc_t \<Rightarrow> flowst_cc_t) \<Rightarrow> pp_state \<Rightarrow> pp_state" where
  "upd_cc flow_id f s = s\<lparr>flows_cc_info := (flows_cc_info s)(flow_id := f (flows_cc_info s flow_id))\<rparr>"

subsection \<open>The cache of buffer descriptions\<close>

definition FLOW_MEM_CACHE_SIZE :: nat where "FLOW_MEM_CACHE_SIZE = 16"

definition reset_cache :: "pp_state \<Rightarrow> pp_state" where
  "reset_cache s = s\<lparr>mem_tag := (\<lambda>i. if i < FLOW_MEM_CACHE_SIZE then 0xFFFFFFFF - of_nat i else mem_tag s i)\<rparr>"

definition mem_cam_lookup :: "u32 \<Rightarrow> nat \<Rightarrow> pp_state \<Rightarrow> bool \<times> nat" where
  "mem_cam_lookup flow_id lru s =
     (case List.find (\<lambda>i. mem_tag s i = flow_id) [0..<FLOW_MEM_CACHE_SIZE] of
        Some i \<Rightarrow> (True, i)
      | None \<Rightarrow> (False, lru))"

definition handle_mem_cache_miss :: "u32 \<Rightarrow> nat \<Rightarrow> pp_state \<Rightarrow> nat \<times> pp_state" where
  "handle_mem_cache_miss flow_id lru s =
     (let mem_info = flows_mem_info s flow_id;
          (hit, entry_num) = mem_cam_lookup flow_id lru s
      in if hit then (entry_num, s)
         else (entry_num, s\<lparr>mem_tag := (mem_tag s)(entry_num := flow_id),
                            mem_cache := (mem_cache s)(entry_num := mem_info)\<rparr>))"

definition fetch_mem_info :: "u32 \<Rightarrow> nat \<Rightarrow> pp_state \<Rightarrow> nat \<times> pp_state" where
  "fetch_mem_info flow_id lru s =
     (let (hit, entry_num) = mem_cam_lookup flow_id lru s
      in if hit then (entry_num, s) else handle_mem_cache_miss flow_id lru s)"

subsection \<open>Headers\<close>

definition PKT_NBI_OFFSET :: u32 where "PKT_NBI_OFFSET = 64"
definition MAC_PREPEND_BYTES :: u32 where "MAC_PREPEND_BYTES = 8"
definition NET_ETH_LEN :: u32 where "NET_ETH_LEN = 14"
definition NET_IP4_LEN :: u32 where "NET_IP4_LEN = 20"
definition NET_TCPPADTS_LEN :: u32 where "NET_TCPPADTS_LEN = 32"
definition NET_HDR_LEN :: u32 where "NET_HDR_LEN = 66"
definition PKT_TCP_OPT_RAW0 :: u32 where "PKT_TCP_OPT_RAW0 = 0x0101080A"

definition HDR_FLAG_FIN :: u32 where "HDR_FLAG_FIN = 1"
definition HDR_FLAG_PSH :: u32 where "HDR_FLAG_PSH = 8"
definition HDR_FLAG_ACK :: u32 where "HDR_FLAG_ACK = 16"
definition HDR_FLAG_ECE :: u32 where "HDR_FLAG_ECE = 64"

definition tcp_hdr_words :: "work_result_t \<Rightarrow> u32 \<Rightarrow> u32 \<Rightarrow> u32 list" where
  "tcp_hdr_words result tcp_flags now =
     [res_seq result, res_ack result,
      push_bit 28 8 OR push_bit 16 tcp_flags OR min (res_win result) 0xFFFF,
      0, PKT_TCP_OPT_RAW0, now, res_ts_ecr result]"

definition prepare_ack_header :: "work_result_t \<Rightarrow> u32 \<Rightarrow> pp_state \<Rightarrow> pp_state" where
  "prepare_ack_header result now s =
     (if \<not> has_flag (res_flags result) WORK_RESULT_TX then s
      else
        let tcp_flags = (if has_flag (res_flags result) WORK_RESULT_ECE
                         then HDR_FLAG_ACK OR HDR_FLAG_ECE else HDR_FLAG_ACK)
        in emit (Pkt_Write (io_isl (res_work result) + 32) (io_pnum (res_work result))
                   (PKT_NBI_OFFSET + MAC_PREPEND_BYTES + NET_ETH_LEN + NET_IP4_LEN + 4)
                   (tcp_hdr_words result tcp_flags now)) s)"

definition IP_RAW_WORD0 :: "u32 \<Rightarrow> u32 \<Rightarrow> u32" where
  "IP_RAW_WORD0 tos len = 0x45000000 OR push_bit 16 tos OR len"

definition prepare_seg_header :: "work_result_t \<Rightarrow> u32 \<Rightarrow> pp_state \<Rightarrow> pp_state" where
  "prepare_seg_header result now s =
     (if \<not> has_flag (res_flags result) WORK_RESULT_TX then s
      else
        let tcp_flags = (if has_flag (res_flags result) WORK_RESULT_FIN
                         then HDR_FLAG_ACK OR HDR_FLAG_PSH OR HDR_FLAG_FIN
                         else HDR_FLAG_ACK OR HDR_FLAG_PSH);
            pbuf = PKT_NBI_OFFSET + MAC_PREPEND_BYTES + 2 + NET_ETH_LEN;
            isl = io_isl (res_work result) + 32; pnum = io_pnum (res_work result);
            s1 = emit (Pkt_Write isl pnum pbuf
                        [IP_RAW_WORD0 2 (NET_IP4_LEN + NET_TCPPADTS_LEN + res_dma_len result)]) s
        in emit (Pkt_Write isl pnum (pbuf + NET_IP4_LEN + 4) (tcp_hdr_words result tcp_flags now)) s1)"

subsection \<open>Application descriptors, congestion control, queue manager\<close>

definition allocate_arx_desc :: "work_result_t \<Rightarrow> pp_state \<Rightarrow> (u32 \<times> pp_state) option" where
  "allocate_arx_desc result s =
     (if \<not> has_flag (res_flags result) WORK_RESULT_DMA_ACDESC then Some (0, s)
      else case arx_desc_ring s of
             [] \<Rightarrow> None
           | d # ds \<Rightarrow> Some (d, s\<lparr>arx_desc_ring := ds\<rparr>))"

definition prepare_arx_desc :: "work_result_t \<Rightarrow> flowst_mem_t \<Rightarrow> flextcp_pl_arx_t \<Rightarrow> flextcp_pl_arx_t" where
  "prepare_arx_desc result fs arx =
     (if \<not> has_flag (res_flags result) WORK_RESULT_DMA_ACDESC then arx
      else \<lparr>arx_opaque = push_bit 32 (ucast (mem_opaque_hi fs)) OR ucast (mem_opaque_lo fs),
            arx_rx_bump = res_ac_rx_bump result, arx_tx_bump = res_ac_tx_bump result,
            arx_flags = (if has_flag (res_flags result) WORK_RESULT_FIN
                         then FLEXTCP_PL_ARX_FLRXDONE else 0),
            arx_type = FLEXTCP_PL_ARX_CONNUPDATE\<rparr>)"

definition TCP_MAX_RTT :: u32 where "TCP_MAX_RTT = 100000"

text \<open>The saturating subtraction of the memory engine.\<close>

definition subsat :: "u32 \<Rightarrow> u32 \<Rightarrow> u32" where
  "subsat a b = (if b \<le> a then a - b else 0)"

text \<open>The round-trip estimate: add the sample, take away an eighth of the old estimate.\<close>

definition update_rtt :: "u32 \<Rightarrow> u32 \<Rightarrow> flowst_cc_t \<Rightarrow> flowst_cc_t" where
  "update_rtt now ts_val cc =
     (let rtt = min (drop_bit 3 TCP_MAX_RTT) (drop_bit 9 (now - ts_val));
          old = cc_rtt_est cc
      in cc\<lparr>cc_rtt_est := subsat (old + rtt) (drop_bit 3 old)\<rparr>)"

definition cc_stats :: "work_result_t \<Rightarrow> u32 \<Rightarrow> flowst_cc_t \<Rightarrow> flowst_cc_t" where
  "cc_stats result now cc0 =
     (let fl = res_flags result;
          cc1 = cc0\<lparr>cc_cnt_rx_acks := cc_cnt_rx_acks cc0 + 1\<rparr>;
          cc2 = (if has_flag fl WORK_RESULT_DMA_ACDESC
                 then cc1\<lparr>cc_cnt_rx_ack_bytes := cc_cnt_rx_ack_bytes cc1 + res_ac_tx_bump result\<rparr>
                 else cc1);
          cc3 = (if has_flag fl WORK_RESULT_DMA_ACDESC \<and> has_flag fl WORK_RESULT_ECNB
                 then cc2\<lparr>cc_cnt_rx_ecn_bytes := cc_cnt_rx_ecn_bytes cc2 + res_ac_tx_bump result\<rparr>
                 else cc2);
          cc4 = (if has_flag fl WORK_RESULT_RETX
                 then cc3\<lparr>cc_cnt_tx_drops := cc_cnt_tx_drops cc3 + 1, cc_txp := 0,
                          cc_tx_rate := cc_tx_rate cc3 + cc_tx_rate cc3\<rparr>
                 else cc3);
          cc5 = (if has_flag fl WORK_RESULT_TXP_ZERO then cc4\<lparr>cc_txp := 0\<rparr> else cc4)
      in if res_ts_val result \<noteq> 0 then update_rtt now (res_ts_val result) cc5 else cc5)"

definition collect_cc_stats :: "work_result_t \<Rightarrow> u32 \<Rightarrow> pp_state \<Rightarrow> pp_state" where
  "collect_cc_stats result now = upd_cc (work_flow_id (res_work result)) (cc_stats result now)"

definition push_qm_bump :: "work_result_t \<Rightarrow> pp_state \<Rightarrow> pp_state" where
  "push_qm_bump result s =
     (if \<not> has_flag (res_flags result) WORK_RESULT_QM then s
      else
        let flow_id = work_flow_id (res_work result);
            old = cc_tx_avail (flows_cc_info s flow_id);
            s1 = upd_cc flow_id (\<lambda>cc. cc\<lparr>cc_tx_avail := old + res_qm_bump result\<rparr>) s
        in if old = 0 then emit (Qm_Bump (flow_grp_mask s OR flow_id)) s1 else s1)"

subsection \<open>DMA commands\<close>

text \<open>\<open>pkt_ctm_ptr40\<close> of \<open>lib/pkt\<close>: the packet-mode address of a byte of a packet buffer.\<close>

definition pkt_ctm_ptr40 :: "u32 \<Rightarrow> u32 \<Rightarrow> u32 \<Rightarrow> u64" where
  "pkt_ctm_ptr40 island pnum off =
     (let hi = 0x80 OR island; lo = 0x80000000 OR push_bit 16 pnum OR off
      in push_bit 32 (ucast hi) OR ucast lo)"

text \<open>
  \<open>prepare_dma_cmd\<close> with the command registers \<open>dma\<close> and the return value \<open>ret\<close> as they were
  before: without a payload the code leaves the parameters and the return value unset.
\<close>

definition prepare_dma_cmd ::
  "work_result_t \<Rightarrow> flowst_mem_t \<Rightarrow> u32 \<Rightarrow> dma_pkt_cmd_t \<Rightarrow> u32 \<Rightarrow> dma_pkt_cmd_t \<times> u32" where
  "prepare_dma_cmd result fs desc_idx dma ret =
     (let w = res_work result;
          dma0 = dma\<lparr>cmd_raw0 := raw0 w, cmd_raw1 := raw1 w, cmd_raw2 := raw2 w\<rparr>;
          (dma1, buf_len, buf_base, off) =
            (if work_type w = WORK_TYPE_RX
             then (dma0, mem_rx_len fs, mem_rx_base fs,
                   res_dma_offset result + PKT_NBI_OFFSET + MAC_PREPEND_BYTES + NET_HDR_LEN)
             else (cmd_set_plen (res_dma_len result) dma0, mem_tx_len fs, mem_tx_base fs,
                   PKT_NBI_OFFSET + MAC_PREPEND_BYTES + 2 + NET_HDR_LEN));
          (dma2, ret') =
            (if has_flag (res_flags result) WORK_RESULT_DMA_PAYLOAD then
               let dma_len = res_dma_len result;
                   len_mask = buf_len - 1;
                   pos = res_dma_pos result AND len_mask;
                   wraparound = buf_len - pos;
                   pkt_base = pkt_ctm_ptr40 (io_isl w + 32) (io_pnum w) off
               in if dma_len \<le> wraparound then
                    let buf_base' = buf_base + ucast pos
                    in (dma1\<lparr>param1 := ucast pkt_base, param2 := ucast (drop_bit 32 pkt_base),
                             param3 := ucast buf_base',
                             param4 := ucast (drop_bit 32 buf_base') OR push_bit 20 (dma_len - 1)\<rparr>, 0)
                  else
                    let rest = dma_len - wraparound
                    in (dma1\<lparr>param1 := ucast pkt_base, param2 := pos,
                             param3 := ucast buf_base,
                             param4 := ucast (drop_bit 32 buf_base) OR push_bit 8 rest
                               OR push_bit 20 (wraparound - 1)\<rparr>, 1)
             else (dma1, ret))
      in (cmd_set_flags (res_flags result)
            (cmd_set_db_id (ucast (mem_db_id fs)) (cmd_set_desc_idx desc_idx dma2)), ret'))"

subsection \<open>The four handlers\<close>

text \<open>
  The code leaves the reserved bits of the scheduler word in \<open>postprocess_ac\<close> unset; here they
  are 0.
\<close>

definition postprocess_ac :: "work_result_t \<Rightarrow> pp_state \<Rightarrow> pp_state" where
  "postprocess_ac result s =
     (let s1 = push_qm_bump result s;
          s2 = (if has_flag (res_flags result) WORK_RESULT_QM_FORCE
                then emit (Qm_Sched (drop_bit 16 (flow_grp_mask s))
                       (push_bit 31 1 OR work_flow_id (res_work result))) s1
                else s1)
      in emit (Atx_Free (ac_desc_idx (res_work result))) s2)"

definition postprocess_retx :: "work_result_t \<Rightarrow> pp_state \<Rightarrow> pp_state" where
  "postprocess_retx result s =
     upd_cc (work_flow_id (res_work result))
       (\<lambda>cc. cc\<lparr>cc_tx_rate := cc_tx_rate cc + cc_tx_rate cc, cc_txp := 0,
                cc_cnt_tx_drops := cc_cnt_tx_drops cc + 1\<rparr>)
       (push_qm_bump result s)"

definition PKTBUF_CTM_SIZE :: u32 where "PKTBUF_CTM_SIZE = 3"

text \<open>The arguments of \<open>pkt_nbi_send\<close> and \<open>pkt_nbi_drop_seq\<close> for a packet of a work item.\<close>

definition nbi_args ::
  "work_t \<Rightarrow> (u32 \<Rightarrow> u32 \<Rightarrow> u32 \<Rightarrow> u32 \<Rightarrow> u32 \<Rightarrow> u32 \<Rightarrow> u32 \<Rightarrow> pp_out) \<Rightarrow> pp_out" where
  "nbi_args w f = f (PKT_NBI_OFFSET + MAC_PREPEND_BYTES - 2) (io_isl w + 32) (io_pnum w)
     (NET_HDR_LEN + 4) (io_seqr w) (io_seq w) PKTBUF_CTM_SIZE"

definition postprocess_tx ::
  "work_result_t \<Rightarrow> u32 \<Rightarrow> nat \<Rightarrow> dma_pkt_cmd_t \<Rightarrow> pp_state \<Rightarrow> pp_state" where
  "postprocess_tx result now lru dma_cmd s =
     (let w = res_work result;
          s1 = s\<lparr>qm_credits := qm_credits s + 1\<rparr>
      in if \<not> has_flag (res_flags result) WORK_RESULT_DMA_PAYLOAD then
           emit (Ctm_Free (io_isl w + 32) (io_pnum w))
             (emit (Blm_Free (io_muptr w) (io_bls w))
               (emit (nbi_args w Nbi_Drop) s1))
         else
           let s2 = prepare_seg_header result now s1;
               flow_id = work_flow_id w;
               (mem_info_idx, s3) = fetch_mem_info flow_id lru s2
           in if res_dma_len result = 0 \<and> io_force w \<noteq> 0
              then emit (nbi_args w Nbi_Send) s3
              else
                let (cmd, ret) =
                      (if 0 < res_dma_len result
                       then prepare_dma_cmd result (mem_cache s3 mem_info_idx) 0 dma_cmd 0
                       else (dma_cmd, 0));
                    s4 = upd_cc flow_id (\<lambda>cc. cc\<lparr>cc_txp := 1\<rparr>) s3
                in emit (if ret \<noteq> 0 then Dma_Tx_Excep cmd else Dma_Tx cmd) s4)"

text \<open>\<open>None\<close>: the thread spins until an application descriptor is free.\<close>

definition postprocess_rx ::
  "work_result_t \<Rightarrow> u32 \<Rightarrow> u32 \<Rightarrow> nat \<Rightarrow> dma_pkt_cmd_t \<Rightarrow> u32 \<Rightarrow> flextcp_pl_arx_t \<Rightarrow> pp_state \<Rightarrow>
     pp_state option" where
  "postprocess_rx result now now_rtt lru dma_cmd ret0 arx0 s =
     (let s1 = collect_cc_stats result now_rtt (push_qm_bump result (prepare_ack_header result now s))
      in case allocate_arx_desc result s1 of
           None \<Rightarrow> None
         | Some (desc_idx, s2) \<Rightarrow>
             let (mem_info_idx, s3) = fetch_mem_info (work_flow_id (res_work result)) lru s2;
                 arx = prepare_arx_desc result (mem_cache s3 mem_info_idx) arx0;
                 (cmd, ret) = prepare_dma_cmd result (mem_cache s3 mem_info_idx) desc_idx dma_cmd ret0;
                 s4 = (if has_flag (res_flags result) WORK_RESULT_DMA_ACDESC
                       then emit (Arx_Write desc_idx arx) s3 else s3)
             in Some (emit (if ret \<noteq> 0 then Dma_Rx_Excep cmd else Dma_Rx cmd) s4))"

subsection \<open>Addresses\<close>

lemma unat_or_less: "unat (x :: u32) < 2 ^ n \<Longrightarrow> unat y < 2 ^ n \<Longrightarrow> unat (x OR y) < 2 ^ n"
proof (cases "n < 32")
  case True
  assume "unat x < 2 ^ n" "unat y < 2 ^ n"
  then have eq: "x OR y = take_bit n (x OR y)" by (simp add: take_bit_small)
  have "unat (take_bit n (x OR y)) < 2 ^ n"
    by (simp only: unsigned_take_bit_eq take_bit_nat_less_exp)
  then show ?thesis by (metis eq)
next
  case False
  then have "(2 :: nat) ^ 32 \<le> 2 ^ n" by (intro power_increasing) auto
  then show ?thesis using unat_u32_less [of "x OR y"] by simp
qed

lemma u64_halves:
  "unat (ucast (x :: u64) :: u32) = unat x mod 2 ^ 32"
  "unat (ucast (drop_bit 32 x) :: u32) = unat x div 2 ^ 32"
proof -
  show "unat (ucast x :: u32) = unat x mod 2 ^ 32" by (simp add: unsigned_ucast_eq take_bit_eq_mod)
  have "unat x < 2 ^ 64" using unsigned_less [of x] by simp
  then have "unat x div 2 ^ 32 < 2 ^ 32" by (simp add: less_mult_imp_div_less)
  then show "unat (ucast (drop_bit 32 x) :: u32) = unat x div 2 ^ 32"
    unfolding unsigned_ucast_eq unsigned_drop_bit_eq
    by (simp add: drop_bit_eq_div take_bit_eq_mod take_bit_nat_less_self_iff)
qed

lemma u64_joined: "ucast (push_bit 32 (ucast hi) OR ucast lo :: u64) = (lo :: u32)"
  "ucast (drop_bit 32 (push_bit 32 (ucast hi) OR ucast lo :: u64)) = (hi :: u32)"
  by (rule bit_word_eqI,
      auto simp: bit_ucast_iff bit_or_iff bit_push_bit_iff bit_drop_bit_eq bit_unsigned_iff
        dest: bit_imp_le_length)+

text \<open>The card address of a byte of a packet, and the fields a descriptor takes from it.\<close>

definition pkt_addr :: "work_t \<Rightarrow> u32 \<Rightarrow> nat" where
  "pkt_addr w off = unat (pkt_ctm_ptr40 (io_isl w + 32) (io_pnum w) off)"

definition pkt_hi :: "work_t \<Rightarrow> u32" where "pkt_hi w = 0x80 OR (io_isl w + 32)"
definition pkt_lo :: "work_t \<Rightarrow> u32 \<Rightarrow> u32" where
  "pkt_lo w off = 0x80000000 OR push_bit 16 (io_pnum w) OR off"

lemma pkt_ctm_ptr40_halves:
  "ucast (pkt_ctm_ptr40 (io_isl w + 32) (io_pnum w) off) = pkt_lo w off"
  "ucast (drop_bit 32 (pkt_ctm_ptr40 (io_isl w + 32) (io_pnum w) off)) = pkt_hi w"
  by (simp_all only: pkt_ctm_ptr40_def Let_def u64_joined pkt_lo_def pkt_hi_def)

lemma pkt_addr_eq: "pkt_addr w off = unat (pkt_hi w) * 2 ^ 32 + unat (pkt_lo w off)"
proof -
  let ?p = "pkt_ctm_ptr40 (io_isl w + 32) (io_pnum w) off"
  have "unat ?p div 2 ^ 32 = unat (pkt_hi w)" "unat ?p mod 2 ^ 32 = unat (pkt_lo w off)"
    by (simp_all only: u64_halves [symmetric] pkt_ctm_ptr40_halves)
  then show ?thesis unfolding pkt_addr_def by (metis div_mult_mod_eq)
qed

lemma pkt_hi_small: "unat (pkt_hi w) < 2 ^ 8"
proof -
  have "unat (io_isl w) < 4" using bf_get_bound [of 2 26 "raw0 w"] by (simp add: io_isl_def)
  moreover from this have "unat (io_isl w + 32) = unat (io_isl w) + 32" by (simp add: unat_add_exact)
  ultimately have "unat (io_isl w + 32) < 2 ^ 8" by simp
  moreover have "unat (0x80 :: u32) < 2 ^ 8" by simp
  ultimately show ?thesis unfolding pkt_hi_def by (intro unat_or_less)
qed

text \<open>A packet's bytes have consecutive addresses.\<close>

lemma pkt_lo_room:
  assumes "unat off < 2 ^ 16" and "n < 2 ^ 16"
  shows "unat (pkt_lo w off) + n < 2 ^ 32"
proof -
  have "unat (io_pnum w) < 2 ^ 10" using bf_get_bound [of 10 16 "raw0 w"] by (simp add: io_pnum_def)
  then have push: "unat (push_bit 16 (io_pnum w)) < 2 ^ 26"
    by (simp add: push_bit_eq_mult unat_word_ariths)
  have "unat (push_bit 16 (io_pnum w) OR off) < 2 ^ 26"
    using push assms(1) by (intro unat_or_less) auto
  then have small: "unat (push_bit 16 (io_pnum w) OR off) < 67108864" by simp
  have "pkt_lo w off = 0x80000000 + (push_bit 16 (io_pnum w) OR off)"
  proof -
    have "\<not> bit (0x80000000 :: u32) i \<or> \<not> bit (push_bit 16 (io_pnum w) OR off) i" for i
    proof -
      have "(0x80000000 :: u32) = push_bit 31 1" by simp
      then have "bit (0x80000000 :: u32) i \<Longrightarrow> i = 31" by (simp only: bit_push_bit_iff) auto
      moreover have "bit (push_bit 16 (io_pnum w) OR off) i \<Longrightarrow> i < 26"
        using small by (auto intro: bit_unat_small)
      ultimately show ?thesis by auto
    qed
    then show ?thesis unfolding pkt_lo_def by (simp add: disjunctive_add)
  qed
  then have "unat (pkt_lo w off) \<le> 2147483648 + unat (push_bit 16 (io_pnum w) OR off)"
    using unat_add_exact [of "0x80000000" "push_bit 16 (io_pnum w) OR off"] small by simp
  then show ?thesis using small assms(2) by simp
qed

subsection \<open>The transfers of a command\<close>

lemma cmd_set_params [simp]:
  "param1 (cmd_set_flags a (cmd_set_db_id b (cmd_set_desc_idx d c))) = param1 c"
  "param2 (cmd_set_flags a (cmd_set_db_id b (cmd_set_desc_idx d c))) = param2 c"
  "param3 (cmd_set_flags a (cmd_set_db_id b (cmd_set_desc_idx d c))) = param3 c"
  "param4 (cmd_set_flags a (cmd_set_db_id b (cmd_set_desc_idx d c))) = param4 c"
  "cmd_isl (cmd_set_flags a (cmd_set_db_id b (cmd_set_desc_idx d c))) = cmd_isl c"
  "cmd_plen (cmd_set_flags a (cmd_set_db_id b (cmd_set_desc_idx d c))) = cmd_plen c"
  "cmd_flags (cmd_set_flags a (cmd_set_db_id b (cmd_set_desc_idx d c))) = take_bit 11 a"
  "cmd_db_id (cmd_set_flags a (cmd_set_db_id b (cmd_set_desc_idx d c))) = take_bit 5 b"
  "cmd_desc_idx (cmd_set_flags a (cmd_set_db_id b (cmd_set_desc_idx d c))) = take_bit 16 d"
  by (simp_all add: cmd_field_defs bf_get_set_same bf_get_set_other)

lemma has_flag_take_bit_11:
  "has_flag (take_bit 11 fl) WORK_RESULT_DMA_PAYLOAD = has_flag fl WORK_RESULT_DMA_PAYLOAD"
proof -
  have "take_bit 11 fl AND 4 = take_bit 11 (fl AND 4)" for fl :: u32 by simp
  moreover have "take_bit 11 (fl AND 4) = fl AND 4" for fl :: u32
    by (rule take_bit_small, rule le_less_trans [of _ "unat (4 :: u32)"])
       (simp_all only: word_le_nat_alt [symmetric] word_and_le1, simp)
  ultimately show ?thesis by (simp add: has_flag_def work_result_defs)
qed

definition desc_transfer :: "nfp_pcie_dma_cmd \<Rightarrow> nat \<times> nat \<times> nat" where
  "desc_transfer d = (desc_cpp_addr d, desc_pcie_addr d, desc_len d)"

text \<open>The transfers of \<open>n\<close> bytes at \<open>pkt\<close> into a buffer of \<open>L\<close> bytes at \<open>B\<close> from position \<open>p\<close> on.\<close>

definition circ_transfers :: "nat \<Rightarrow> nat \<Rightarrow> nat \<Rightarrow> nat \<Rightarrow> nat \<Rightarrow> (nat \<times> nat \<times> nat) list" where
  "circ_transfers pkt B L p n =
     (if n \<le> L - p then [(pkt, B + p, n)] else [(pkt, B + p, L - p), (pkt + (L - p), B, n - (L - p))])"

lemma single_transfer:
  fixes base :: u64
  assumes "unat base < 2 ^ 40" and "0 < unat n" and "unat n \<le> 4096"
  shows "desc_transfer \<lparr>pcie_raw0 = pkt_lo w off,
           pcie_raw1 = DMA_CMD_WORD1 cfg token ctx meid OR NFP_PCIE_DMA_CMD_DMA_MODE signo OR pkt_hi w,
           pcie_raw2 = ucast base,
           pcie_raw3 = DMA_CMD_WORD3 rid tc OR (ucast (drop_bit 32 base) OR push_bit 20 (n - 1))\<rparr> =
         (pkt_addr w off, unat base, unat n)"
proof -
  have hi: "unat (ucast (drop_bit 32 base) :: u32) < 2 ^ 8"
    unfolding u64_halves(2) using assms(1) by (simp add: less_mult_imp_div_less)
  then have hi20: "unat (ucast (drop_bit 32 base) :: u32) < 2 ^ 20" by simp
  have n: "unat (n - 1) = unat n - 1" using assms(2) by (simp add: unat_sub_exact word_nat)
  then have n12: "unat (n - 1) < 2 ^ 12" using assms(2,3) by simp
  note get = bf_get_or bf_get_push_above bf_get_push_same bf_get_0_small [OF hi] bf_get_small [OF hi20]
    bf_get_0_small [OF pkt_hi_small] take_bit_small [OF n12]
  have "desc_pcie_addr \<lparr>pcie_raw0 = pkt_lo w off,
      pcie_raw1 = DMA_CMD_WORD1 cfg token ctx meid OR NFP_PCIE_DMA_CMD_DMA_MODE signo OR pkt_hi w,
      pcie_raw2 = ucast base,
      pcie_raw3 = DMA_CMD_WORD3 rid tc OR (ucast (drop_bit 32 base) OR push_bit 20 (n - 1))\<rparr>
    = unat base div 2 ^ 32 * 2 ^ 32 + unat base mod 2 ^ 32"
    by (simp add: desc_pcie_addr_def get u64_halves(2)) (simp add: u64_halves(1))
  then show ?thesis
    using assms(2) n by (simp add: desc_transfer_def desc_cpp_addr_def desc_len_def get pkt_addr_eq)
qed

lemma and_mask_bf:
  "x AND 0xFFF = bf_get 0 12 x" "x AND 0xFF = bf_get 0 8 x" for x :: u32
proof -
  have "(0xFFF :: u32) = mask 12" "(0xFF :: u32) = mask 8" by (simp_all add: mask_eq_exp_minus_1)
  then show "x AND 0xFFF = bf_get 0 12 x" "x AND 0xFF = bf_get 0 8 x"
    by (simp_all only: bf_get_def take_bit_eq_mask drop_bit_0 id_apply)
qed

lemma drop_bit_bf: "drop_bit 20 x = bf_get 20 12 x" "bf_get 0 12 (drop_bit 8 x) = bf_get 8 12 x" for x :: u32
  by (rule bit_word_eqI; auto simp: bit_bf_get bit_drop_bit_eq dest: bit_imp_le_length)+

text \<open>The fields of the length word of a command for two transfers.\<close>

lemma param4_fields:
  fixes hi :: u32
  assumes "unat hi < 2 ^ 8" and "unat rest < 2 ^ 12" and "unat n < 2 ^ 12"
  defines "x \<equiv> hi OR push_bit 8 rest OR push_bit 20 n"
  shows "bf_get 0 8 x = hi" "bf_get 8 12 x = rest" "bf_get 20 12 x = n"
proof -
  have hi: "unat hi < 2 ^ 20" using assms(1) by simp
  show "bf_get 0 8 x = hi"
    by (simp add: x_def bf_get_or bf_get_push_above bf_get_0_small [OF assms(1)])
  show "bf_get 8 12 x = rest"
    by (simp add: x_def bf_get_or bf_get_push_above bf_get_push_same bf_get_small [OF assms(1)]
        take_bit_small [OF assms(2)])
  show "bf_get 20 12 x = n"
    by (simp add: x_def bf_get_or bf_get_push_same bf_get_push_below [OF _ assms(2)]
        bf_get_small [OF hi] take_bit_small [OF assms(3)])
qed

lemma double_transfer:
  fixes base :: u64 and wrap rest pos :: u32
  defines "p4 \<equiv> ucast (drop_bit 32 base) OR push_bit 8 rest OR push_bit 20 (wrap - 1)"
  assumes base: "unat base + unat pos < 2 ^ 40" "unat base mod 2 ^ 32 + unat pos < 2 ^ 32"
    and wrap: "0 < unat wrap" "unat wrap \<le> 4096" and rest: "0 < unat rest" "unat rest < 4096"
    and off: "unat off < 2 ^ 16"
    and cmd: "param1 cmd = pkt_lo w off" "param2 cmd = pos" "param3 cmd = ucast base"
      "param4 cmd = p4" "cmd_isl cmd = io_isl w" "has_flag (cmd_flags cmd) WORK_RESULT_DMA_PAYLOAD"
  shows "map desc_transfer (fst (issue_pkt_dma_2 cmd (DMA_CMD_WORD1 cfg token ctx meid)
           (DMA_CMD_WORD1_NOSIG cfg token) (DMA_CMD_WORD3 rid tc) signo)) =
         [(pkt_addr w off, unat base + unat pos, unat wrap),
          (pkt_addr w off + unat wrap, unat base, unat rest)]"
proof -
  have hi: "unat (ucast (drop_bit 32 base) :: u32) < 2 ^ 8"
    unfolding u64_halves(2) using base(1) by (simp add: less_mult_imp_div_less)
  have w1: "unat (wrap - 1) = unat wrap - 1" using wrap by (simp add: unat_sub_exact word_nat)
  then have w12: "unat (wrap - 1) < 2 ^ 12" using wrap by simp
  have r12: "unat rest < 2 ^ 12" using rest by simp
  have r1: "unat (rest - 1) = unat rest - 1" using rest by (simp add: unat_sub_exact word_nat)
  then have r1s: "unat (rest - 1) < 2 ^ 12" using rest by simp
  note p4 = param4_fields [OF hi r12 w12, folded p4_def]
  have pkt: "unat (pkt_lo w off) + unat wrap < 2 ^ 32" using pkt_lo_room [OF off] wrap by simp
  have buf: "unat (ucast base + pos :: u32) = unat base mod 2 ^ 32 + unat pos"
    using base(2) by (subst unat_add_exact) (simp_all only: u64_halves(1))
  have split: "unat base = unat base div 2 ^ 32 * 2 ^ 32 + unat base mod 2 ^ 32"
    by (simp only: div_mult_mod_eq)
  have masks: "bf_get 20 12 (0xFFF000FF :: u32) = mask 12" "bf_get 0 8 (0xFFF000FF :: u32) = mask 8"
    by (simp_all add: bf_get_def mask_eq_exp_minus_1)
  have m: "(wrap - 1) AND mask 12 = wrap - 1"
    "ucast (drop_bit 32 base) AND mask 8 = (ucast (drop_bit 32 base) :: u32)"
    using w12 hi by (simp_all only: take_bit_eq_mask [symmetric] take_bit_small)
  note simps = issue_pkt_dma_2_def Let_def cmd and_mask_bf drop_bit_bf desc_transfer_def
    desc_cpp_addr_def desc_pcie_addr_def desc_len_def pkt_hi_def [symmetric]
    NFP_PCIE_DMA_CMD_LENGTH_def NFP_PCIE_DMA_CMD_PCIE_ADDR_HI_def bf_get_or bf_get_and masks m p4
    bf_get_push_above bf_get_push_same bf_get_0_small [OF pkt_hi_small] bf_get_0_small [OF hi]
    bf_get_0_small [OF r1s] take_bit_small [OF r1s] bf_get_small [OF less_le_trans [OF hi]]
  show ?thesis
    using wrap rest w1 r1 pkt buf
    by (simp add: simps unat_add_exact pkt_addr_eq u64_halves(2)) (simp add: u64_halves(1))
qed

text \<open>
  Which DMA thread serves a command: the rings \<open>dma_rx_ring\<close> and \<open>dma_tx_ring\<close> are read by
  \<open>dma_rx.c\<close> and \<open>dma_tx.c\<close>, the rings for wrapped transfers by \<open>dma_rxtx.c\<close>.
\<close>

definition DMA_TX_CFG_IDX :: u32 where "DMA_TX_CFG_IDX = 2"
definition DMA_RX_CFG_IDX :: u32 where "DMA_RX_CFG_IDX = 3"
definition DMA_CPP_TOKEN :: u32 where "DMA_CPP_TOKEN = 2"

definition dma_issue :: "u32 \<Rightarrow> u32 \<Rightarrow> u32 \<Rightarrow> u32 \<Rightarrow> dma_pkt_cmd_t \<times> u32 \<Rightarrow> nfp_pcie_dma_cmd list" where
  "dma_issue cfg ctx meid signo cr =
     (let (cmd, ret) = cr
      in if ret \<noteq> 0
         then fst (issue_pkt_dma_2 cmd (DMA_CMD_WORD1 cfg DMA_CPP_TOKEN ctx meid)
                (DMA_CMD_WORD1_NOSIG cfg DMA_CPP_TOKEN) (DMA_CMD_WORD3 0 0) signo)
         else fst (issue_pkt_dma cmd (DMA_CMD_WORD1 cfg DMA_CPP_TOKEN ctx meid)
                (DMA_CMD_WORD3 0 0) signo))"

definition dma_thread_issue :: "u32 \<Rightarrow> u32 \<Rightarrow> u32 \<Rightarrow> pp_out \<Rightarrow> nfp_pcie_dma_cmd list" where
  "dma_thread_issue ctx meid signo out =
     (case out of
        Dma_Rx cmd \<Rightarrow> dma_issue DMA_RX_CFG_IDX ctx meid signo (cmd, 0)
      | Dma_Rx_Excep cmd \<Rightarrow> dma_issue DMA_RX_CFG_IDX ctx meid signo (cmd, 1)
      | Dma_Tx cmd \<Rightarrow> dma_issue DMA_TX_CFG_IDX ctx meid signo (cmd, 0)
      | Dma_Tx_Excep cmd \<Rightarrow> dma_issue DMA_TX_CFG_IDX ctx meid signo (cmd, 1)
      | _ \<Rightarrow> [])"

text \<open>The buffer, its position and the packet offset that a result's payload transfer is about.\<close>

definition xfer_base :: "work_result_t \<Rightarrow> flowst_mem_t \<Rightarrow> u64" where
  "xfer_base r fs = (if work_type (res_work r) = WORK_TYPE_RX then mem_rx_base fs else mem_tx_base fs)"

definition xfer_len :: "work_result_t \<Rightarrow> flowst_mem_t \<Rightarrow> u32" where
  "xfer_len r fs = (if work_type (res_work r) = WORK_TYPE_RX then mem_rx_len fs else mem_tx_len fs)"

definition xfer_off :: "work_result_t \<Rightarrow> u32" where
  "xfer_off r = (if work_type (res_work r) = WORK_TYPE_RX then res_dma_offset r + 138 else 140)"

text \<open>
  What the stage relies on: the buffer's length is a power of two and the buffer lies in the
  40-bit address space without crossing a 4 GiB boundary, the payload fits the buffer and a
  packet buffer.
\<close>

definition xfer_ok :: "work_result_t \<Rightarrow> flowst_mem_t \<Rightarrow> bool" where
  "xfer_ok r fs \<longleftrightarrow>
     has_flag (res_flags r) WORK_RESULT_DMA_PAYLOAD \<and>
     (\<exists>k<32. xfer_len r fs = 2 ^ k) \<and>
     unat (xfer_base r fs) + unat (xfer_len r fs) \<le> 2 ^ 40 \<and>
     unat (xfer_base r fs) mod 2 ^ 32 + unat (xfer_len r fs) \<le> 2 ^ 32 \<and>
     0 < res_dma_len r \<and> res_dma_len r \<le> xfer_len r fs \<and> unat (res_dma_len r) \<le> 4096 \<and>
     unat (xfer_off r) < 2 ^ 16"

definition xfer_pos :: "work_result_t \<Rightarrow> flowst_mem_t \<Rightarrow> nat" where
  "xfer_pos r fs = unat (res_dma_pos r) mod unat (xfer_len r fs)"

text \<open>The command by cases on the work type and on whether the payload wraps.\<close>

definition cmd_start :: "work_result_t \<Rightarrow> dma_pkt_cmd_t \<Rightarrow> dma_pkt_cmd_t" where
  "cmd_start r dma =
     (let dma0 = dma\<lparr>cmd_raw0 := raw0 (res_work r), cmd_raw1 := raw1 (res_work r),
                     cmd_raw2 := raw2 (res_work r)\<rparr>
      in if work_type (res_work r) = WORK_TYPE_RX then dma0 else cmd_set_plen (res_dma_len r) dma0)"

lemma cmd_isl_params [simp]:
  "cmd_isl (c\<lparr>param1 := a, param2 := b, param3 := d, param4 := e\<rparr>) = cmd_isl c"
  by (simp add: cmd_isl_def)

lemma cmd_start_isl [simp]: "cmd_isl (cmd_start r dma) = io_isl (res_work r)"
  by (simp add: cmd_start_def cmd_isl_def io_isl_def cmd_set_plen_def Let_def)

lemma xfer_off_eq:
  "(if work_type (res_work r) = WORK_TYPE_RX
    then res_dma_offset r + PKT_NBI_OFFSET + MAC_PREPEND_BYTES + NET_HDR_LEN
    else PKT_NBI_OFFSET + MAC_PREPEND_BYTES + 2 + NET_HDR_LEN) = xfer_off r"
  by (simp add: xfer_off_def PKT_NBI_OFFSET_def MAC_PREPEND_BYTES_def NET_HDR_LEN_def)

lemma prepare_dma_cmd_eq:
  assumes "has_flag (res_flags r) WORK_RESULT_DMA_PAYLOAD"
  shows "prepare_dma_cmd r fs d dma ret =
    (let pos = res_dma_pos r AND (xfer_len r fs - 1);
         wrap = xfer_len r fs - pos;
         b = xfer_base r fs + ucast pos;
         c = cmd_start r dma;
         fin = (\<lambda>c. cmd_set_flags (res_flags r)
                  (cmd_set_db_id (ucast (mem_db_id fs)) (cmd_set_desc_idx d c)))
     in if res_dma_len r \<le> wrap
        then (fin (c\<lparr>param1 := pkt_lo (res_work r) (xfer_off r), param2 := pkt_hi (res_work r),
                     param3 := ucast b,
                     param4 := ucast (drop_bit 32 b) OR push_bit 20 (res_dma_len r - 1)\<rparr>), 0)
        else (fin (c\<lparr>param1 := pkt_lo (res_work r) (xfer_off r), param2 := pos,
                     param3 := ucast (xfer_base r fs),
                     param4 := ucast (drop_bit 32 (xfer_base r fs))
                       OR push_bit 8 (res_dma_len r - wrap) OR push_bit 20 (wrap - 1)\<rparr>), 1))"
proof (cases "work_type (res_work r) = WORK_TYPE_RX")
  case True
  show ?thesis
    unfolding prepare_dma_cmd_def Let_def if_P [OF True] if_P [OF assms] prod.case
      pkt_ctm_ptr40_halves xfer_off_eq [of r, unfolded if_P [OF True]]
      cmd_start_def xfer_len_def xfer_base_def
    by (simp only: prod.case if_distrib [of "case_prod f" for f] cong: if_cong)
next
  case False
  show ?thesis
    unfolding prepare_dma_cmd_def Let_def if_not_P [OF False] if_P [OF assms] prod.case
      pkt_ctm_ptr40_halves xfer_off_eq [of r, unfolded if_not_P [OF False]]
      cmd_start_def xfer_len_def xfer_base_def
    by (simp only: prod.case if_distrib [of "case_prod f" for f] cong: if_cong)
qed

lemma xfer_pos_word:
  assumes "xfer_ok r fs"
  defines "pos \<equiv> res_dma_pos r AND (xfer_len r fs - 1)"
  shows "unat pos = xfer_pos r fs" "unat pos < unat (xfer_len r fs)"
    "unat (xfer_len r fs - pos) = unat (xfer_len r fs) - xfer_pos r fs"
proof -
  obtain k where k: "k < 32" "xfer_len r fs = 2 ^ k" using assms(1) by (auto simp: xfer_ok_def)
  have "(2 :: nat) ^ k < 2 ^ 32" using k(1) by (rule power_strict_increasing) simp
  then have L: "unat (xfer_len r fs) = 2 ^ k"
    using unat_of_nat [of "2 ^ k", where ?'a = 32] k by simp
  show 1: "unat pos = xfer_pos r fs"
    using and_mask_nat [OF k(1)] L by (simp add: pos_def xfer_pos_def k(2))
  then show 2: "unat pos < unat (xfer_len r fs)" by (simp add: xfer_pos_def L)
  then have "pos \<le> xfer_len r fs" by (simp add: word_nat)
  with 1 show "unat (xfer_len r fs - pos) = unat (xfer_len r fs) - xfer_pos r fs"
    by (simp add: unat_sub_exact)
qed

lemma dma_issue_transfers:
  assumes ok: "xfer_ok r fs"
  shows "map desc_transfer (dma_issue cfg ctx meid signo (prepare_dma_cmd r fs d dma ret)) =
    circ_transfers (pkt_addr (res_work r) (xfer_off r)) (unat (xfer_base r fs)) (unat (xfer_len r fs))
      (xfer_pos r fs) (unat (res_dma_len r))"
proof -
  let ?pos = "res_dma_pos r AND (xfer_len r fs - 1)"
  let ?wrap = "xfer_len r fs - ?pos" and ?b = "xfer_base r fs + ucast ?pos"
  note pos = xfer_pos_word [OF ok]
  have fl: "has_flag (res_flags r) WORK_RESULT_DMA_PAYLOAD" using ok by (simp add: xfer_ok_def)
  have bounds: "unat (xfer_base r fs) + unat (xfer_len r fs) \<le> 2 ^ 40"
    "unat (xfer_base r fs) mod 2 ^ 32 + unat (xfer_len r fs) \<le> 2 ^ 32"
    "0 < unat (res_dma_len r)" "unat (res_dma_len r) \<le> 4096" "unat (xfer_off r) < 2 ^ 16"
    "unat (res_dma_len r) \<le> unat (xfer_len r fs)"
    using ok by (auto simp: xfer_ok_def word_nat unat_gt_0)
  show ?thesis
  proof (cases "res_dma_len r \<le> ?wrap")
    case True
    have "unat (ucast ?pos :: u64) = unat ?pos"
      by (simp add: unsigned_ucast_eq take_bit_nat_eq_self unat_u32_less less_trans [OF unat_u32_less])
    then have b: "unat ?b = unat (xfer_base r fs) + unat ?pos"
      using bounds(1) pos(2) by (simp add: unat_word_ariths)
    then have b40: "unat ?b < 2 ^ 40" using bounds(1) pos(2) by simp
    have n: "unat (res_dma_len r) \<le> unat (xfer_len r fs) - xfer_pos r fs"
      using True pos(3) by (simp add: word_nat)
    show ?thesis
      using single_transfer [OF b40 bounds(3,4), of "res_work r" "xfer_off r" cfg DMA_CPP_TOKEN ctx meid signo 0 0]
        fl b pos(1) n
      by (simp add: dma_issue_def prepare_dma_cmd_eq [OF fl] Let_def True issue_pkt_dma_def
          has_flag_take_bit_11 circ_transfers_def)
  next
    case False
    then have n: "unat (xfer_len r fs) - xfer_pos r fs < unat (res_dma_len r)"
      "unat (res_dma_len r - ?wrap) = unat (res_dma_len r) - (unat (xfer_len r fs) - xfer_pos r fs)"
      using pos(3) by (simp_all add: word_nat unat_sub_exact)
    have w: "0 < unat ?wrap" "unat ?wrap \<le> 4096" "0 < unat (res_dma_len r - ?wrap)"
      "unat (res_dma_len r - ?wrap) < 4096"
      using n pos bounds(4) by simp_all
    have base: "unat (xfer_base r fs) + unat ?pos < 2 ^ 40"
      "unat (xfer_base r fs) mod 2 ^ 32 + unat ?pos < 2 ^ 32"
      using bounds(1,2) pos(2) by simp_all
    note dt = double_transfer [OF base w bounds(5)]
    show ?thesis
      unfolding prepare_dma_cmd_eq [OF fl] Let_def if_not_P [OF False] dma_issue_def prod.case
        if_P [OF one_neq_zero]
      by (subst dt [where w = "res_work r"])
         (use fl n in \<open>simp_all add: pos(1,3) has_flag_take_bit_11 circ_transfers_def\<close>)
  qed
qed

subsection \<open>Circular copies\<close>

fun copy_all :: "(nat \<Rightarrow> 'b) \<Rightarrow> (nat \<times> nat \<times> nat) list \<Rightarrow> (nat \<Rightarrow> 'b) \<Rightarrow> nat \<Rightarrow> 'b" where
  "copy_all src [] dst = dst"
| "copy_all src ((from, to, n) # ts) dst = copy_all src ts (copy_bytes src from to n dst)"

lemma dma_to_host_copies: "dma_to_host ctm ds host = copy_all ctm (map desc_transfer ds) host"
  by (induction ds arbitrary: host) (simp_all add: desc_transfer_def)

lemma dma_from_host_copies:
  "dma_from_host host ds ctm =
     copy_all host (map (\<lambda>d. case desc_transfer d of (c, p, n) \<Rightarrow> (p, c, n)) ds) ctm"
  by (induction ds arbitrary: ctm) (simp_all add: desc_transfer_def)

text \<open>Into the circular buffer: byte \<open>i\<close> of the packet goes to position \<open>p + i\<close>, nothing else moves.\<close>

lemma circ_copy_in:
  fixes ctm host and pkt B L p n :: nat
  assumes "n \<le> L" and "p < L"
  defines "h \<equiv> copy_all ctm (circ_transfers pkt B L p n) host"
  shows "i < n \<Longrightarrow> h (B + (p + i) mod L) = ctm (pkt + i)"
    "(\<And>i. i < n \<Longrightarrow> a \<noteq> B + (p + i) mod L) \<Longrightarrow> h a = host a"
proof -
  have wrap: "(p + i) mod L = (if p + i < L then p + i else p + i - L)" if "i < n" for i
    using assms(1,2) that by (simp add: mod_if)
  show "h (B + (p + i) mod L) = ctm (pkt + i)" if i: "i < n"
    using assms(1,2) i by (auto simp: h_def wrap circ_transfers_def copy_bytes_def)
  show "h a = host a" if a: "\<And>i. i < n \<Longrightarrow> a \<noteq> B + (p + i) mod L"
  proof -
    have "\<not> (B + p \<le> a \<and> a < B + p + min n (L - p))"
    proof
      assume "B + p \<le> a \<and> a < B + p + min n (L - p)"
      then have "a - (B + p) < n" "a - (B + p) < L - p" "B + p \<le> a" by auto
      then show False using a [of "a - (B + p)"] wrap [of "a - (B + p)"] by auto
    qed
    moreover have "\<not> (L - p < n \<and> B \<le> a \<and> a < B + (n - (L - p)))"
    proof
      assume "L - p < n \<and> B \<le> a \<and> a < B + (n - (L - p))"
      then have i: "a - B + (L - p) < n" "p + (a - B + (L - p)) = L + (a - B)" "B \<le> a"
        and "a - B < L" using assms(1,2) by auto
      then have "(p + (a - B + (L - p))) mod L = a - B" unfolding i(2) mod_add_self1 by simp
      then show False using a [OF i(1)] i(3) by (simp only: le_add_diff_inverse)
    qed
    ultimately show ?thesis by (auto simp: h_def circ_transfers_def copy_bytes_def)
  qed
qed

text \<open>Out of the circular buffer into consecutive bytes of the packet.\<close>

lemma circ_copy_out:
  fixes ctm host and pkt B L p n :: nat
  assumes "n \<le> L" and "p < L"
  defines "c \<equiv> copy_all host (map (\<lambda>(c, p, n). (p, c, n)) (circ_transfers pkt B L p n)) ctm"
  shows "i < n \<Longrightarrow> c (pkt + i) = host (B + (p + i) mod L)"
    "a < pkt \<or> pkt + n \<le> a \<Longrightarrow> c a = ctm a"
proof -
  have wrap: "(p + i) mod L = (if p + i < L then p + i else p + i - L)" if "i < n" for i
    using assms(1,2) that by (simp add: mod_if)
  show "c (pkt + i) = host (B + (p + i) mod L)" if i: "i < n"
    using assms(1,2) i
    by (auto simp: c_def wrap circ_transfers_def copy_bytes_def intro!: arg_cong [of _ _ host])
  show "c a = ctm a" if "a < pkt \<or> pkt + n \<le> a"
    using assms(1,2) that by (auto simp: c_def circ_transfers_def copy_bytes_def)
qed

lemma xfer_ok_nat:
  assumes "xfer_ok r fs"
  shows "unat (res_dma_len r) \<le> unat (xfer_len r fs)" "xfer_pos r fs < unat (xfer_len r fs)"
    "(xfer_pos r fs + i) mod unat (xfer_len r fs) =
       (unat (res_dma_pos r) + i) mod unat (xfer_len r fs)"
  using assms xfer_pos_word(1,2) [OF assms]
  by (auto simp: xfer_ok_def word_nat xfer_pos_def mod_add_left_eq)

definition host_addr :: "work_result_t \<Rightarrow> flowst_mem_t \<Rightarrow> nat \<Rightarrow> nat" where
  "host_addr r fs i =
     unat (xfer_base r fs) + (unat (res_dma_pos r) + i) mod unat (xfer_len r fs)"

lemma dma_issue_to_host:
  fixes ctm host cfg ctx meid signo d dma ret
  assumes ok: "xfer_ok r fs"
  defines "host' \<equiv> dma_to_host ctm
    (dma_issue cfg ctx meid signo (prepare_dma_cmd r fs d dma ret)) host"
  shows "(\<forall>i<unat (res_dma_len r). host' (host_addr r fs i) = ctm (pkt_addr (res_work r) (xfer_off r) + i)) \<and>
    (\<forall>a. (\<forall>i<unat (res_dma_len r). a \<noteq> host_addr r fs i) \<longrightarrow> host' a = host a)"
  unfolding host'_def dma_to_host_copies dma_issue_transfers [OF ok] host_addr_def
    xfer_ok_nat(3) [OF ok, symmetric]
  by (intro conjI allI impI circ_copy_in [OF xfer_ok_nat(1,2) [OF ok]]) simp_all

lemma map_swap_transfers:
  "map (\<lambda>d. case desc_transfer d of (c, p, n) \<Rightarrow> (p, c, n)) ds =
     map (\<lambda>(c, p, n). (p, c, n)) (map desc_transfer ds)"
  by simp

text \<open>
  C9. Receive: for a payload of a result, whatever its position in the circular buffer, the
  command that \<open>prepare_dma_cmd\<close> builds, issued by the DMA thread its return value selects, copies
  byte \<open>i\<close> of the payload to position \<open>(dma_pos + i) mod rx_len\<close> of the receive buffer, and
  changes no other byte of host memory.
\<close>

theorem prepare_dma_cmd_receives:
  assumes "xfer_ok r fs"
  shows "(\<forall>i<unat (res_dma_len r).
      dma_to_host ctm (dma_issue DMA_RX_CFG_IDX ctx meid signo (prepare_dma_cmd r fs d dma ret)) host
        (host_addr r fs i) = ctm (pkt_addr (res_work r) (xfer_off r) + i)) \<and>
    (\<forall>a. (\<forall>i<unat (res_dma_len r). a \<noteq> host_addr r fs i) \<longrightarrow>
      dma_to_host ctm (dma_issue DMA_RX_CFG_IDX ctx meid signo (prepare_dma_cmd r fs d dma ret)) host a
        = host a)"
  by (rule dma_issue_to_host [OF assms])

text \<open>
  C10. Transmit: the same command in the other direction gathers the payload of a segment from
  the circular transmit buffer into consecutive bytes of the packet, and changes no other byte
  of the packet memory.
\<close>

theorem prepare_dma_cmd_transmits:
  assumes ok: "xfer_ok r fs"
  shows "(\<forall>i<unat (res_dma_len r).
      dma_from_host host (dma_issue DMA_TX_CFG_IDX ctx meid signo (prepare_dma_cmd r fs d dma ret)) ctm
        (pkt_addr (res_work r) (xfer_off r) + i) = host (host_addr r fs i)) \<and>
    (\<forall>a. a < pkt_addr (res_work r) (xfer_off r) \<or>
         pkt_addr (res_work r) (xfer_off r) + unat (res_dma_len r) \<le> a \<longrightarrow>
      dma_from_host host (dma_issue DMA_TX_CFG_IDX ctx meid signo (prepare_dma_cmd r fs d dma ret)) ctm a
        = ctm a)"
  unfolding dma_from_host_copies map_swap_transfers dma_issue_transfers [OF ok] host_addr_def
    xfer_ok_nat(3) [OF ok, symmetric]
  by (intro conjI allI impI circ_copy_out [OF xfer_ok_nat(1,2) [OF ok]])

subsection \<open>Sample values\<close>

text \<open>A flow with buffers of 8 KiB and a received payload of 100 bytes that wraps after 50.\<close>

definition sample_mem :: flowst_mem_t where
  "sample_mem = \<lparr>mem_db_id = 3, mem_opaque_hi = 0, mem_opaque_lo = 77, mem_rx_base = 0x10000000,
     mem_tx_base = 0x20000000, mem_rx_len = 8192, mem_tx_len = 8192\<rparr>"

definition wrap_result :: work_result_t where
  "wrap_result = sample_result\<lparr>res_flags := WORK_RESULT_DMA_PAYLOAD, res_dma_pos := 8142,
     res_dma_raw := push_bit 16 100, res_work := work_rx100\<rparr>"

definition wrap_tx_result :: work_result_t where
  "wrap_tx_result = wrap_result\<lparr>res_work := work_tx\<rparr>"

definition no_cmd :: dma_pkt_cmd_t where
  "no_cmd = \<lparr>cmd_raw0 = 0, cmd_raw1 = 0, cmd_raw2 = 0, param1 = 0, param2 = 0, param3 = 0,
     param4 = 0, cmd_raw7 = 0\<rparr>"

lemma sample_xfer [simp]:
  "res_dma_len wrap_result = 100" "res_dma_offset wrap_result = 0" "res_dma_pos wrap_result = 8142"
  "res_dma_len wrap_tx_result = 100" "res_dma_pos wrap_tx_result = 8142"
  "work_type (res_work wrap_result) = WORK_TYPE_RX" "work_type (res_work wrap_tx_result) = WORK_TYPE_TX"
  "has_flag (res_flags wrap_result) WORK_RESULT_DMA_PAYLOAD"
  "has_flag (res_flags wrap_tx_result) WORK_RESULT_DMA_PAYLOAD"
  by (simp_all add: wrap_result_def wrap_tx_result_def res_dma_len_def res_dma_offset_def bf_get_def)

lemma sample_xfer_ok:
  "xfer_ok wrap_result sample_mem" "xfer_ok wrap_tx_result sample_mem"
proof -
  have k: "\<exists>k<32. (8192 :: u32) = 2 ^ k" by (rule exI [of _ 13]) simp
  show "xfer_ok wrap_result sample_mem"
    using k by (simp add: xfer_ok_def xfer_len_def xfer_base_def xfer_off_def sample_mem_def)
  show "xfer_ok wrap_tx_result sample_mem"
    using k by (simp add: xfer_ok_def xfer_len_def xfer_base_def xfer_off_def sample_mem_def
        work_type_defs)
qed

text \<open>Byte 60 of the wrapped payload is the eleventh byte of the receive buffer.\<close>

theorem prepare_dma_cmd_receives_witness:
  "xfer_ok wrap_result sample_mem \<and>
   dma_to_host id (dma_issue DMA_RX_CFG_IDX 0 0 0 (prepare_dma_cmd wrap_result sample_mem 0 no_cmd 0))
     (\<lambda>_. 0) (0x10000000 + 10) = pkt_addr work_rx100 138 + 60"
proof -
  have "host_addr wrap_result sample_mem 60 = 0x10000000 + 10"
    "xfer_off wrap_result = 138" "res_work wrap_result = work_rx100"
    by (simp_all add: host_addr_def xfer_base_def xfer_len_def xfer_off_def sample_mem_def)
       (simp add: wrap_result_def)
  moreover have "(60 :: nat) < unat (res_dma_len wrap_result)" by simp
  ultimately show ?thesis
    using prepare_dma_cmd_receives [OF sample_xfer_ok(1), of id 0 0 0 0 no_cmd 0 "\<lambda>_. 0"] sample_xfer_ok(1)
    by (metis id_apply)
qed

theorem prepare_dma_cmd_transmits_witness:
  "xfer_ok wrap_tx_result sample_mem \<and>
   dma_from_host id (dma_issue DMA_TX_CFG_IDX 0 0 0 (prepare_dma_cmd wrap_tx_result sample_mem 0 no_cmd 0))
     (\<lambda>_. 0) (pkt_addr work_tx 140 + 60) = 0x20000000 + 10"
proof -
  have "host_addr wrap_tx_result sample_mem 60 = 0x20000000 + 10"
    "xfer_off wrap_tx_result = 140" "res_work wrap_tx_result = work_tx"
    by (simp_all add: host_addr_def xfer_base_def xfer_len_def xfer_off_def sample_mem_def work_type_defs)
       (simp add: wrap_tx_result_def)
  moreover have "(60 :: nat) < unat (res_dma_len wrap_tx_result)" by simp
  ultimately show ?thesis
    using prepare_dma_cmd_transmits [OF sample_xfer_ok(2), of id 0 0 0 0 no_cmd 0 "\<lambda>_. 0"] sample_xfer_ok(2)
    by (metis id_apply)
qed

text \<open>
  The first transfer of a wrapped payload adds the position to the low word of the buffer's
  address only: in a buffer that crosses a 4 GiB boundary it goes 4 GiB below its place.
\<close>

theorem wrapped_dma_loses_carry:
  "desc_pcie_addr (hd (dma_issue DMA_RX_CFG_IDX 0 0 0
     (prepare_dma_cmd wrap_result (sample_mem\<lparr>mem_rx_base := 0xFFFFF000\<rparr>) 0 no_cmd 0))) = 0xFCE \<and>
   host_addr wrap_result (sample_mem\<lparr>mem_rx_base := 0xFFFFF000\<rparr>) 0 = 0x100000FCE"
  by (simp add: prepare_dma_cmd_eq Let_def dma_issue_def issue_pkt_dma_2_def has_flag_take_bit_11
      desc_pcie_addr_def host_addr_def xfer_base_def xfer_len_def xfer_off_def sample_mem_def
      bf_get_or bf_get_and bf_get_push_above bf_get_def DMA_CMD_WORD3_def)

subsection \<open>Buffer descriptions are current\<close>

text \<open>Every cached description is the one in memory; the placeholder tags are above all flow ids.\<close>

definition mem_coherent :: "pp_state \<Rightarrow> bool" where
  "mem_coherent s \<longleftrightarrow>
     (\<forall>i<FLOW_MEM_CACHE_SIZE. mem_tag s i < 0x10000 \<longrightarrow> mem_cache s i = flows_mem_info s (mem_tag s i))"

lemma fetch_mem_info_frame:
  assumes "fetch_mem_info f lru s = (i, s')"
  shows "flows_mem_info s' = flows_mem_info s" "flows_cc_info s' = flows_cc_info s"
    "pp_outs s' = pp_outs s" "qm_credits s' = qm_credits s"
  using assms by (auto simp: fetch_mem_info_def handle_mem_cache_miss_def mem_cam_lookup_def Let_def
      split: option.splits if_splits)

lemma fetch_mem_info_current:
  assumes "mem_coherent s" and "lru < FLOW_MEM_CACHE_SIZE" and "f < 0x10000"
    and "fetch_mem_info f lru s = (i, s')"
  shows "mem_cache s' i = flows_mem_info s f" "mem_coherent s'"
  using assms
  by (auto simp: fetch_mem_info_def handle_mem_cache_miss_def mem_cam_lookup_def Let_def mem_coherent_def
      find_Some_iff split: option.splits if_splits)

lemma reset_cache_coherent: "mem_coherent (reset_cache s)"
proof -
  have "\<not> (0xFFFFFFFF - of_nat i :: u32) < 0x10000" if "i < 16" for i
  proof -
    have "unat (of_nat i :: u32) = i" using that by (simp add: unat_of_nat)
    moreover from this have "unat (0xFFFFFFFF - of_nat i :: u32) = 0xFFFFFFFF - i"
      using that by (simp add: unat_sub_exact word_nat)
    ultimately show ?thesis using that by (simp add: word_nat)
  qed
  then show ?thesis by (simp add: mem_coherent_def reset_cache_def FLOW_MEM_CACHE_SIZE_def)
qed

lemma work_flow_id_bound: "work_flow_id w < 0x10000"
  using bf_get_bound [of 16 16 "raw2 w"] by (simp add: work_flow_id_def word_nat)

lemma rx_front_frame [simp]:
  "flows_mem_info (collect_cc_stats r t (push_qm_bump r (prepare_ack_header r t' s))) = flows_mem_info s"
  "mem_cache (collect_cc_stats r t (push_qm_bump r (prepare_ack_header r t' s))) = mem_cache s"
  "mem_tag (collect_cc_stats r t (push_qm_bump r (prepare_ack_header r t' s))) = mem_tag s"
  "arx_desc_ring (collect_cc_stats r t (push_qm_bump r (prepare_ack_header r t' s))) = arx_desc_ring s"
  by (simp_all add: collect_cc_stats_def push_qm_bump_def prepare_ack_header_def upd_cc_def emit_def Let_def)

lemma allocate_arx_desc_frame:
  assumes "allocate_arx_desc r s = Some (d, s')"
  shows "flows_mem_info s' = flows_mem_info s" "mem_cache s' = mem_cache s" "mem_tag s' = mem_tag s"
    "mem_coherent s' = mem_coherent s"
  using assms by (auto simp: allocate_arx_desc_def mem_coherent_def split: if_splits list.splits)

lemma emit_last [simp]: "last (pp_outs (emit m s)) = m"
  by (simp add: emit_def)

lemma emit_coherent [simp]: "mem_coherent (emit m s) = mem_coherent s"
  by (simp add: emit_def mem_coherent_def)

lemma postprocess_rx_command:
  assumes coh: "mem_coherent s" and lru: "lru < FLOW_MEM_CACHE_SIZE"
    and eq: "postprocess_rx r now now' lru dma ret arx s = Some s'"
  shows "mem_coherent s'" "flows_mem_info s' = flows_mem_info s" "\<exists>desc. last (pp_outs s') =
      (let (cmd, rt) = prepare_dma_cmd r (flows_mem_info s (work_flow_id (res_work r))) desc dma ret
       in if rt \<noteq> 0 then Dma_Rx_Excep cmd else Dma_Rx cmd)"
proof -
  let ?s1 = "collect_cc_stats r now' (push_qm_bump r (prepare_ack_header r now s))"
  obtain d s2 where a: "allocate_arx_desc r ?s1 = Some (d, s2)"
    using eq by (auto simp: postprocess_rx_def Let_def split: option.splits)
  obtain i s3 where f: "fetch_mem_info (work_flow_id (res_work r)) lru s2 = (i, s3)" by fastforce
  have "mem_coherent s2"
    using coh allocate_arx_desc_frame(4) [OF a] by (simp add: mem_coherent_def)
  note cur = fetch_mem_info_current [OF this lru work_flow_id_bound f]
  have s': "s' = emit (let (cmd, rt) = prepare_dma_cmd r (mem_cache s3 i) d dma ret
      in if rt \<noteq> 0 then Dma_Rx_Excep cmd else Dma_Rx cmd)
     (if has_flag (res_flags r) WORK_RESULT_DMA_ACDESC
      then emit (Arx_Write d (prepare_arx_desc r (mem_cache s3 i) arx)) s3 else s3)"
    using eq a f
    by (cases "prepare_dma_cmd r (mem_cache s3 i) d dma ret") (simp add: postprocess_rx_def Let_def)
  then show "mem_coherent s'" using cur(2) by simp
  show "flows_mem_info s' = flows_mem_info s"
    unfolding s' by (simp add: fetch_mem_info_frame(1) [OF f] allocate_arx_desc_frame(1) [OF a] emit_def)
  show "\<exists>desc. last (pp_outs s') =
      (let (cmd, rt) = prepare_dma_cmd r (flows_mem_info s (work_flow_id (res_work r))) desc dma ret
       in if rt \<noteq> 0 then Dma_Rx_Excep cmd else Dma_Rx cmd)"
    unfolding s' emit_last cur(1) allocate_arx_desc_frame(1) [OF a] rx_front_frame by blast
qed

lemma postprocess_rx_Some:
  "arx_desc_ring s \<noteq> [] \<Longrightarrow> \<exists>s'. postprocess_rx r now now' lru dma ret arx s = Some s'"
  by (auto simp: postprocess_rx_def allocate_arx_desc_def Let_def split: list.split prod.split)

lemma dma_thread_issue_rx:
  "dma_thread_issue ctx meid signo (let (cmd, rt) = p in if rt \<noteq> 0 then Dma_Rx_Excep cmd else Dma_Rx cmd)
     = dma_issue DMA_RX_CFG_IDX ctx meid signo p"
  by (simp add: dma_thread_issue_def dma_issue_def Let_def split: prod.split)

text \<open>The bytes a received payload reaches in host memory, through the whole stage.\<close>

lemma postprocess_rx_payload:
  fixes ctm host ctx meid signo
  assumes "mem_coherent s" and "lru < FLOW_MEM_CACHE_SIZE"
    and "postprocess_rx r now now' lru dma ret arx s = Some s'"
  defines "fs \<equiv> flows_mem_info s (work_flow_id (res_work r))"
  defines "host' \<equiv> dma_to_host ctm (dma_thread_issue ctx meid signo (last (pp_outs s'))) host"
  assumes "xfer_ok r fs"
  shows "(\<forall>i<unat (res_dma_len r). host' (host_addr r fs i) = ctm (pkt_addr (res_work r) (xfer_off r) + i)) \<and>
    (\<forall>a. (\<forall>i<unat (res_dma_len r). a \<noteq> host_addr r fs i) \<longrightarrow> host' a = host a)"
proof -
  obtain desc where "last (pp_outs s') = (let (cmd, rt) = prepare_dma_cmd r fs desc dma ret
       in if rt \<noteq> 0 then Dma_Rx_Excep cmd else Dma_Rx cmd)"
    using postprocess_rx_command(3) [OF assms(1-3)] unfolding fs_def by blast
  then have "host' = dma_to_host ctm (dma_issue DMA_RX_CFG_IDX ctx meid signo
      (prepare_dma_cmd r fs desc dma ret)) host"
    unfolding host'_def by (simp only: dma_thread_issue_rx)
  with dma_issue_to_host [OF assms(6)] show ?thesis by blast
qed

text \<open>Without a payload neither kind of DMA thread transfers anything, whatever the registers hold.\<close>

lemma prepare_dma_cmd_no_payload:
  assumes "\<not> has_flag (res_flags r) WORK_RESULT_DMA_PAYLOAD"
  shows "dma_issue cfg ctx meid signo (prepare_dma_cmd r fs d dma ret) = []"
  using assms
  by (auto simp: prepare_dma_cmd_def dma_issue_def issue_pkt_dma_def issue_pkt_dma_2_def
      has_flag_take_bit_11 Let_def)

lemma postprocess_rx_no_payload:
  assumes "mem_coherent s" and "lru < FLOW_MEM_CACHE_SIZE"
    and "postprocess_rx r now now' lru dma ret arx s = Some s'"
    and "\<not> has_flag (res_flags r) WORK_RESULT_DMA_PAYLOAD"
  shows "dma_thread_issue ctx meid signo (last (pp_outs s')) = []"
proof -
  obtain desc where "last (pp_outs s') =
      (let (cmd, rt) = prepare_dma_cmd r (flows_mem_info s (work_flow_id (res_work r))) desc dma ret
       in if rt \<noteq> 0 then Dma_Rx_Excep cmd else Dma_Rx cmd)"
    using postprocess_rx_command(3) [OF assms(1-3)] by blast
  then show ?thesis by (simp only: dma_thread_issue_rx prepare_dma_cmd_no_payload [OF assms(4)])
qed

subsection \<open>The outputs of a received packet\<close>

definition rx_front_outs :: "work_result_t \<Rightarrow> u32 \<Rightarrow> pp_state \<Rightarrow> pp_out list" where
  "rx_front_outs r now s =
     (if has_flag (res_flags r) WORK_RESULT_TX
      then [Pkt_Write (io_isl (res_work r) + 32) (io_pnum (res_work r)) 110
              (tcp_hdr_words r (if has_flag (res_flags r) WORK_RESULT_ECE then 80 else 16) now)]
      else []) @
     (if has_flag (res_flags r) WORK_RESULT_QM \<and>
         cc_tx_avail (flows_cc_info s (work_flow_id (res_work r))) = 0
      then [Qm_Bump (flow_grp_mask s OR work_flow_id (res_work r))] else [])"

lemma rx_front_outs:
  "pp_outs (collect_cc_stats r t (push_qm_bump r (prepare_ack_header r now s))) =
     pp_outs s @ rx_front_outs r now s"
  by (simp add: collect_cc_stats_def push_qm_bump_def prepare_ack_header_def upd_cc_def emit_def Let_def
      rx_front_outs_def HDR_FLAG_ACK_def HDR_FLAG_ECE_def PKT_NBI_OFFSET_def MAC_PREPEND_BYTES_def
      NET_ETH_LEN_def NET_IP4_LEN_def)


definition sample_pp :: pp_state where
  "sample_pp = reset_cache \<lparr>
     flows_cc_info = \<lambda>_. \<lparr>cc_tx_avail = 0, cc_tx_rate = 0, cc_rtt_est = 0, cc_txp = 0,
        cc_cnt_tx_drops = 0, cc_cnt_rx_acks = 0, cc_cnt_rx_ack_bytes = 0, cc_cnt_rx_ecn_bytes = 0\<rparr>,
     flows_mem_info = \<lambda>_. sample_mem, mem_tag = \<lambda>_. 0, mem_cache = \<lambda>_. sample_mem, qm_credits = 0,
     arx_desc_ring = [7], flow_grp_mask = 0, pp_outs = []\<rparr>"


subsection \<open>The round-trip estimate\<close>

lemma update_rtt_est:
  assumes "unat (cc_rtt_est cc) \<le> 100000"
  shows "unat (cc_rtt_est (update_rtt now ts cc)) =
    unat (cc_rtt_est cc) - unat (cc_rtt_est cc) div 8 + min 12500 (unat (now - ts) div 512)"
proof -
  let ?o = "cc_rtt_est cc" and ?s = "min (drop_bit 3 TCP_MAX_RTT) (drop_bit 9 (now - ts))"
  have s: "unat ?s = min 12500 (unat (now - ts) div 512)"
    by (simp add: unat_min unat_drop_bit TCP_MAX_RTT_def)
  have d: "unat (drop_bit 3 ?o) = unat ?o div 8" by (simp add: unat_drop_bit)
  have sum: "unat (?o + ?s) = unat ?o + unat ?s" using assms s by (intro unat_add_exact) simp
  have "drop_bit 3 ?o \<le> ?o + ?s" by (simp only: word_le_nat_alt d sum)
  then have "unat (subsat (?o + ?s) (drop_bit 3 ?o)) = unat ?o + unat ?s - unat ?o div 8"
    by (simp add: subsat_def unat_sub_exact d sum)
  then show ?thesis by (simp add: update_rtt_def Let_def s)
qed

text \<open>
  C14. The smoothed round-trip time never leaves the range up to \<open>TCP_MAX_RTT\<close> whatever time
  stamps packets echo, and within it each sample is averaged in with weight 1/8, with no wrap
  and no saturation; every received packet counts one acknowledgement.
\<close>

theorem cc_stats_rtt_bounded:
  assumes "cc_rtt_est cc \<le> TCP_MAX_RTT"
  shows "cc_rtt_est (cc_stats r now cc) \<le> TCP_MAX_RTT \<and>
    unat (cc_rtt_est (cc_stats r now cc)) =
      (if res_ts_val r = 0 then unat (cc_rtt_est cc)
       else unat (cc_rtt_est cc) - unat (cc_rtt_est cc) div 8
              + min 12500 (unat (now - res_ts_val r) div 512)) \<and>
    cc_cnt_rx_acks (cc_stats r now cc) = cc_cnt_rx_acks cc + 1"
proof -
  have old: "unat (cc_rtt_est cc) \<le> 100000" using assms by (simp add: word_nat TCP_MAX_RTT_def)
  obtain cc5 where cc5: "cc_rtt_est cc5 = cc_rtt_est cc" "cc_cnt_rx_acks cc5 = cc_cnt_rx_acks cc + 1"
    "cc_stats r now cc = (if res_ts_val r \<noteq> 0 then update_rtt now (res_ts_val r) cc5 else cc5)"
    by (rule that [OF _ _ cc_stats_def [unfolded Let_def]]) simp_all
  have est: "unat (cc_rtt_est (cc_stats r now cc)) =
      (if res_ts_val r = 0 then unat (cc_rtt_est cc)
       else unat (cc_rtt_est cc) - unat (cc_rtt_est cc) div 8
              + min 12500 (unat (now - res_ts_val r) div 512))"
    using update_rtt_est [of cc5] cc5 old by simp
  have "unat (cc_rtt_est cc) - unat (cc_rtt_est cc) div 8 \<le> 87500" using old by linarith
  then have "unat (cc_rtt_est cc) - unat (cc_rtt_est cc) div 8
      + min 12500 (unat (now - res_ts_val r) div 512) \<le> 87500 + 12500"
    by (intro add_mono) simp_all
  then have "unat (cc_rtt_est (cc_stats r now cc)) \<le> 100000" unfolding est using old by simp
  then show ?thesis
    using est cc5 by (simp add: word_nat TCP_MAX_RTT_def update_rtt_def Let_def)
qed

theorem cc_stats_rtt_bounded_witness:
  "unat (cc_rtt_est (cc_stats (wrap_result\<lparr>res_ts_val := 1000\<rparr>) 513000
     (flows_cc_info sample_pp 1\<lparr>cc_rtt_est := 8000\<rparr>))) = 8000"
  using cc_stats_rtt_bounded [of "flows_cc_info sample_pp 1\<lparr>cc_rtt_est := 8000\<rparr>"
      "wrap_result\<lparr>res_ts_val := 1000\<rparr>" 513000]
  by (simp add: TCP_MAX_RTT_def)

end
