(* ===== verification/Receive_Path.thy ===== *)
theory Receive_Path
  imports Tcp_Recv Postprocess
begin

unbundle bit_operations_syntax

text \<open>
  The receive path from end to end: the protocol stage (\<open>flows_seg\<close>), the postprocessing stage
  and the DMA of the payload, taken one segment after the other, and the application freeing
  what it has read (\<open>flows_ac\<close>). The application is notified of received bytes only when their
  DMA is done (\<open>issue_fwd\<close> runs on its completion), so the memory it sees is the one after
  the DMA.

  The theorem: whatever segments arrive, in any order, cut and repeated in any way, as long as
  those bytes of them that fall into the receive window are the peer's, the bytes delivered to
  the application are the peer's stream, in order and without gaps.
\<close>

subsection \<open>Positions\<close>

lemma unat_mod_pow:
  assumes "k < 32"
  shows "unat (x + y :: u32) mod 2 ^ k = (unat x + unat y) mod 2 ^ k"
    and "unat (of_nat m :: u32) mod 2 ^ k = m mod 2 ^ k"
proof -
  have d: "(2 :: nat) ^ k dvd 2 ^ 32" using assms by (intro le_imp_power_dvd) simp
  then have "(z mod 2 ^ 32) mod 2 ^ k = z mod (2 :: nat) ^ k" for z
    by (simp only: mod_mod_cancel)
  then show "unat (x + y :: u32) mod 2 ^ k = (unat x + unat y) mod 2 ^ k"
    "unat (of_nat m :: u32) mod 2 ^ k = m mod 2 ^ k"
    by (simp_all add: unat_word_ariths unat_of_nat)
qed

text \<open>Two places less than a buffer length apart are different places.\<close>

lemma mod_distinct: "a < b \<Longrightarrow> b < a + L \<Longrightarrow> a mod L \<noteq> b mod (L :: nat)"
proof
  assume "a < b" "b < a + L" "a mod L = b mod L"
  then have "L dvd b - a" by (metis less_imp_le mod_eq_dvd_iff_nat)
  then show False using \<open>a < b\<close> \<open>b < a + L\<close> by (auto dest: dvd_imp_le)
qed

lemma pkt_lo_add:
  assumes "unat off < 2 ^ 16"
  shows "pkt_lo w off = pkt_lo w 0 + off"
proof -
  have "\<not> bit (0x80000000 OR push_bit 16 (io_pnum w) :: u32) i \<or> \<not> bit off i" for i
  proof -
    have eq: "(0x80000000 OR push_bit 16 (io_pnum w) :: u32) = push_bit 16 (0x8000 OR io_pnum w)"
      by (simp add: push_bit_or)
    have "bit (push_bit 16 (0x8000 OR io_pnum w)) i \<Longrightarrow> 16 \<le> i"
      by (auto simp only: bit_push_bit_iff)
    moreover have "bit off i \<Longrightarrow> i < 16" using assms bit_unat_small by blast
    ultimately show ?thesis unfolding eq by auto
  qed
  then show ?thesis by (simp add: pkt_lo_def disjunctive_add or.assoc)
qed

lemma pkt_addr_add:
  assumes "unat off + unat i < 2 ^ 16"
  shows "pkt_addr w (off + i) = pkt_addr w off + unat i"
proof -
  have s: "unat (off + i) = unat off + unat i" using assms by (intro unat_add_exact) simp
  then have "pkt_lo w (off + i) = pkt_lo w off + i"
    using assms pkt_lo_add [of off w] pkt_lo_add [of "off + i" w] by simp
  moreover have "unat (pkt_lo w off + i) = unat (pkt_lo w off) + unat i"
    using pkt_lo_room [of off "unat i" w] assms by (intro unat_add_exact) simp
  ultimately show ?thesis by (simp add: pkt_addr_eq)
qed

subsection \<open>The relation between buffer and stream\<close>

text \<open>The buffer of a flow: its address and length, a power of two inside the host's address space.\<close>

definition rx_buf_ok :: "flowst_mem_t \<Rightarrow> bool" where
  "rx_buf_ok m \<longleftrightarrow>
     (\<exists>k<32. mem_rx_len m = 2 ^ k) \<and>
     unat (mem_rx_base m) + unat (mem_rx_len m) \<le> 2 ^ 40 \<and>
     unat (mem_rx_base m) mod 2 ^ 32 + unat (mem_rx_len m) \<le> 2 ^ 32"

definition rx_place :: "flowst_mem_t \<Rightarrow> nat \<Rightarrow> nat \<Rightarrow> nat" where
  "rx_place m ipos off = unat (mem_rx_base m) + (ipos + off) mod unat (mem_rx_len m)"

text \<open>
  With \<open>n\<close> bytes of the stream \<open>S\<close> delivered so far, of which the application has not yet freed
  the last \<open>rx_len - rx_avail\<close>: these are in their places, and so are the bytes kept out of order.
\<close>

definition rx_rel ::
  "(nat \<Rightarrow> 'b) \<Rightarrow> flowst_mem_t \<Rightarrow> nat \<Rightarrow> nat \<Rightarrow> flowst_tcp_t \<Rightarrow> (nat \<Rightarrow> 'b) \<Rightarrow> bool" where
  "rx_rel S m ipos n fs host \<longleftrightarrow>
     rcv_inv fs \<and> fs_rx_avail fs \<le> mem_rx_len m \<and> fs_rx_next_pos fs = of_nat (ipos + n) \<and>
     (\<forall>off. off < n \<and> n \<le> off + (unat (mem_rx_len m) - unat (fs_rx_avail fs)) \<longrightarrow>
        host (rx_place m ipos off) = S off) \<and>
     (\<forall>i\<in>ooo_set fs. host (rx_place m ipos (n + i)) = S (n + i))"

text \<open>
  A segment is faithful if those of its payload bytes whose sequence numbers lie in the receive
  window are the stream's bytes there. The payload starts 138 bytes into the packet buffer.
\<close>

definition faithful ::
  "(nat \<Rightarrow> 'b) \<Rightarrow> nat \<Rightarrow> flowst_tcp_t \<Rightarrow> work_t \<Rightarrow> pkt_summary_t \<Rightarrow> (nat \<Rightarrow> 'b) \<Rightarrow> bool" where
  "faithful S n fs w p ctm \<longleftrightarrow>
     (\<forall>i<unat (io_plen w).
        let d = unat (pkt_seq p + of_nat i - fs_rx_next_seq fs)
        in d < unat (fs_rx_avail fs) \<longrightarrow> ctm (pkt_addr w 138 + i) = S (n + d))"

lemma rx_place_distinct:
  assumes "a < b" and "b < a + unat (mem_rx_len m)"
  shows "rx_place m ipos a \<noteq> rx_place m ipos b"
  using mod_distinct [of "ipos + a" "ipos + b" "unat (mem_rx_len m)"] assms
  by (simp add: rx_place_def)

text \<open>The payload transfer of a received segment satisfies what the DMA stage relies on.\<close>

lemma seg_xfer_ok:
  assumes buf: "rx_buf_ok m" and avail: "fs_rx_avail fs \<le> mem_rx_len m"
    and con: "rcv_contract fs fs' b (res_flags r) r" and placed: "dma_placed w p fs (res_flags r) r"
    and ty: "work_type (res_work r) = WORK_TYPE_RX"
    and fl: "has_flag (res_flags r) WORK_RESULT_DMA_PAYLOAD"
  shows "xfer_ok r m"
proof -
  have pl: "0 < unat (res_dma_len r)" "unat (res_dma_offset r) + unat (res_dma_len r) < 2048"
    using placed fl io_plen_bound [of w] by (auto simp: dma_placed_def)
  have "unat (res_dma_pos r - fs_rx_next_pos fs) + unat (res_dma_len r) - 1 \<in> dma_set fs (res_flags r) r"
    using fl pl(1) by (auto simp: dma_set_def)
  then have "unat (res_dma_len r) \<le> unat (fs_rx_avail fs)"
    using con pl(1) by (auto simp: rcv_contract_def)
  then have len: "unat (res_dma_len r) \<le> unat (mem_rx_len m)" using avail by (simp add: word_nat)
  have "unat (res_dma_offset r + 138) = unat (res_dma_offset r) + 138"
    using pl(2) by (simp add: unat_add_exact)
  then show ?thesis
    using buf fl pl len ty
    by (simp add: xfer_ok_def rx_buf_ok_def xfer_len_def xfer_base_def xfer_off_def word_nat)
qed

text \<open>Where the DMA of a segment writes, and what.\<close>

lemma seg_dma_place:
  assumes "rx_buf_ok m" and "work_type (res_work r) = WORK_TYPE_RX"
    and "fs_rx_next_pos fs = of_nat (ipos + n)"
  shows "host_addr r m j = rx_place m ipos (n + (unat (res_dma_pos r - fs_rx_next_pos fs) + j))"
proof -
  obtain k where k: "k < 32" "mem_rx_len m = 2 ^ k" using assms(1) by (auto simp: rx_buf_ok_def)
  have L: "unat (mem_rx_len m) = 2 ^ k"
    using k unat_mod_pow(2) [of k "2 ^ k"] power_strict_increasing [OF k(1), of "2 :: nat"]
      unat_of_nat [of "2 ^ k", where ?'a = 32] by simp
  let ?D = "res_dma_pos r - fs_rx_next_pos fs"
  have "unat (res_dma_pos r) mod 2 ^ k = unat (?D + of_nat (ipos + n)) mod 2 ^ k"
    using assms(3) by simp
  also have "\<dots> = (unat ?D + (ipos + n)) mod 2 ^ k"
    by (metis unat_mod_pow(1,2) [OF k(1)] mod_add_right_eq)
  finally have "(unat (res_dma_pos r) + j) mod 2 ^ k = (unat ?D + (ipos + n) + j) mod 2 ^ k"
    by (metis mod_add_left_eq)
  then show ?thesis
    using assms(2) by (simp add: host_addr_def rx_place_def xfer_base_def xfer_len_def L algebra_simps)
qed

lemma seg_dma_byte:
  assumes faith: "faithful S n fs w p ctm" and placed: "dma_placed w p fs (res_flags r) r"
    and fl: "has_flag (res_flags r) WORK_RESULT_DMA_PAYLOAD"
    and w: "pkt_addr (res_work r) = pkt_addr w" "work_type (res_work r) = WORK_TYPE_RX"
    and j: "j < unat (res_dma_len r)"
    and win: "unat (res_dma_pos r - fs_rx_next_pos fs) + j < unat (fs_rx_avail fs)"
  shows "ctm (pkt_addr (res_work r) (xfer_off r) + j) =
    S (n + (unat (res_dma_pos r - fs_rx_next_pos fs) + j))"
proof -
  let ?D = "res_dma_pos r - fs_rx_next_pos fs" and ?o = "res_dma_offset r"
  have pl: "?D = (pkt_seq p + ?o) - fs_rx_next_seq fs"
    "unat ?o + unat (res_dma_len r) \<le> unat (io_plen w)"
    using placed fl by (auto simp: dma_placed_def)
  let ?i = "unat ?o + j"
  have i: "?i < unat (io_plen w)" "?i < 2048" using pl(2) j io_plen_bound [of w] by auto
  have seq: "pkt_seq p + of_nat ?i - fs_rx_next_seq fs = ?D + of_nat j"
    unfolding pl(1) by simp
  have "unat (?D + of_nat j) = unat ?D + j"
    using win unat_of_nat_small [of j "fs_rx_avail fs"] unat_add_le [of ?D "of_nat j" "fs_rx_avail fs"]
    by simp
  then have d: "unat (pkt_seq p + of_nat ?i - fs_rx_next_seq fs) = unat ?D + j"
    unfolding seq .
  have "ctm (pkt_addr w 138 + ?i) = S (n + (unat ?D + j))"
    using faith i(1) d win by (auto simp: faithful_def Let_def)
  moreover have "pkt_addr w (138 + ?o) = pkt_addr w 138 + unat ?o"
    using i(2) by (intro pkt_addr_add) simp
  ultimately show ?thesis using w by (simp add: xfer_off_def add.commute [of ?o] add.assoc)
qed

text \<open>What the DMA of a segment leaves in the buffer: nothing else moves, and its bytes are the stream's.\<close>

definition dma_done ::
  "(nat \<Rightarrow> 'b) \<Rightarrow> flowst_mem_t \<Rightarrow> nat \<Rightarrow> nat \<Rightarrow> nat set \<Rightarrow> (nat \<Rightarrow> 'b) \<Rightarrow> (nat \<Rightarrow> 'b) \<Rightarrow> bool" where
  "dma_done S m ipos n D host host' \<longleftrightarrow>
     (\<forall>i\<in>D. host' (rx_place m ipos (n + i)) = S (n + i)) \<and>
     (\<forall>a. a \<notin> (\<lambda>i. rx_place m ipos (n + i)) ` D \<longrightarrow> host' a = host a)"

lemma rx_rel_step:
  assumes rel: "rx_rel S m ipos n fs host"
    and con: "rcv_contract fs fs' b fl r"
    and dma: "dma_done S m ipos n (dma_set fs fl r) host host'"
  shows "rx_rel S m ipos (n + unat b) fs' host'"
proof -
  let ?L = "unat (mem_rx_len m)" and ?D = "dma_set fs fl r" and ?A = "unat (fs_rx_avail fs)"
  have r: "?A \<le> ?L" "fs_rx_next_pos fs = of_nat (ipos + n)"
    "\<And>off. off < n \<Longrightarrow> n \<le> off + (?L - ?A) \<Longrightarrow> host (rx_place m ipos off) = S off"
    "\<And>i. i \<in> ooo_set fs \<Longrightarrow> host (rx_place m ipos (n + i)) = S (n + i)"
    using rel by (auto simp: rx_rel_def word_nat)
  have c: "rcv_inv fs'" "unat b \<le> ?A" "fs_rx_avail fs' = fs_rx_avail fs - b"
    "fs_rx_next_pos fs' = fs_rx_next_pos fs + b" "\<And>i. i \<in> ?D \<Longrightarrow> i < ?A"
    "\<And>i. i < unat b \<Longrightarrow> i \<in> ooo_set fs \<union> ?D"
    "\<And>i. i \<in> ooo_set fs' \<Longrightarrow> unat b + i \<in> ooo_set fs \<union> ?D"
    using con by (auto simp: rcv_contract_def word_nat)
  have avail': "unat (fs_rx_avail fs') = ?A - unat b" using c(2,3) by (simp add: unat_sub_exact word_nat)
  have ooo_less: "i < ?A" if "i \<in> ooo_set fs" for i
    using rel that by (auto simp: rx_rel_def rcv_inv_def ooo_set_def)
  have new: "host' (rx_place m ipos (n + i)) = S (n + i)" if "i \<in> ooo_set fs \<union> ?D" for i
  proof (cases "i \<in> ?D")
    case True
    then show ?thesis using dma by (simp add: dma_done_def)
  next
    case False
    with that have i: "i \<in> ooo_set fs" by simp
    have "rx_place m ipos (n + i) \<noteq> rx_place m ipos (n + j)" if "j \<in> ?D" for j
      using rx_place_distinct [of "n + i" "n + j" m ipos] rx_place_distinct [of "n + j" "n + i" m ipos]
        ooo_less [OF i] c(5) [OF that] r(1) that False by (cases i j rule: linorder_cases) auto
    then have "host' (rx_place m ipos (n + i)) = host (rx_place m ipos (n + i))"
      using dma by (auto simp: dma_done_def)
    then show ?thesis using r(4) [OF i] by simp
  qed
  have old: "host' (rx_place m ipos off) = S off" if off: "off < n" "n \<le> off + (?L - ?A)" for off
  proof -
    have "rx_place m ipos off \<noteq> rx_place m ipos (n + j)" if "j \<in> ?D" for j
      using rx_place_distinct [of off "n + j" m ipos] c(5) [OF that] r(1) off by simp
    then have "host' (rx_place m ipos off) = host (rx_place m ipos off)"
      using dma by (auto simp: dma_done_def)
    then show ?thesis using r(3) [OF off] by simp
  qed
  have "host' (rx_place m ipos off) = S off"
    if "off < n + unat b" "n + unat b \<le> off + (?L - unat (fs_rx_avail fs'))" for off
  proof (cases "off < n")
    case True
    then show ?thesis using old that c(2) r(1) avail' by simp
  next
    case False
    then show ?thesis using new [OF c(6), of "off - n"] that by simp
  qed
  moreover have "host' (rx_place m ipos (n + unat b + i)) = S (n + unat b + i)" if "i \<in> ooo_set fs'" for i
    using new [OF c(7) [OF that]] by (simp add: add.assoc)
  ultimately show ?thesis
    using c(1,2,4) r(1,2) avail' by (auto simp: rx_rel_def word_nat)
qed

subsection \<open>The path as a system\<close>

record 'b rx_sys =
  sys_fs :: flowst_tcp_t
  sys_pp :: pp_state
  sys_host :: "nat \<Rightarrow> 'b"
  sys_delivered :: nat

text \<open>
  A segment with its packet memory, the application descriptors returned before it, and what the
  stages find in their registers.
\<close>

record 'b seg_input =
  in_work :: work_t
  in_pkt :: pkt_summary_t
  in_ctm :: "nat \<Rightarrow> 'b"
  in_descs :: "u32 list"
  in_prev :: work_result_t
  in_now :: u32
  in_now_rtt :: u32
  in_lru :: nat
  in_dma :: dma_pkt_cmd_t
  in_ret :: u32
  in_arx :: flextcp_pl_arx_t
  in_thread :: "u32 \<times> u32 \<times> u32"

datatype 'b rx_event = Segment "'b seg_input" | App_Bump work_t

definition seg_step :: "'b seg_input \<Rightarrow> 'b rx_sys \<Rightarrow> 'b rx_sys" where
  "seg_step i s =
     (let (fs', r) = flows_seg (in_work i) (in_pkt i) (sys_fs s) (in_prev i);
          pp = sys_pp s\<lparr>arx_desc_ring := arx_desc_ring (sys_pp s) @ in_descs i\<rparr>
      in case postprocess_rx r (in_now i) (in_now_rtt i) (in_lru i) (in_dma i) (in_ret i) (in_arx i) pp of
           None \<Rightarrow> s
         | Some pp' \<Rightarrow>
             (case in_thread i of (ctx, meid, signo) \<Rightarrow>
                \<lparr>sys_fs = fs', sys_pp = pp',
                 sys_host = dma_to_host (in_ctm i) (dma_thread_issue ctx meid signo (last (pp_outs pp')))
                              (sys_host s),
                 sys_delivered = sys_delivered s + unat (res_ac_rx_bump r)\<rparr>))"

definition rx_path_step :: "'b rx_event \<Rightarrow> 'b rx_sys \<Rightarrow> 'b rx_sys" where
  "rx_path_step e s =
     (case e of
        Segment i \<Rightarrow> seg_step i s
      | App_Bump w \<Rightarrow> s\<lparr>sys_fs := fst (flows_ac w (sys_fs s) sample_result)\<rparr>)"

text \<open>
  The environment: segments are of the flow and faithful to the stream, an application
  descriptor is free, and the application frees no more than it was given.
\<close>

definition rx_path_ok :: "(nat \<Rightarrow> 'b) \<Rightarrow> u32 \<Rightarrow> flowst_mem_t \<Rightarrow> 'b rx_event \<Rightarrow> 'b rx_sys \<Rightarrow> bool" where
  "rx_path_ok S flow m e s \<longleftrightarrow>
     (case e of
        Segment i \<Rightarrow>
          work_type (in_work i) = WORK_TYPE_RX \<and> work_flow_id (in_work i) = flow \<and>
          in_lru i < FLOW_MEM_CACHE_SIZE \<and> arx_desc_ring (sys_pp s) @ in_descs i \<noteq> [] \<and>
          faithful S (sys_delivered s) (sys_fs s) (in_work i) (in_pkt i) (in_ctm i)
      | App_Bump w \<Rightarrow>
          unat (ac_rx_bump w) \<le> unat (mem_rx_len m) - unat (fs_rx_avail (sys_fs s)))"

definition rx_path_inv :: "(nat \<Rightarrow> 'b) \<Rightarrow> u32 \<Rightarrow> flowst_mem_t \<Rightarrow> nat \<Rightarrow> 'b rx_sys \<Rightarrow> bool" where
  "rx_path_inv S flow m ipos s \<longleftrightarrow>
     mem_coherent (sys_pp s) \<and> flows_mem_info (sys_pp s) flow = m \<and> rx_buf_ok m \<and>
     rx_rel S m ipos (sys_delivered s) (sys_fs s) (sys_host s)"

lemma flows_seg_res_work: "res_work (snd (flows_seg w p fs r)) = w"
  by (simp add: flows_seg_def flows_seg_process_def flows_seg_inorder_def flows_seg_payload_def
      flows_seg_merge_ooo_def flows_seg_ooo_def flows_seg_fin_def WORK_DMA_OFFSET_LEN_SET_def Let_def
      split: prod.split option.split)

text \<open>The DMA that a segment's result leads to, through postprocessing, is \<open>dma_done\<close>.\<close>

lemma seg_dma_done:
  fixes host :: "nat \<Rightarrow> 'b"
  assumes rel: "rx_rel S m ipos n fs host" and buf: "rx_buf_ok m"
    and faith: "faithful S n fs w p ctm" and ty: "work_type w = WORK_TYPE_RX"
    and seg: "flows_seg w p fs prev = (fs', r)"
    and coh: "mem_coherent pp" and lru: "lru < FLOW_MEM_CACHE_SIZE"
    and mem: "flows_mem_info pp (work_flow_id w) = m"
    and post: "postprocess_rx r now now' lru dma ret arx pp = Some pp'"
  shows "dma_done S m ipos n (dma_set fs (res_flags r) r) host
    (dma_to_host ctm (dma_thread_issue ctx meid signo (last (pp_outs pp'))) host)"
proof -
  let ?host' = "dma_to_host ctm (dma_thread_issue ctx meid signo (last (pp_outs pp'))) host"
  let ?D = "unat (res_dma_pos r - fs_rx_next_pos fs)"
  have inv: "rcv_inv fs" "fs_rx_avail fs \<le> mem_rx_len m" "fs_rx_next_pos fs = of_nat (ipos + n)"
    using rel by (simp_all add: rx_rel_def)
  note con = flows_seg_contract [OF inv(1) seg]
  have w: "res_work r = w" using flows_seg_res_work [of w p fs prev] seg by simp
  show ?thesis
  proof (cases "has_flag (res_flags r) WORK_RESULT_DMA_PAYLOAD")
    case False
    then show ?thesis
      using postprocess_rx_no_payload [OF coh lru post] by (simp add: dma_done_def dma_set_def)
  next
    case True
    have ok: "xfer_ok r m"
      using seg_xfer_ok [OF buf inv(2) conjunct1 [OF con] conjunct1 [OF conjunct2 [OF con]] _ True] ty w
      by simp
    have tyr: "work_type (res_work r) = WORK_TYPE_RX" using ty w by simp
    have D: "dma_set fs (res_flags r) r = {?D ..< ?D + unat (res_dma_len r)}"
      using True by (simp add: dma_set_def)
    note place = seg_dma_place [OF buf tyr inv(3)]
    have bytes: "(\<forall>i<unat (res_dma_len r). ?host' (host_addr r m i) = ctm (pkt_addr w (xfer_off r) + i)) \<and>
      (\<forall>a. (\<forall>i<unat (res_dma_len r). a \<noteq> host_addr r m i) \<longrightarrow> ?host' a = host a)"
      using postprocess_rx_payload [OF coh lru post, of ctm ctx meid signo host] ok w mem by simp
    have "?host' (rx_place m ipos (n + i)) = S (n + i)" if "i \<in> dma_set fs (res_flags r) r" for i
    proof -
      have i: "i - ?D < unat (res_dma_len r)" "?D + (i - ?D) = i" using that D by auto
      moreover have "i < unat (fs_rx_avail fs)" using con that by (auto simp: rcv_contract_def)
      ultimately have "ctm (pkt_addr w (xfer_off r) + (i - ?D)) = S (n + i)"
        using seg_dma_byte [OF faith _ True _ tyr i(1)] con w by simp
      moreover have "host_addr r m (i - ?D) = rx_place m ipos (n + i)"
        using place [of "i - ?D"] by (simp only: i(2))
      ultimately show ?thesis using bytes i(1) by metis
    qed
    moreover have "?host' a = host a"
      if "a \<notin> (\<lambda>i. rx_place m ipos (n + i)) ` dma_set fs (res_flags r) r" for a
      using bytes that place by (auto simp: D image_iff)
    ultimately show ?thesis by (simp add: dma_done_def)
  qed
qed

lemma seg_step_inv:
  assumes inv: "rx_path_inv S flow m ipos s" and ok: "rx_path_ok S flow m (Segment i) s"
  shows "rx_path_inv S flow m ipos (seg_step i s)"
proof -
  let ?pp = "sys_pp s\<lparr>arx_desc_ring := arx_desc_ring (sys_pp s) @ in_descs i\<rparr>"
  obtain fs' r where seg: "flows_seg (in_work i) (in_pkt i) (sys_fs s) (in_prev i) = (fs', r)"
    by fastforce
  obtain ctx meid signo where th: "in_thread i = (ctx, meid, signo)" by (cases "in_thread i")
  have o: "work_type (in_work i) = WORK_TYPE_RX" "work_flow_id (in_work i) = flow"
    "in_lru i < FLOW_MEM_CACHE_SIZE" "arx_desc_ring ?pp \<noteq> []"
    "faithful S (sys_delivered s) (sys_fs s) (in_work i) (in_pkt i) (in_ctm i)"
    using ok by (auto simp: rx_path_ok_def)
  have v: "mem_coherent ?pp" "flows_mem_info ?pp flow = m" "rx_buf_ok m"
    "rx_rel S m ipos (sys_delivered s) (sys_fs s) (sys_host s)"
    using inv by (auto simp: rx_path_inv_def mem_coherent_def)
  obtain pp' where post: "postprocess_rx r (in_now i) (in_now_rtt i) (in_lru i) (in_dma i) (in_ret i)
      (in_arx i) ?pp = Some pp'"
    using postprocess_rx_Some [OF o(4)] by blast
  have "rcv_contract (sys_fs s) fs' (res_ac_rx_bump r) (res_flags r) r"
    using flows_seg_contract [OF _ seg] v(4) by (simp add: rx_rel_def)
  note step = rx_rel_step [OF v(4) this
      seg_dma_done [OF v(4,3) o(5,1) seg v(1) o(3) _ post, of ctx meid signo]]
  show ?thesis
    using step o(2) v(2,3) postprocess_rx_command(1,2) [OF v(1) o(3) post]
    by (simp add: rx_path_inv_def seg_step_def seg post th Let_def)
qed

lemma app_bump_inv:
  assumes inv: "rx_path_inv S flow m ipos s" and ok: "rx_path_ok S flow m (App_Bump w) s"
  shows "rx_path_inv S flow m ipos (s\<lparr>sys_fs := fst (flows_ac w (sys_fs s) sample_result)\<rparr>)"
proof -
  let ?fs = "sys_fs s" and ?fs' = "fst (flows_ac w (sys_fs s) sample_result)"
  have le: "unat (fs_rx_avail ?fs) + unat (ac_rx_bump w) \<le> unat (mem_rx_len m)"
    using ok inv by (auto simp: rx_path_ok_def rx_path_inv_def rx_rel_def word_nat)
  have f: "fs_rx_avail ?fs' = fs_rx_avail ?fs + ac_rx_bump w" "fs_rx_next_pos ?fs' = fs_rx_next_pos ?fs"
    "ooo_set ?fs' = ooo_set ?fs"
    by (simp_all add: flows_ac_def ooo_set_def ooo_off_def Let_def split: prod.split)
  have avail: "unat (fs_rx_avail ?fs') = unat (fs_rx_avail ?fs) + unat (ac_rx_bump w)"
    unfolding f(1) using le by (rule unat_add_le)
  have "rcv_inv ?fs'"
    using inv le unat_u32_less [of "mem_rx_len m"]
    by (intro flows_ac_rcv_inv) (auto simp: rx_path_inv_def rx_rel_def)
  then show ?thesis
    using inv le f avail by (auto simp: rx_path_inv_def rx_rel_def word_nat)
qed

interpretation rx_path: invariant_system rx_path_step "rx_path_ok S flow m" "rx_path_inv S flow m ipos"
  for S flow m ipos
  by unfold_locales (auto simp: rx_path_step_def seg_step_inv app_bump_inv split: rx_event.split)

end
