(* ===== verification/Dma_Loops.thy ===== *)
theory Dma_Loops
  imports Postprocess
begin

unbundle bit_operations_syntax

text \<open>
  The loops of the DMA threads (\<open>loop\<close> in \<open>dma_rx.c\<close> and \<open>dma_tx.c\<close>, \<open>loop_rx\<close> and \<open>loop_tx\<close> in
  \<open>dma_rxtx.c\<close>). A thread has 4 (or 2) registers for commands, each with its completion signal.
  Its labels \<open>state_P_Q\<close> give the next register and the number of DMAs in flight; at each label
  it waits for a command in register \<open>P\<close> or the completion of the oldest DMA. The labels and
  their branches are tables here, copied from the code.

  The work queue serves the fetches of a thread in the order they were made, which is the order
  of the registers, so the command a label finds is the next one of the queue. An event of the
  model says which of the two awaited signals are set; a completion is the one awaited, whatever
  the order in which DMAs complete.

  The lemmas show each loop to be a FIFO of 4 (or 2) entries: every command is issued once, and
  its packet is forwarded once, in the order of the commands, from its own saved words.
\<close>

record fwd_info_t =
  fwd_raw0 :: u32
  fwd_raw1 :: u32
  fwd_raw2 :: u32
  fwd_raw3 :: u32

definition fwd_cbs :: "fwd_info_t \<Rightarrow> u32" where "fwd_cbs f = bf_get 28 2 (fwd_raw0 f)"
definition fwd_isl :: "fwd_info_t \<Rightarrow> u32" where "fwd_isl f = bf_get 26 2 (fwd_raw0 f)"
definition fwd_pnum :: "fwd_info_t \<Rightarrow> u32" where "fwd_pnum f = bf_get 16 10 (fwd_raw0 f)"
definition fwd_seq :: "fwd_info_t \<Rightarrow> u32" where "fwd_seq f = bf_get 0 16 (fwd_raw0 f)"
definition fwd_bls :: "fwd_info_t \<Rightarrow> u32" where "fwd_bls f = bf_get 29 2 (fwd_raw1 f)"
definition fwd_muptr :: "fwd_info_t \<Rightarrow> u32" where "fwd_muptr f = bf_get 0 29 (fwd_raw1 f)"
definition fwd_seqr :: "fwd_info_t \<Rightarrow> u32" where "fwd_seqr f = bf_get 11 5 (fwd_raw2 f)"
definition fwd_plen :: "fwd_info_t \<Rightarrow> u32" where "fwd_plen f = bf_get 0 11 (fwd_raw2 f)"
definition fwd_flags :: "fwd_info_t \<Rightarrow> u32" where "fwd_flags f = bf_get 0 11 (fwd_raw3 f)"

definition backup_fwd_info :: "dma_pkt_cmd_t \<Rightarrow> fwd_info_t" where
  "backup_fwd_info cmd =
     \<lparr>fwd_raw0 = cmd_raw0 cmd, fwd_raw1 = cmd_raw1 cmd, fwd_raw2 = cmd_raw2 cmd, fwd_raw3 = cmd_raw7 cmd\<rparr>"

definition issue_fwd_rx :: "fwd_info_t \<Rightarrow> pp_out list" where
  "issue_fwd_rx fwd =
     (let msi = PKT_NBI_OFFSET + MAC_PREPEND_BYTES - 4
      in (if has_flag (fwd_flags fwd) WORK_RESULT_TX
          then [Nbi_Send msi (fwd_isl fwd + 32) (fwd_pnum fwd) (NET_HDR_LEN + 4) (fwd_seqr fwd)
                  (fwd_seq fwd) (fwd_cbs fwd)]
          else [Nbi_Drop msi (fwd_isl fwd + 32) (fwd_pnum fwd) (NET_HDR_LEN + 4) (fwd_seqr fwd)
                  (fwd_seq fwd) (fwd_cbs fwd),
                Blm_Free (fwd_muptr fwd) (fwd_bls fwd),
                Ctm_Free (fwd_isl fwd + 32) (fwd_pnum fwd)]) @
         (if has_flag (fwd_flags fwd) WORK_RESULT_DMA_ACDESC then [Arx_Work (fwd_raw3 fwd)] else []))"

definition issue_fwd_tx :: "fwd_info_t \<Rightarrow> pp_out list" where
  "issue_fwd_tx fwd =
     [Nbi_Send (PKT_NBI_OFFSET + MAC_PREPEND_BYTES - 2) (fwd_isl fwd + 32) (fwd_pnum fwd)
        (fwd_plen fwd + NET_HDR_LEN + 4) (fwd_seqr fwd) (fwd_seq fwd) PKTBUF_CTM_SIZE]"

subsection \<open>The labels\<close>

text \<open>
  A label's branches: \<open>PROC_CMD(X, P, Q)\<close> and \<open>PROC_DMA(X, P, Q)\<close>, each with its register and
  the label it jumps to.
\<close>

type_synonym branch = "nat \<times> nat \<times> nat"
type_synonym loop_table = "((nat \<times> nat) \<times> branch option \<times> branch option) list"

definition dma_rx_loop :: loop_table where
  "dma_rx_loop =
    [((0, 0), Some (0, 1, 1), None),
     ((0, 1), Some (0, 1, 2), Some (3, 0, 0)),
     ((0, 2), Some (0, 1, 3), Some (2, 0, 1)),
     ((0, 3), Some (0, 1, 4), Some (1, 0, 2)),
     ((0, 4), None,           Some (0, 0, 3)),
     ((1, 0), Some (1, 2, 1), None),
     ((1, 1), Some (1, 2, 2), Some (0, 1, 0)),
     ((1, 2), Some (1, 2, 3), Some (3, 1, 1)),
     ((1, 3), Some (1, 2, 4), Some (2, 1, 2)),
     ((1, 4), None,           Some (1, 1, 3)),
     ((2, 0), Some (2, 3, 1), None),
     ((2, 1), Some (2, 3, 2), Some (1, 2, 0)),
     ((2, 2), Some (2, 3, 3), Some (0, 2, 1)),
     ((2, 3), Some (2, 3, 4), Some (3, 2, 2)),
     ((2, 4), None,           Some (2, 2, 3)),
     ((3, 0), Some (3, 0, 1), None),
     ((3, 1), Some (3, 0, 2), Some (2, 3, 0)),
     ((3, 2), Some (3, 0, 3), Some (1, 3, 1)),
     ((3, 3), Some (3, 0, 4), Some (0, 3, 2)),
     ((3, 4), None,           Some (3, 3, 3))]"

definition dma_tx_loop :: loop_table where
  "dma_tx_loop =
    [((0, 0), Some (0, 1, 1), None),
     ((0, 1), Some (0, 1, 2), Some (3, 0, 0)),
     ((0, 2), Some (0, 1, 3), Some (2, 0, 1)),
     ((0, 3), Some (0, 1, 4), Some (1, 0, 2)),
     ((0, 4), None,           Some (0, 0, 3)),
     ((1, 0), Some (1, 2, 1), None),
     ((1, 1), Some (1, 2, 2), Some (0, 1, 0)),
     ((1, 2), Some (1, 2, 3), Some (3, 1, 1)),
     ((1, 3), Some (1, 2, 4), Some (2, 1, 2)),
     ((1, 4), None,           Some (1, 1, 3)),
     ((2, 0), Some (2, 3, 1), None),
     ((2, 1), Some (2, 3, 2), Some (1, 2, 0)),
     ((2, 2), Some (2, 3, 3), Some (0, 2, 1)),
     ((2, 3), Some (2, 3, 4), Some (3, 2, 2)),
     ((2, 4), None,           Some (2, 2, 3)),
     ((3, 0), Some (3, 0, 1), None),
     ((3, 1), Some (3, 0, 2), Some (2, 3, 0)),
     ((3, 2), Some (3, 0, 3), Some (1, 3, 1)),
     ((3, 3), Some (3, 0, 4), Some (0, 3, 2)),
     ((3, 4), None,           Some (3, 3, 3))]"

definition loop_tx_excep :: loop_table where
  "loop_tx_excep =
    [((0, 0), Some (0, 1, 1), None),
     ((0, 1), Some (0, 1, 2), Some (1, 0, 0)),
     ((0, 2), None,           Some (0, 0, 1)),
     ((1, 0), Some (1, 0, 1), None),
     ((1, 1), Some (1, 0, 2), Some (0, 1, 0)),
     ((1, 2), None,           Some (1, 1, 1))]"

definition loop_rx_excep :: loop_table where
  "loop_rx_excep =
    [((0, 0), Some (0, 1, 1), None),
     ((0, 1), Some (0, 1, 2), Some (1, 0, 0)),
     ((0, 2), None,           Some (0, 0, 1)),
     ((1, 0), Some (1, 0, 1), None),
     ((1, 1), Some (1, 0, 2), Some (0, 1, 0)),
     ((1, 2), None,           Some (1, 1, 1))]"

subsection \<open>Running a loop\<close>

record dma_loop_state =
  lp_label :: "nat \<times> nat"
  lp_backup :: "nat \<Rightarrow> fwd_info_t"
  lp_enq :: "nfp_pcie_dma_cmd list"
  lp_out :: "pp_out list"

text \<open>The command in the awaited register, if its signal is set, and whether the awaited DMA is done.\<close>

type_synonym loop_event = "dma_pkt_cmd_t option \<times> bool"

definition proc_cmd ::
  "(dma_pkt_cmd_t \<Rightarrow> nat \<Rightarrow> nfp_pcie_dma_cmd list) \<Rightarrow> dma_pkt_cmd_t \<Rightarrow> branch \<Rightarrow> dma_loop_state \<Rightarrow>
     dma_loop_state" where
  "proc_cmd issue c b s =
     (let (X, P, Q) = b
      in s\<lparr>lp_label := (P, Q), lp_backup := (lp_backup s)(X := backup_fwd_info c),
           lp_enq := lp_enq s @ issue c X\<rparr>)"

definition proc_dma :: "(fwd_info_t \<Rightarrow> pp_out list) \<Rightarrow> branch \<Rightarrow> dma_loop_state \<Rightarrow> dma_loop_state" where
  "proc_dma forward b s =
     (let (X, P, Q) = b
      in s\<lparr>lp_label := (P, Q), lp_out := lp_out s @ forward (lp_backup s X)\<rparr>)"

definition loop_step ::
  "loop_table \<Rightarrow> (dma_pkt_cmd_t \<Rightarrow> nat \<Rightarrow> nfp_pcie_dma_cmd list) \<Rightarrow> (fwd_info_t \<Rightarrow> pp_out list) \<Rightarrow>
     loop_event \<Rightarrow> dma_loop_state \<Rightarrow> dma_loop_state" where
  "loop_step tab issue forward ev s =
     (case map_of tab (lp_label s) of
        None \<Rightarrow> s
      | Some (cb, db) \<Rightarrow>
          (case (cb, fst ev) of
             (Some b, Some c) \<Rightarrow> proc_cmd issue c b s
           | _ \<Rightarrow> (case db of Some b \<Rightarrow> if snd ev then proc_dma forward b s else s | None \<Rightarrow> s)))"

definition loop_start :: dma_loop_state where
  "loop_start = \<lparr>lp_label = (0, 0), lp_backup = \<lambda>_. \<lparr>fwd_raw0 = 0, fwd_raw1 = 0, fwd_raw2 = 0, fwd_raw3 = 0\<rparr>,
     lp_enq = [], lp_out = []\<rparr>"

subsection \<open>The specification: a bounded FIFO\<close>

datatype fifo_label = Issue dma_pkt_cmd_t | Forward | Wait

text \<open>The state is the commands issued so far and how many of their packets were forwarded.\<close>

inductive fifo_step :: "nat \<Rightarrow> dma_pkt_cmd_t list \<times> nat \<Rightarrow> fifo_label \<Rightarrow> dma_pkt_cmd_t list \<times> nat \<Rightarrow> bool"
  for n where
  issue: "length cs - k < n \<Longrightarrow> fifo_step n (cs, k) (Issue c) (cs @ [c], k)"
| forward: "k < length cs \<Longrightarrow> fifo_step n (cs, k) Forward (cs, Suc k)"
| wait: "fifo_step n (cs, k) Wait (cs, k)"

inductive_cases fifo_IssueE [elim!]: "fifo_step n a (Issue c) b"
inductive_cases fifo_ForwardE [elim!]: "fifo_step n a Forward b"
inductive_cases fifo_WaitE [elim!]: "fifo_step n a Wait b"

fun issued :: "fifo_label list \<Rightarrow> dma_pkt_cmd_t list" where
  "issued [] = []"
| "issued (Issue c # ls) = c # issued ls"
| "issued (_ # ls) = issued ls"

definition forwarded :: "fifo_label list \<Rightarrow> nat" where
  "forwarded ls = length (filter (\<lambda>l. l = Forward) ls)"

lemma fifo_steps_trace:
  "steps (fifo_step n) a ls b \<Longrightarrow> fst b = fst a @ issued ls \<and> snd b = snd a + forwarded ls"
proof (induction ls arbitrary: a)
  case Nil
  then show ?case by (simp add: forwarded_def)
next
  case (Cons l ls)
  then obtain c where "fifo_step n a l c" "steps (fifo_step n) c ls b" by auto
  with Cons.IH [of c] show ?case by (cases l) (auto simp: forwarded_def)
qed

definition loop_obs :: "loop_table \<Rightarrow> loop_event \<Rightarrow> dma_loop_state \<Rightarrow> fifo_label" where
  "loop_obs tab ev s =
     (case map_of tab (lp_label s) of
        None \<Rightarrow> Wait
      | Some (cb, db) \<Rightarrow>
          (case (cb, fst ev) of
             (Some b, Some c) \<Rightarrow> Issue c
           | _ \<Rightarrow> (case db of Some b \<Rightarrow> if snd ev then Forward else Wait | None \<Rightarrow> Wait)))"

text \<open>Command \<open>j\<close> uses register \<open>j mod n\<close>.\<close>

definition issue_all ::
  "nat \<Rightarrow> (dma_pkt_cmd_t \<Rightarrow> nat \<Rightarrow> nfp_pcie_dma_cmd list) \<Rightarrow> dma_pkt_cmd_t list \<Rightarrow> nfp_pcie_dma_cmd list" where
  "issue_all n issue cs = concat (map (\<lambda>j. issue (cs ! j) (j mod n)) [0..<length cs])"

lemma issue_all_snoc: "issue_all n issue (cs @ [c]) = issue_all n issue cs @ issue c (length cs mod n)"
proof -
  have "map (\<lambda>j. issue ((cs @ [c]) ! j) (j mod n)) [0..<length cs] =
      map (\<lambda>j. issue (cs ! j) (j mod n)) [0..<length cs]"
    by (rule map_cong) (simp_all add: nth_append)
  then show ?thesis by (simp add: issue_all_def del: map_eq_conv)
qed

definition fifo_rel ::
  "nat \<Rightarrow> (dma_pkt_cmd_t \<Rightarrow> nat \<Rightarrow> nfp_pcie_dma_cmd list) \<Rightarrow> (fwd_info_t \<Rightarrow> pp_out list) \<Rightarrow>
     dma_pkt_cmd_t list \<times> nat \<Rightarrow> dma_loop_state \<Rightarrow> bool" where
  "fifo_rel n issue forward a s \<longleftrightarrow>
     (let (cs, k) = a
      in k \<le> length cs \<and> length cs \<le> k + n \<and>
         lp_label s = (length cs mod n, length cs - k) \<and>
         (\<forall>j. k \<le> j \<and> j < length cs \<longrightarrow> lp_backup s (j mod n) = backup_fwd_info (cs ! j)) \<and>
         lp_enq s = issue_all n issue cs \<and>
         lp_out s = concat (map (\<lambda>c. forward (backup_fwd_info c)) (take k cs)))"

definition ring_table :: "nat \<Rightarrow> loop_table \<Rightarrow> bool" where
  "ring_table n tab \<longleftrightarrow>
     (\<forall>P<n. \<forall>Q\<le>n. map_of tab (P, Q) =
       Some (if Q < n then Some (P, Suc P mod n, Suc Q) else None,
             if 0 < Q then Some ((P + n - Q) mod n, P, Q - 1) else None))"

lemma oldest_register:
  assumes "k \<le> l" and "l \<le> k + n" and "0 < n"
  shows "(l mod n + n - (l - k)) mod n = k mod (n :: nat)"
proof -
  have "(l mod n + n - (l - k) + (l - k)) mod n = l mod n"
    using assms by simp
  moreover have "(k + (l - k)) mod n = l mod n" using assms by simp
  ultimately have "(l mod n + n - (l - k) + (l - k)) mod n = (k + (l - k)) mod n" by simp
  then have "(int (l mod n + n - (l - k)) + int (l - k)) mod int n = (int k + int (l - k)) mod int n"
    by (metis of_nat_add of_nat_mod)
  then have "int (l mod n + n - (l - k)) mod int n = int k mod int n"
    by (metis add_diff_cancel_right' mod_diff_left_eq)
  then show ?thesis by (metis of_nat_eq_iff of_nat_mod)
qed

lemma free_register:
  assumes "k \<le> j" and "j < l" and "l < k + n"
  shows "j mod n \<noteq> l mod (n :: nat)"
proof
  assume "j mod n = l mod n"
  then have "n dvd l - j" using assms by (metis less_imp_le mod_eq_dvd_iff_nat)
  then show False using assms by (auto dest: dvd_imp_le)
qed

locale ring_loop =
  fixes n :: nat and tab :: loop_table
    and issue :: "dma_pkt_cmd_t \<Rightarrow> nat \<Rightarrow> nfp_pcie_dma_cmd list"
    and forward :: "fwd_info_t \<Rightarrow> pp_out list"
  assumes regs: "0 < n" and table: "ring_table n tab"
begin

lemma label_branches:
  assumes "fifo_rel n issue forward (cs, k) s"
  shows "map_of tab (lp_label s) =
    Some (if length cs < k + n then Some (length cs mod n, Suc (length cs) mod n, Suc (length cs - k)) else None,
          if k < length cs then Some (k mod n, length cs mod n, length cs - Suc k) else None)"
proof -
  have r: "k \<le> length cs" "length cs \<le> k + n" "lp_label s = (length cs mod n, length cs - k)"
    using assms by (auto simp: fifo_rel_def)
  have "length cs mod n < n" "length cs - k \<le> n" using r regs by auto
  then have "map_of tab (lp_label s) =
      Some (if length cs - k < n then Some (length cs mod n, Suc (length cs mod n) mod n, Suc (length cs - k)) else None,
            if 0 < length cs - k then Some ((length cs mod n + n - (length cs - k)) mod n, length cs mod n, length cs - k - 1) else None)"
    using table r(3) by (simp add: ring_table_def)
  then show ?thesis
    using oldest_register [OF r(1,2) regs] r(1) by (simp add: mod_Suc_eq less_diff_conv2)
qed

lemma loop_sim:
  assumes rel: "fifo_rel n issue forward a s"
  shows "\<exists>a'. fifo_step n a (loop_obs tab ev s) a' \<and>
    fifo_rel n issue forward a' (loop_step tab issue forward ev s)"
proof -
  obtain cs k where a: "a = (cs, k)" by (cases a)
  note lab = label_branches [OF rel [unfolded a]]
  consider (issue) c where "fst ev = Some c" "length cs < k + n"
    | (forward) "fst ev = None \<or> \<not> length cs < k + n" "k < length cs" "snd ev"
    | (wait) "fst ev = None \<or> \<not> length cs < k + n" "\<not> (k < length cs \<and> snd ev)"
    by (cases "fst ev") auto
  then show ?thesis
  proof cases
    case issue
    have "fifo_step n a (Issue c) (cs @ [c], k)"
      using issue(2) rel regs unfolding a by (intro fifo_step.issue) (auto simp: fifo_rel_def)
    moreover have "fifo_rel n issue forward (cs @ [c], k)
        (proc_cmd issue c (length cs mod n, Suc (length cs) mod n, Suc (length cs - k)) s)"
      using rel issue(2) free_register [of k _ "length cs" n]
      unfolding a
      by (auto simp: fifo_rel_def proc_cmd_def issue_all_snoc nth_append Suc_diff_le less_Suc_eq)
    moreover have "loop_obs tab ev s = Issue c" "loop_step tab issue forward ev s =
        proc_cmd issue c (length cs mod n, Suc (length cs) mod n, Suc (length cs - k)) s"
      using lab issue by (simp_all add: loop_obs_def loop_step_def)
    ultimately show ?thesis by metis
  next
    case forward
    have "fifo_step n a Forward (cs, Suc k)"
      using forward(2) unfolding a by (rule fifo_step.forward)
    moreover have "fifo_rel n issue forward (cs, Suc k)
        (proc_dma forward (k mod n, length cs mod n, length cs - Suc k) s)"
      using rel forward(2) unfolding a by (auto simp: fifo_rel_def proc_dma_def take_Suc_conv_app_nth)
    moreover have "loop_obs tab ev s = Forward" "loop_step tab issue forward ev s =
        proc_dma forward (k mod n, length cs mod n, length cs - Suc k) s"
      using lab forward by (auto simp: loop_obs_def loop_step_def split: option.split)
    ultimately show ?thesis by metis
  next
    case wait
    have "loop_obs tab ev s = Wait" "loop_step tab issue forward ev s = s"
      using lab wait by (auto simp: loop_obs_def loop_step_def split: option.split)
    then show ?thesis using rel unfolding a by (auto intro: fifo_step.wait)
  qed
qed

end

sublocale ring_loop \<subseteq> fifo: simulation "loop_step tab issue forward" "\<lambda>_ _. True" "loop_obs tab"
  "fifo_step n" "fifo_rel n issue forward"
  by unfold_locales (rule loop_sim)

definition in_order ::
  "nat \<Rightarrow> loop_table \<Rightarrow> (dma_pkt_cmd_t \<Rightarrow> nat \<Rightarrow> nfp_pcie_dma_cmd list) \<Rightarrow> (fwd_info_t \<Rightarrow> pp_out list) \<Rightarrow>
     fifo_label list \<Rightarrow> dma_loop_state \<Rightarrow> bool" where
  "in_order n tab issue forward ls s \<longleftrightarrow>
     forwarded ls \<le> length (issued ls) \<and> length (issued ls) \<le> forwarded ls + n \<and>
     lp_enq s = issue_all n issue (issued ls) \<and>
     lp_out s = concat (map (\<lambda>c. forward (backup_fwd_info c)) (take (forwarded ls) (issued ls))) \<and>
     (\<forall>c b. length (issued ls) < forwarded ls + n \<longrightarrow> loop_obs tab (Some c, b) s = Issue c) \<and>
     (forwarded ls < length (issued ls) \<longrightarrow> loop_obs tab (None, True) s = Forward)"

lemma run_ok_True: "run_ok step (\<lambda>_ _. True) es s"
  by (induction es arbitrary: s) auto

context ring_loop
begin

lemma run_in_order:
  "in_order n tab issue forward (run_obs (loop_step tab issue forward) (loop_obs tab) es loop_start)
     (run (loop_step tab issue forward) es loop_start)"
proof -
  have "fifo_rel n issue forward ([], 0) loop_start"
    by (simp add: fifo_rel_def loop_start_def issue_all_def)
  from fifo.run_sim [OF this run_ok_True] obtain a' where
    st: "steps (fifo_step n) ([], 0) (run_obs (loop_step tab issue forward) (loop_obs tab) es loop_start) a'"
    and rel: "fifo_rel n issue forward a' (run (loop_step tab issue forward) es loop_start)"
    by blast
  obtain cs k where a': "a' = (cs, k)" by (cases a')
  from label_branches [OF rel [unfolded a']] fifo_steps_trace [OF st] rel a' show ?thesis
    by (auto simp: fifo_rel_def in_order_def loop_obs_def)
qed

end

lemma ring_tables:
  "ring_table 4 dma_rx_loop" "ring_table 4 dma_tx_loop" "ring_table 2 loop_rx_excep"
  "ring_table 2 loop_tx_excep"
  by code_simp+

definition issue_of :: "u32 \<Rightarrow> u32 \<Rightarrow> u32 \<Rightarrow> u32 \<Rightarrow> (nat \<Rightarrow> u32) \<Rightarrow> dma_pkt_cmd_t \<Rightarrow> nat \<Rightarrow> nfp_pcie_dma_cmd list" where
  "issue_of cfg ret ctx meid sig c X = dma_issue cfg ctx meid (sig X) (c, ret)"

interpretation rx_loop: ring_loop 4 dma_rx_loop "issue_of DMA_RX_CFG_IDX 0 ctx meid sig" issue_fwd_rx
  for ctx meid sig by unfold_locales (simp_all add: ring_tables)

interpretation tx_loop: ring_loop 4 dma_tx_loop "issue_of DMA_TX_CFG_IDX 0 ctx meid sig" issue_fwd_tx
  for ctx meid sig by unfold_locales (simp_all add: ring_tables)

interpretation rx_excep: ring_loop 2 loop_rx_excep "issue_of DMA_RX_CFG_IDX 1 ctx meid sig" issue_fwd_rx
  for ctx meid sig by unfold_locales (simp_all add: ring_tables)

interpretation tx_excep: ring_loop 2 loop_tx_excep "issue_of DMA_TX_CFG_IDX 1 ctx meid sig" issue_fwd_tx
  for ctx meid sig by unfold_locales (simp_all add: ring_tables)

text \<open>
  C11. Each of the four DMA loops, from its first label, for any order in which commands arrive
  and DMAs complete: all commands taken are issued in the order taken, the packets forwarded
  are exactly those of a prefix of these commands, in the same order and each from its own
  command's words, at most 4 (2 in the loops for wrapped payloads) are in flight, so no
  register is reused before its packet is forwarded. A command is always taken while fewer are
  in flight, and a completion always served when one is.
\<close>

theorem dma_loops_in_order:
  "in_order 4 dma_rx_loop (issue_of DMA_RX_CFG_IDX 0 ctx meid sig) issue_fwd_rx
     (run_obs (loop_step dma_rx_loop (issue_of DMA_RX_CFG_IDX 0 ctx meid sig) issue_fwd_rx)
       (loop_obs dma_rx_loop) es loop_start)
     (run (loop_step dma_rx_loop (issue_of DMA_RX_CFG_IDX 0 ctx meid sig) issue_fwd_rx) es loop_start) \<and>
   in_order 4 dma_tx_loop (issue_of DMA_TX_CFG_IDX 0 ctx meid sig) issue_fwd_tx
     (run_obs (loop_step dma_tx_loop (issue_of DMA_TX_CFG_IDX 0 ctx meid sig) issue_fwd_tx)
       (loop_obs dma_tx_loop) es loop_start)
     (run (loop_step dma_tx_loop (issue_of DMA_TX_CFG_IDX 0 ctx meid sig) issue_fwd_tx) es loop_start) \<and>
   in_order 2 loop_rx_excep (issue_of DMA_RX_CFG_IDX 1 ctx meid sig) issue_fwd_rx
     (run_obs (loop_step loop_rx_excep (issue_of DMA_RX_CFG_IDX 1 ctx meid sig) issue_fwd_rx)
       (loop_obs loop_rx_excep) es loop_start)
     (run (loop_step loop_rx_excep (issue_of DMA_RX_CFG_IDX 1 ctx meid sig) issue_fwd_rx) es loop_start) \<and>
   in_order 2 loop_tx_excep (issue_of DMA_TX_CFG_IDX 1 ctx meid sig) issue_fwd_tx
     (run_obs (loop_step loop_tx_excep (issue_of DMA_TX_CFG_IDX 1 ctx meid sig) issue_fwd_tx)
       (loop_obs loop_tx_excep) es loop_start)
     (run (loop_step loop_tx_excep (issue_of DMA_TX_CFG_IDX 1 ctx meid sig) issue_fwd_tx) es loop_start)"
  by (intro conjI rx_loop.run_in_order tx_loop.run_in_order rx_excep.run_in_order tx_excep.run_in_order)

end
