(* ===== verification/Timeouts.thy ===== *)
theory Timeouts
  imports Flextoe_Prelude
begin

unbundle bit_operations_syntax

text \<open>
  Timers, \<open>util/timeout.c\<close>: a manager with two doubly linked lists of timeout objects, the pending
  ones in the order they will expire and the due ones in the order they expired. An object is a
  cell of a heap, a pointer an optional address (\<open>None\<close> is \<open>NULL\<close>); times have 28 bits and wrap.

  The first group of lemmas shows that the pointer operations implement operations on two lists,
  and that the loops end. The second relates the wrapped times to deadlines on an unbounded
  clock: no timeout becomes due before its deadline, those due at a poll all do, in the order of
  their deadlines.
\<close>

subsection \<open>Data\<close>

record timeout =
  timeout_type :: u32
  t_next :: "addr option"
  t_prev :: "addr option"

record timeout_manager =
  timeouts_first :: "addr option"
  timeouts_last :: "addr option"
  due_first :: "addr option"
  due_last :: "addr option"
  tm_heap :: "addr \<Rightarrow> timeout"

definition TIMEOUT_BITS :: nat where "TIMEOUT_BITS = 28"
definition TIMEOUT_MASK :: u32 where "TIMEOUT_MASK = 0xFFFFFFF"
definition MAX_TIMEOUTS :: nat where "MAX_TIMEOUTS = 64"

datatype tm_error = Arm_Range | Disarm_First | Disarm_Last

definition util_timeout_init :: "timeout_manager \<Rightarrow> timeout_manager" where
  "util_timeout_init mgr =
     mgr\<lparr>timeouts_first := None, timeouts_last := None, due_first := None, due_last := None\<rparr>"

text \<open>The difference of two 28-bit times as a 32-bit word, to be read as signed.\<close>

definition rel_time :: "u32 \<Rightarrow> u32 \<Rightarrow> u32" where
  "rel_time cur_ts to_type =
     (let middle = 0x8000000; to_ts = to_type AND TIMEOUT_MASK
      in if cur_ts < middle then
           let start = (cur_ts - middle) AND TIMEOUT_MASK; e = 0x10000000
           in if start \<le> to_ts \<and> to_ts < e then to_ts - start - middle else to_ts - cur_ts
         else if cur_ts = middle then to_ts - cur_ts
         else
           let start = 0; e = ((cur_ts + middle) AND TIMEOUT_MASK) + 1
           in if start \<le> cur_ts \<and> to_ts < e then to_ts + (0x10000000 - cur_ts) else to_ts - cur_ts)"

definition timeout_due :: "timeout \<Rightarrow> u32 \<Rightarrow> bool" where
  "timeout_due to ts \<longleftrightarrow> sint (rel_time ts (timeout_type to)) \<le> 0"

definition set_next :: "addr \<Rightarrow> addr option \<Rightarrow> timeout_manager \<Rightarrow> timeout_manager" where
  "set_next a v m = m\<lparr>tm_heap := (tm_heap m)(a := (tm_heap m a)\<lparr>t_next := v\<rparr>)\<rparr>"

definition set_prev :: "addr \<Rightarrow> addr option \<Rightarrow> timeout_manager \<Rightarrow> timeout_manager" where
  "set_prev a v m = m\<lparr>tm_heap := (tm_heap m)(a := (tm_heap m a)\<lparr>t_prev := v\<rparr>)\<rparr>"

subsection \<open>Operations\<close>

text \<open>The body of the loop in \<open>move_due_timeouts\<close>: the first pending timeout goes to the end of the due list.\<close>

definition move_first_due :: "addr \<Rightarrow> timeout_manager \<Rightarrow> timeout_manager" where
  "move_first_due to m =
     (let nxt = t_next (tm_heap m to);
          m1 = m\<lparr>timeouts_first := nxt\<rparr>;
          m2 = (case nxt of Some n \<Rightarrow> set_prev n None m1 | None \<Rightarrow> m1\<lparr>timeouts_last := None\<rparr>);
          m3 = set_prev to (due_last m2) (set_next to None m2);
          m4 = (case due_last m3 of None \<Rightarrow> m3\<lparr>due_first := Some to\<rparr> | Some l \<Rightarrow> set_next l (Some to) m3)
      in m4\<lparr>due_last := Some to\<rparr>)"

partial_function (option) move_due_timeouts :: "u32 \<Rightarrow> timeout_manager \<Rightarrow> timeout_manager option" where
  "move_due_timeouts cur_ts m =
     (case timeouts_first m of
        None \<Rightarrow> Some m
      | Some to \<Rightarrow>
          if timeout_due (tm_heap m to) cur_ts then move_due_timeouts cur_ts (move_first_due to m)
          else Some m)"

text \<open>
  The loop that looks for the predecessor from the end of the list. The C comparison of the
  signed relative time with the unsigned \<open>us\<close> is one of unsigned words.
\<close>

partial_function (option) find_pred :: "u32 \<Rightarrow> u32 \<Rightarrow> timeout_manager \<Rightarrow> addr option \<Rightarrow> addr option option" where
  "find_pred cur_ts us m tp =
     (if tp \<noteq> None \<and> us < rel_time cur_ts (timeout_type (tm_heap m (the tp)))
      then find_pred cur_ts us m (t_prev (tm_heap m (the tp)))
      else Some tp)"

definition link_timeout ::
  "addr \<Rightarrow> u32 \<Rightarrow> addr option \<Rightarrow> addr option \<Rightarrow> timeout_manager \<Rightarrow> timeout_manager" where
  "link_timeout to ty tp tn m =
     (let m1 = m\<lparr>tm_heap := (tm_heap m)(to := \<lparr>timeout_type = ty, t_next = tn, t_prev = tp\<rparr>)\<rparr>;
          m2 = (case tp of None \<Rightarrow> m1\<lparr>timeouts_first := Some to\<rparr> | Some p \<Rightarrow> set_next p (Some to) m1)
      in case tn of None \<Rightarrow> m2\<lparr>timeouts_last := Some to\<rparr> | Some n \<Rightarrow> set_prev n (Some to) m2)"

definition util_timeout_arm_ts ::
  "timeout_manager \<Rightarrow> addr \<Rightarrow> u32 \<Rightarrow> u8 \<Rightarrow> u32 \<Rightarrow> (tm_error + timeout_manager) option" where
  "util_timeout_arm_ts mgr to us ty cur_ts0 =
     (let cur_ts = cur_ts0 AND TIMEOUT_MASK
      in if 0x8000000 \<le> us then Some (Inl Arm_Range)
         else case move_due_timeouts cur_ts mgr of
           None \<Rightarrow> None
         | Some m \<Rightarrow>
             (case find_pred cur_ts us m (timeouts_last m) of
                None \<Rightarrow> None
              | Some tp \<Rightarrow>
                  let tn = (case tp of Some t \<Rightarrow> t_next (tm_heap m t) | None \<Rightarrow> timeouts_first m)
                  in Some (Inr (link_timeout to
                       (push_bit TIMEOUT_BITS (ucast ty) OR ((cur_ts + us) AND TIMEOUT_MASK)) tp tn m))))"

definition util_timeout_disarm :: "timeout_manager \<Rightarrow> addr \<Rightarrow> tm_error + timeout_manager" where
  "util_timeout_disarm mgr to =
     (let prv = t_prev (tm_heap mgr to); nxt = t_next (tm_heap mgr to);
          r1 = (case prv of
                  None \<Rightarrow> if timeouts_first mgr = Some to then Inr (mgr\<lparr>timeouts_first := nxt\<rparr>)
                          else if due_first mgr = Some to then Inr (mgr\<lparr>due_first := nxt\<rparr>)
                          else Inl Disarm_First
                | Some p \<Rightarrow> Inr (set_next p nxt mgr))
      in case r1 of
           Inl e \<Rightarrow> Inl e
         | Inr m \<Rightarrow>
             (case nxt of
                None \<Rightarrow> if timeouts_last m = Some to then Inr (m\<lparr>timeouts_last := prv\<rparr>)
                        else if due_last m = Some to then Inr (m\<lparr>due_last := prv\<rparr>)
                        else Inl Disarm_Last
              | Some n \<Rightarrow> Inr (set_prev n prv m)))"

definition util_timeout_next :: "timeout_manager \<Rightarrow> u32 \<Rightarrow> u32" where
  "util_timeout_next mgr cur_ts =
     (if due_first mgr \<noteq> None then 0
      else case timeouts_first mgr of
        None \<Rightarrow> -1
      | Some to \<Rightarrow>
          let nxt = rel_time (cur_ts AND TIMEOUT_MASK) (timeout_type (tm_heap mgr to))
          in if sint nxt < 0 then 0 else nxt)"

text \<open>
  Polling. The handler gets the timeout, its type and the manager, and may arm and disarm timers;
  \<open>'s\<close> is whatever else it works on.
\<close>

definition pop_due :: "addr \<Rightarrow> timeout_manager \<Rightarrow> timeout_manager" where
  "pop_due to m =
     (let m1 = m\<lparr>due_first := t_next (tm_heap m to)\<rparr>
      in case due_first m1 of Some n \<Rightarrow> set_prev n None m1 | None \<Rightarrow> m1\<lparr>due_last := None\<rparr>)"

fun process_due ::
  "(addr \<Rightarrow> u32 \<Rightarrow> timeout_manager \<times> 's \<Rightarrow> timeout_manager \<times> 's) \<Rightarrow> nat \<Rightarrow>
     timeout_manager \<times> 's \<Rightarrow> timeout_manager \<times> 's" where
  "process_due handler 0 (m, s) = (m, s)"
| "process_due handler (Suc num) (m, s) =
     (case due_first m of
        None \<Rightarrow> (m, s)
      | Some to \<Rightarrow>
          let m1 = pop_due to m
          in process_due handler num
               (handler to (drop_bit TIMEOUT_BITS (timeout_type (tm_heap m1 to))) (m1, s)))"

definition util_timeout_poll_ts ::
  "(addr \<Rightarrow> u32 \<Rightarrow> timeout_manager \<times> 's \<Rightarrow> timeout_manager \<times> 's) \<Rightarrow> u32 \<Rightarrow>
     timeout_manager \<times> 's \<Rightarrow> (timeout_manager \<times> 's) option" where
  "util_timeout_poll_ts handler cur_ts ms =
     (case move_due_timeouts (cur_ts AND TIMEOUT_MASK) (fst ms) of
        None \<Rightarrow> None
      | Some m \<Rightarrow> Some (process_due handler MAX_TIMEOUTS (m, snd ms)))"

subsection \<open>Linked lists\<close>

definition hd_or :: "addr list \<Rightarrow> addr option \<Rightarrow> addr option" where
  "hd_or xs n = (case xs of [] \<Rightarrow> n | y # _ \<Rightarrow> Some y)"

definition last_or :: "addr option \<Rightarrow> addr list \<Rightarrow> addr option" where
  "last_or p xs = (if xs = [] then p else Some (last xs))"

lemma hd_or_simps [simp]:
  "hd_or [] n = n" "hd_or (x # xs) n = Some x" "hd_or (xs @ ys) n = hd_or xs (hd_or ys n)"
  by (simp_all add: hd_or_def split: list.split)

lemma last_or_simps [simp]:
  "last_or p [] = p" "last_or p (x # xs) = last_or (Some x) xs"
  "last_or p (xs @ ys) = last_or (last_or p xs) ys"
  by (simp_all add: last_or_def)

lemma hd_or_in: "hd_or xs None = Some a \<Longrightarrow> a \<in> set xs"
  by (auto simp: hd_or_def split: list.splits)

lemma last_or_in: "last_or None xs = Some a \<Longrightarrow> a \<in> set xs"
  by (auto simp: last_or_def split: if_splits)

text \<open>The cells \<open>xs\<close> linked in this order, after \<open>p\<close> and before \<open>n\<close>.\<close>

fun lseg :: "(addr \<Rightarrow> timeout) \<Rightarrow> addr option \<Rightarrow> addr list \<Rightarrow> addr option \<Rightarrow> bool" where
  "lseg h p [] n = True"
| "lseg h p (x # xs) n = (t_prev (h x) = p \<and> t_next (h x) = hd_or xs n \<and> lseg h (Some x) xs n)"

lemma lseg_append:
  "lseg h p (xs @ ys) n \<longleftrightarrow> lseg h p xs (hd_or ys n) \<and> lseg h (last_or p xs) ys n"
  by (induction xs arbitrary: p) auto

lemma lseg_cong:
  "(\<And>x. x \<in> set xs \<Longrightarrow> t_next (h' x) = t_next (h x) \<and> t_prev (h' x) = t_prev (h x)) \<Longrightarrow>
     lseg h' p xs n = lseg h p xs n"
  by (induction xs arbitrary: p) auto

lemma lseg_upd_other [simp]: "a \<notin> set xs \<Longrightarrow> lseg (h(a := v)) p xs n = lseg h p xs n"
  by (rule lseg_cong) auto

text \<open>Relinking the ends.\<close>

lemma lseg_new_prev:
  "distinct (x # xs) \<Longrightarrow> lseg h p (x # xs) n \<Longrightarrow> lseg (h(x := (h x)\<lparr>t_prev := q\<rparr>)) q (x # xs) n"
  by simp

lemma lseg_new_next:
  "distinct (xs @ [x]) \<Longrightarrow> lseg h p (xs @ [x]) n \<Longrightarrow> lseg (h(x := (h x)\<lparr>t_next := m\<rparr>)) p (xs @ [x]) m"
  by (simp add: lseg_append)

lemma set_next_simps [simp]:
  "timeouts_first (set_next a v m) = timeouts_first m" "timeouts_last (set_next a v m) = timeouts_last m"
  "due_first (set_next a v m) = due_first m" "due_last (set_next a v m) = due_last m"
  "tm_heap (set_next a v m) = (tm_heap m)(a := (tm_heap m a)\<lparr>t_next := v\<rparr>)"
  by (simp_all add: set_next_def)

lemma set_prev_simps [simp]:
  "timeouts_first (set_prev a v m) = timeouts_first m" "timeouts_last (set_prev a v m) = timeouts_last m"
  "due_first (set_prev a v m) = due_first m" "due_last (set_prev a v m) = due_last m"
  "tm_heap (set_prev a v m) = (tm_heap m)(a := (tm_heap m a)\<lparr>t_prev := v\<rparr>)"
  by (simp_all add: set_prev_def)

text \<open>A manager whose pending list is \<open>xs\<close> and whose due list is \<open>ds\<close>.\<close>

definition tm_lists :: "timeout_manager \<Rightarrow> addr list \<Rightarrow> addr list \<Rightarrow> bool" where
  "tm_lists m xs ds \<longleftrightarrow>
     distinct (xs @ ds) \<and>
     timeouts_first m = hd_or xs None \<and> timeouts_last m = last_or None xs \<and>
     lseg (tm_heap m) None xs None \<and>
     due_first m = hd_or ds None \<and> due_last m = last_or None ds \<and> lseg (tm_heap m) None ds None"

definition tm_types :: "timeout_manager \<Rightarrow> addr \<Rightarrow> u32" where
  "tm_types m a = timeout_type (tm_heap m a)"

lemma move_first_due_lists:
  assumes "tm_lists m (x # xs) ds"
  shows "tm_lists (move_first_due x m) xs (ds @ [x])" "tm_types (move_first_due x m) = tm_types m"
proof -
  have l: "distinct (x # xs @ ds)" "timeouts_last m = last_or (Some x) xs"
    "t_next (tm_heap m x) = hd_or xs None" "lseg (tm_heap m) (Some x) xs None"
    "due_first m = hd_or ds None" "due_last m = last_or None ds" "lseg (tm_heap m) None ds None"
    using assms by (auto simp: tm_lists_def)
  show "tm_lists (move_first_due x m) xs (ds @ [x])"
    using l
    by (cases xs; cases ds rule: rev_cases)
       (auto simp: tm_lists_def move_first_due_def Let_def lseg_append last_or_def)
  show "tm_types (move_first_due x m) = tm_types m"
    by (auto simp: tm_types_def move_first_due_def Let_def fun_eq_iff split: option.split)
qed

text \<open>The loop moves the longest prefix of due timeouts, and ends.\<close>

definition is_due :: "timeout_manager \<Rightarrow> u32 \<Rightarrow> addr \<Rightarrow> bool" where
  "is_due m cur a \<longleftrightarrow> sint (rel_time cur (tm_types m a)) \<le> 0"

lemma move_due_timeouts_lists:
  assumes "tm_lists m xs ds"
  shows "\<exists>m'. move_due_timeouts cur m = Some m' \<and> tm_types m' = tm_types m \<and>
    tm_lists m' (dropWhile (is_due m cur) xs) (ds @ takeWhile (is_due m cur) xs)"
  using assms
proof (induction xs arbitrary: m ds)
  case Nil
  then show ?case by (subst move_due_timeouts.simps) (auto simp: tm_lists_def)
next
  case (Cons x xs)
  have first: "timeouts_first m = Some x" using Cons.prems by (simp add: tm_lists_def)
  have due: "timeout_due (tm_heap m x) cur = is_due m cur x"
    by (simp add: timeout_due_def is_due_def tm_types_def)
  note step = move_first_due_lists [OF Cons.prems]
  have "is_due (move_first_due x m) cur = is_due m cur" by (simp add: is_due_def step(2) fun_eq_iff)
  with Cons.IH [OF step(1)] step(2) Cons.prems due show ?case
    by (subst move_due_timeouts.simps) (auto simp: first)
qed

text \<open>The search ends at the last timeout that does not expire later than the new one.\<close>

definition later :: "timeout_manager \<Rightarrow> u32 \<Rightarrow> u32 \<Rightarrow> addr \<Rightarrow> bool" where
  "later m cur us a \<longleftrightarrow> us < rel_time cur (tm_types m a)"

lemma find_pred_lists:
  assumes "lseg (tm_heap m) None xs n"
  shows "find_pred cur us m (last_or None xs) = Some (last_or None (rev (dropWhile (later m cur us) (rev xs))))"
  using assms
proof (induction xs arbitrary: n rule: rev_induct)
  case Nil
  then show ?case by (subst find_pred.simps) simp
next
  case (snoc x xs)
  then have "t_prev (tm_heap m x) = last_or None xs" "lseg (tm_heap m) None xs (Some x)"
    by (auto simp: lseg_append)
  moreover have "later m cur us x = (us < rel_time cur (timeout_type (tm_heap m x)))"
    by (simp add: later_def tm_types_def)
  ultimately show ?case using snoc.IH by (subst find_pred.simps) auto
qed

lemma link_timeout_lists:
  fixes ty
  assumes "tm_lists m (ys @ zs) ds" and "to \<notin> set (ys @ zs @ ds)"
  defines "m' \<equiv> link_timeout to ty (last_or None ys) (hd_or zs None) m"
  shows "tm_lists m' (ys @ to # zs) ds" "tm_types m' = (tm_types m)(to := ty)"
proof -
  have l: "distinct (ys @ zs @ ds)" "lseg (tm_heap m) None ys (hd_or zs None)"
    "lseg (tm_heap m) (last_or None ys) zs None" "timeouts_first m = hd_or ys (hd_or zs None)"
    "timeouts_last m = last_or (last_or None ys) zs"
    "due_first m = hd_or ds None" "due_last m = last_or None ds" "lseg (tm_heap m) None ds None"
    using assms(1) by (auto simp: tm_lists_def lseg_append)
  show "tm_lists m' (ys @ to # zs) ds"
    using l assms(2)
    by (cases ys rule: rev_cases; cases zs)
       (auto simp: tm_lists_def m'_def link_timeout_def Let_def lseg_append last_or_def)
  show "tm_types m' = (tm_types m)(to := ty)"
    using assms(2)
    by (cases ys rule: rev_cases; cases zs)
       (auto simp: m'_def link_timeout_def tm_types_def Let_def fun_eq_iff last_or_def)
qed

lemma arm_lists:
  fixes us cur0 ty
  defines "cur \<equiv> cur0 AND TIMEOUT_MASK"
  assumes l: "tm_lists m xs ds" and to: "to \<notin> set (xs @ ds)" and us: "us < 0x8000000"
  defines "xs' \<equiv> dropWhile (is_due m cur) xs" and "ds' \<equiv> ds @ takeWhile (is_due m cur) xs"
  defines "zs \<equiv> rev (takeWhile (later m cur us) (rev xs'))"
    and "ys \<equiv> rev (dropWhile (later m cur us) (rev xs'))"
  shows "\<exists>m'. util_timeout_arm_ts m to us ty cur0 = Some (Inr m') \<and>
    tm_lists m' (ys @ to # zs) ds' \<and>
    tm_types m' = (tm_types m)(to := push_bit TIMEOUT_BITS (ucast ty) OR ((cur + us) AND TIMEOUT_MASK))"
proof -
  obtain m1 where m1: "move_due_timeouts cur m = Some m1" "tm_types m1 = tm_types m" "tm_lists m1 xs' ds'"
    using move_due_timeouts_lists [OF l] unfolding xs'_def ds'_def by blast
  have split: "xs' = ys @ zs" unfolding ys_def zs_def
    by (simp only: rev_append [symmetric] takeWhile_dropWhile_id rev_rev_ident)
  have later: "later m1 cur us = later m cur us" by (simp add: later_def m1(2) fun_eq_iff)
  have seg: "lseg (tm_heap m1) None xs' None" "timeouts_last m1 = last_or None xs'"
    "timeouts_first m1 = hd_or xs' None"
    using m1(3) by (auto simp: tm_lists_def)
  have pred: "find_pred cur us m1 (timeouts_last m1) = Some (last_or None ys)"
    unfolding seg(2) ys_def later [symmetric] by (rule find_pred_lists [OF seg(1)])
  have nxt: "(case last_or None ys of Some t \<Rightarrow> t_next (tm_heap m1 t) | None \<Rightarrow> timeouts_first m1) = hd_or zs None"
    using seg unfolding split by (cases ys rule: rev_cases) (auto simp: lseg_append)
  have set_eq: "set xs' \<union> set ds' = set xs \<union> set ds"
    unfolding xs'_def ds'_def by (metis set_append sup_assoc sup_commute takeWhile_dropWhile_id)
  then have "to \<notin> set (ys @ zs @ ds')" using to split by auto
  from link_timeout_lists [OF m1(3) [unfolded split] this] show ?thesis
    using us m1(1,2) pred nxt by (simp add: util_timeout_arm_ts_def cur_def [symmetric] not_le)
qed

lemma disarm_lists:
  assumes "tm_lists m xs ds" and "to \<in> set xs \<union> set ds"
  shows "\<exists>m'. util_timeout_disarm m to = Inr m' \<and> tm_types m' = tm_types m \<and>
    tm_lists m' (remove1 to xs) (remove1 to ds)"
proof -
  consider (pending) ys zs where "xs = ys @ to # zs" "to \<notin> set ys" "to \<notin> set zs" "to \<notin> set ds"
    | (due) ys zs where "ds = ys @ to # zs" "to \<notin> set ys" "to \<notin> set zs" "to \<notin> set xs"
    using assms by (auto simp: tm_lists_def in_set_conv_decomp)
  then show ?thesis
  proof cases
    case pending
    then have r: "remove1 to xs = ys @ zs" "remove1 to ds = ds"
      by (simp_all add: remove1_append remove1_idem)
    show ?thesis
      using assms(1) pending(2-4) unfolding r unfolding pending(1)
      by (cases ys rule: rev_cases; cases zs)
         (auto simp: tm_lists_def util_timeout_disarm_def Let_def lseg_append last_or_def tm_types_def
           fun_eq_iff)
  next
    case due
    then have r: "remove1 to ds = ys @ zs" "remove1 to xs = xs"
      by (simp_all add: remove1_append remove1_idem)
    have "timeouts_first m \<noteq> Some to" "timeouts_last m \<noteq> Some to"
      using assms(1) due(4) hd_or_in last_or_in by (auto simp: tm_lists_def)
    then show ?thesis
      using assms(1) due(2-4) unfolding r unfolding due(1)
      by (cases ys rule: rev_cases; cases zs)
         (auto simp: tm_lists_def util_timeout_disarm_def Let_def lseg_append tm_types_def
           fun_eq_iff)
  qed
qed

lemma pop_due_lists:
  assumes "tm_lists m xs (d # ds)"
  shows "tm_lists (pop_due d m) xs ds" "tm_types (pop_due d m) = tm_types m" "due_first m = Some d"
proof -
  show "tm_lists (pop_due d m) xs ds" "due_first m = Some d"
    using assms by (cases ds; auto simp: tm_lists_def pop_due_def)+
  show "tm_types (pop_due d m) = tm_types m"
    by (auto simp: tm_types_def pop_due_def Let_def fun_eq_iff split: option.split)
qed

subsection \<open>Wrapped times\<close>

lemma unat_timeout_mask: "unat (x AND TIMEOUT_MASK) = unat x mod 0x10000000"
  using and_mask_nat [of 28 x] by (simp add: TIMEOUT_MASK_def)

lemma sint_small_diff:
  assumes "int (unat a) + k = z" and "- 0x80000000 \<le> z" and "z < 0x80000000"
  shows "sint (a + word_of_int k :: u32) = z"
proof -
  have "a + word_of_int k = word_of_int z"
    unfolding assms(1) [symmetric] by simp
  moreover have "sint (word_of_int z :: u32) = z"
    unfolding sint_sbintrunc' using assms(2,3) by (simp add: signed_take_bit_int_eq_self)
  ultimately show ?thesis by simp
qed

lemma sint_nonneg: "0 \<le> sint (x :: u32) \<Longrightarrow> int (unat x) = sint x"
proof -
  assume nn: "0 \<le> sint x"
  have eq: "sint x = (int (unat x) + 0x80000000) mod 0x100000000 - 0x80000000"
    using int_word_sint [of "int (unat x)", where ?'a = 32] by simp
  have "int (unat x) < 0x80000000"
  proof (rule ccontr)
    assume "\<not> int (unat x) < 0x80000000"
    moreover have "int (unat x) < 0x100000000" using unat_u32_less [of x] by linarith
    ultimately have "(int (unat x) + 0x80000000) mod 0x100000000 = int (unat x) - 0x80000000"
      by (simp add: mod_pos_geq mod_pos_pos_trivial)
    then show False using nn eq \<open>int (unat x) < 0x100000000\<close> by linarith
  qed
  then have "(int (unat x) + 0x80000000) mod 0x100000000 = int (unat x) + 0x80000000"
    by (intro mod_pos_pos_trivial) linarith+
  then show ?thesis using eq by linarith
qed

text \<open>On the circle of 28-bit times, a distance below half the circle is read exactly.\<close>

lemma rel_time_exact:
  fixes cur ty :: u32
  assumes c: "unat cur = T mod 0x10000000" and t: "unat (ty AND TIMEOUT_MASK) = D mod 0x10000000"
    and near: "T < D + 0x8000000" "D < T + 0x8000000"
  shows "sint (rel_time cur ty) = int D - int T"
proof -
  let ?t = "ty AND TIMEOUT_MASK"
  define q where "q = (int (D mod 0x10000000) - int (T mod 0x10000000)) - (int D - int T)"
  have "q = 0 \<or> q = 0x10000000 \<or> q = - 0x10000000"
  proof -
    obtain k :: int where k: "q = 0x10000000 * k"
      by (rule that [of "int (T div 0x10000000) - int (D div 0x10000000)"])
         (simp add: q_def zdiv_int zmod_int minus_div_mult_eq_mod [symmetric] algebra_simps)
    moreover have "- 0x20000000 < q" "q < 0x20000000" unfolding q_def using near by auto
    ultimately have "k = 0 \<or> k = 1 \<or> k = - 1" by arith
    then show ?thesis using k by auto
  qed
  then have d: "int D - int T = int (unat ?t) - int (unat cur) \<or>
      int D - int T = int (unat ?t) - int (unat cur) - 0x10000000 \<or>
      int D - int T = int (unat ?t) - int (unat cur) + 0x10000000"
    unfolding q_def using c t by auto
  have cb: "unat cur < 0x10000000" and tb: "unat ?t < 0x10000000" using c t by simp_all
  have near': "- 0x8000000 < int D - int T" "int D - int T < 0x8000000" using near by auto
  have plain: "sint (?t - cur) = int (unat ?t) - int (unat cur)"
  proof -
    have "?t - cur = ?t + word_of_int (- int (unat cur))" by simp
    then show ?thesis using cb tb by (simp only:) (rule sint_small_diff; linarith)
  qed
  show ?thesis
  proof (cases cur "0x8000000 :: u32" rule: linorder_cases)
    case less
    then have cur: "unat cur < 0x8000000" by (simp add: word_nat)
    have "unat (cur - 0x8000000) = unat cur + 0xF8000000" using cur less by (simp add: unat_sub_if' word_nat)
    then have start: "unat ((cur - 0x8000000) AND TIMEOUT_MASK) = unat cur + 0x8000000"
    proof -
      have "(unat cur + 0x8000000 + 15 * 0x10000000) mod 0x10000000 = unat cur + 0x8000000"
        unfolding mod_mult_self1 using cur by (intro mod_less) simp
      then show ?thesis using \<open>unat (cur - 0x8000000) = unat cur + 0xF8000000\<close>
        by (simp add: unat_timeout_mask add.commute)
    qed
    have eq: "rel_time cur ty = (if unat cur + 0x8000000 \<le> unat ?t
        then ?t - ((cur - 0x8000000) AND TIMEOUT_MASK) - 0x8000000 else ?t - cur)"
      using less tb start by (simp add: rel_time_def Let_def word_nat)
    show ?thesis
    proof (cases "unat cur + 0x8000000 \<le> unat ?t")
      case True
      let ?s = "(cur - 0x8000000) AND TIMEOUT_MASK"
      have "?t - ?s - 0x8000000 = ?t + word_of_int (- int (unat cur + 0x8000000) - 0x8000000)"
        unfolding start [symmetric] by simp
      then have "sint (?t - ?s - 0x8000000) = int (unat ?t) - int (unat cur) - 0x10000000"
        using cb tb by (simp only:) (rule sint_small_diff; linarith)
      then show ?thesis unfolding eq if_P [OF True] using True d near' cb tb by linarith
    next
      case False
      then show ?thesis unfolding eq if_not_P [OF False] using plain d near' cur by linarith
    qed
  next
    case equal
    then have r: "rel_time cur ty = ?t - cur" "unat cur = 0x8000000" by (simp_all add: rel_time_def Let_def)
    show ?thesis unfolding r(1) using r(2) plain d near' tb by linarith
  next
    case greater
    then have cur: "0x8000000 < unat cur" by (simp add: word_nat)
    have "unat (cur + 0x8000000) = unat cur + 0x8000000" using cb by (simp add: unat_add_exact)
    then have m: "unat ((cur + 0x8000000) AND TIMEOUT_MASK) = unat cur - 0x8000000"
      using cur cb by (simp add: unat_timeout_mask mod_if)
    have e: "unat (((cur + 0x8000000) AND TIMEOUT_MASK) + 1) = unat cur - 0x8000000 + 1"
      using m cb unat_add_exact [of "(cur + 0x8000000) AND TIMEOUT_MASK" 1] by simp
    have eq: "rel_time cur ty = (if unat ?t \<le> unat cur - 0x8000000
        then ?t + (0x10000000 - cur) else ?t - cur)"
    proof -
      have "cur \<noteq> 0x8000000" "\<not> cur < 0x8000000" using greater by auto
      then show ?thesis using e by (simp add: rel_time_def Let_def word_less_nat_alt [of ?t] less_Suc_eq_le)
    qed
    show ?thesis
    proof (cases "unat ?t \<le> unat cur - 0x8000000")
      case True
      have "?t + (0x10000000 - cur) = ?t + word_of_int (0x10000000 - int (unat cur))" by simp
      then have "sint (?t + (0x10000000 - cur)) = int (unat ?t) - int (unat cur) + 0x10000000"
        using cb tb by (simp only:) (rule sint_small_diff; linarith)
      then show ?thesis unfolding eq if_P [OF True] using True d near' cb tb cur by linarith
    next
      case False
      then show ?thesis unfolding eq if_not_P [OF False] using False plain d near' cb tb cur by linarith
    qed
  qed
qed

subsection \<open>Deadlines\<close>

text \<open>
  \<open>T\<close> is the time on a clock that does not wrap, \<open>dl\<close> the deadlines of the timeouts on it. Pending
  timeouts are in the order of their deadlines, which are less than half the circle away.
\<close>

definition timed :: "nat \<Rightarrow> timeout_manager \<Rightarrow> addr list \<Rightarrow> (addr \<Rightarrow> nat) \<Rightarrow> bool" where
  "timed T m xs dl \<longleftrightarrow>
     sorted (map dl xs) \<and>
     (\<forall>x\<in>set xs. unat (tm_types m x AND TIMEOUT_MASK) = dl x mod 0x10000000 \<and>
        T < dl x + 0x8000000 \<and> dl x < T + 0x8000000)"

lemma timed_rel_time:
  assumes "timed T m xs dl" and "x \<in> set xs" and "unat cur = T mod 0x10000000"
  shows "sint (rel_time cur (tm_types m x)) = int (dl x) - int T"
  using assms rel_time_exact [of cur T "tm_types m x" "dl x"] by (auto simp: timed_def)

lemma timed_is_due:
  "timed T m xs dl \<Longrightarrow> x \<in> set xs \<Longrightarrow> unat cur = T mod 0x10000000 \<Longrightarrow> is_due m cur x \<longleftrightarrow> dl x \<le> T"
  using timed_rel_time by (simp add: is_due_def)

lemma sorted_dropWhile_le:
  "sorted (map f xs) \<Longrightarrow> dropWhile (\<lambda>x. f x \<le> T) xs = filter (\<lambda>x. T < f x) xs \<and>
     takeWhile (\<lambda>x. f x \<le> T) xs = filter (\<lambda>x. f x \<le> (T :: nat)) xs"
proof (induction xs)
  case (Cons x xs)
  have "filter (\<lambda>x. T < f x) xs = xs" "filter (\<lambda>x. f x \<le> T) xs = []" if "T < f x"
    using that Cons.prems by (auto intro!: filter_True filter_False dest: less_le_trans)
  with Cons show ?case by auto
qed simp

text \<open>Moving the due timeouts splits the pending ones by their deadlines.\<close>

lemma timed_move_due:
  assumes "timed T m xs dl" and "unat cur = T mod 0x10000000"
  shows "dropWhile (is_due m cur) xs = filter (\<lambda>x. T < dl x) xs"
    "takeWhile (is_due m cur) xs = filter (\<lambda>x. dl x \<le> T) xs"
proof -
  have "dropWhile (is_due m cur) xs = dropWhile (\<lambda>x. dl x \<le> T) xs"
    "takeWhile (is_due m cur) xs = takeWhile (\<lambda>x. dl x \<le> T) xs"
    using timed_is_due [OF assms(1) _ assms(2)] by (auto intro!: dropWhile_cong takeWhile_cong)
  then show "dropWhile (is_due m cur) xs = filter (\<lambda>x. T < dl x) xs"
    "takeWhile (is_due m cur) xs = filter (\<lambda>x. dl x \<le> T) xs"
    using sorted_dropWhile_le [of dl xs T] assms(1) by (auto simp: timed_def)
qed

text \<open>Among pending timeouts the unsigned comparison of the search is one of deadlines.\<close>

lemma timed_later:
  assumes "timed T m xs dl" and "x \<in> set xs" and "unat cur = T mod 0x10000000" and "T < dl x"
  shows "later m cur us x \<longleftrightarrow> T + unat us < dl x"
proof -
  let ?r = "rel_time cur (tm_types m x)"
  have s: "sint ?r = int (dl x) - int T" by (rule timed_rel_time [OF assms(1-3)])
  then have "0 \<le> sint ?r" using assms(4) by simp
  then have "int (unat ?r) = sint ?r" by (rule sint_nonneg)
  then have "unat ?r = dl x - T" using s assms(4) by linarith
  then show ?thesis using assms(4) by (simp add: later_def word_nat) linarith
qed

lemma timed_cong: "timed T m xs dl \<Longrightarrow> (\<And>x. x \<in> set xs \<Longrightarrow> tm_types m' x = tm_types m x) \<Longrightarrow>
    (\<And>x. x \<in> set xs \<Longrightarrow> dl' x = dl x) \<Longrightarrow> timed T m' xs dl'"
proof -
  assume t: "timed T m xs dl" and "\<And>x. x \<in> set xs \<Longrightarrow> tm_types m' x = tm_types m x"
    and d: "\<And>x. x \<in> set xs \<Longrightarrow> dl' x = dl x"
  moreover have "map dl' xs = map dl xs" using d by simp
  ultimately show ?thesis by (auto simp: timed_def simp del: map_eq_conv)
qed

lemma timed_filter: "timed T m xs dl \<Longrightarrow> timed T m (filter P xs) dl"
  by (auto simp: timed_def sorted_filter)

lemma timed_remove1: "timed T m xs dl \<Longrightarrow> timed T m (remove1 x xs) dl"
  by (auto simp: timed_def sorted_map_remove1 dest: notin_set_remove1 in_set_remove1 [THEN iffD1, rotated] set_remove1_subset [THEN subsetD])

text \<open>Time may pass as long as no pending timeout is left behind by half the circle.\<close>

lemma timed_later_T:
  "timed T m xs dl \<Longrightarrow> T \<le> T' \<Longrightarrow> \<forall>x\<in>set xs. T' < dl x + 0x8000000 \<Longrightarrow> timed T' m xs dl"
  by (fastforce simp: timed_def)

text \<open>The type and the time of an armed timeout.\<close>

lemma arm_word:
  fixes cur us :: u32 and ty :: u8
  defines "w \<equiv> push_bit TIMEOUT_BITS (ucast ty) OR ((cur + us) AND TIMEOUT_MASK)"
  shows "w AND TIMEOUT_MASK = (cur + us) AND TIMEOUT_MASK" "drop_bit TIMEOUT_BITS w = ucast ty AND 0xF"
proof -
  have mask: "TIMEOUT_MASK = mask 28" by (simp add: TIMEOUT_MASK_def mask_eq_exp_minus_1)
  have m4: "(0xF :: u32) = mask 4" by (simp add: mask_eq_exp_minus_1)
  show "w AND TIMEOUT_MASK = (cur + us) AND TIMEOUT_MASK"
    by (rule bit_word_eqI)
       (auto simp: w_def mask TIMEOUT_BITS_def bit_and_iff bit_or_iff bit_push_bit_iff bit_mask_iff)
  show "drop_bit TIMEOUT_BITS w = ucast ty AND 0xF"
    unfolding m4
    by (rule bit_word_eqI)
       (auto simp: w_def mask TIMEOUT_BITS_def bit_and_iff bit_or_iff bit_push_bit_iff bit_mask_iff
         bit_drop_bit_eq dest: bit_imp_le_length)
qed

lemma sorted_rev_takeWhile:
  "sorted (map f xs) \<Longrightarrow> (\<And>x. x \<in> set xs \<Longrightarrow> P x \<longleftrightarrow> (k :: nat) < f x) \<Longrightarrow>
     rev (takeWhile P (rev xs)) = filter (\<lambda>x. k < f x) xs \<and>
     rev (dropWhile P (rev xs)) = filter (\<lambda>x. f x \<le> k) xs"
proof (induction xs rule: rev_induct)
  case (snoc x xs)
  have "filter (\<lambda>x. k < f x) xs = []" "filter (\<lambda>x. f x \<le> k) xs = xs" if "f x \<le> k"
    using that snoc.prems(1) by (auto simp: sorted_append filter_empty_conv intro!: filter_True dest: le_trans)
  with snoc show ?case by (auto simp: sorted_append)
qed simp

text \<open>
  C17. Arming: at time \<open>T\<close>, for fewer than \<open>2 ^ 27\<close> microseconds, an object in neither list. The
  call returns; timeouts whose deadlines have passed are appended to the due list in the order of
  their deadlines; the object is pending with deadline \<open>T + us\<close>, after all pending timeouts that
  expire before or with it and before all that expire later, and its type is the low 4 bits of
  the given one.
\<close>

theorem util_timeout_arm_inserts:
  assumes l: "tm_lists m xs ds" and t: "timed T m xs dl" and to: "to \<notin> set (xs @ ds)"
    and us: "us < 0x8000000" and cur: "unat cur_now mod 0x10000000 = T mod 0x10000000"
  shows "\<exists>m'. util_timeout_arm_ts m to us ty cur_now = Some (Inr m') \<and>
    tm_lists m' (filter (\<lambda>x. T < dl x \<and> dl x \<le> T + unat us) xs @ to # filter (\<lambda>x. T + unat us < dl x) xs)
      (ds @ filter (\<lambda>x. dl x \<le> T) xs) \<and>
    timed T m' (filter (\<lambda>x. T < dl x \<and> dl x \<le> T + unat us) xs @ to # filter (\<lambda>x. T + unat us < dl x) xs)
      (dl(to := T + unat us)) \<and>
    drop_bit TIMEOUT_BITS (tm_types m' to) = ucast ty AND 0xF"
proof -
  let ?cur = "cur_now AND TIMEOUT_MASK"
  have c: "unat ?cur = T mod 0x10000000" using cur by (simp add: unat_timeout_mask)
  note mv = timed_move_due [OF t c]
  let ?xs = "filter (\<lambda>x. T < dl x) xs"
  have t': "timed T m ?xs dl" by (rule timed_filter [OF t])
  have "later m ?cur us x \<longleftrightarrow> T + unat us < dl x" if "x \<in> set ?xs" for x
    using timed_later [OF t' that c] that by simp
  then have split: "rev (takeWhile (later m ?cur us) (rev ?xs)) = filter (\<lambda>x. T + unat us < dl x) ?xs"
    "rev (dropWhile (later m ?cur us) (rev ?xs)) = filter (\<lambda>x. dl x \<le> T + unat us) ?xs"
    using sorted_rev_takeWhile [of dl ?xs "later m ?cur us" "T + unat us"] t' by (auto simp: timed_def)
  let ?ys = "filter (\<lambda>x. T < dl x \<and> dl x \<le> T + unat us) xs" and ?zs = "filter (\<lambda>x. T + unat us < dl x) xs"
  have f: "filter (\<lambda>x. T + unat us < dl x) ?xs = ?zs" "filter (\<lambda>x. dl x \<le> T + unat us) ?xs = ?ys"
    by (auto intro: filter_cong)
  obtain m' where m': "util_timeout_arm_ts m to us ty cur_now = Some (Inr m')"
    "tm_lists m' (?ys @ to # ?zs) (ds @ filter (\<lambda>x. dl x \<le> T) xs)"
    "tm_types m' = (tm_types m)(to := push_bit TIMEOUT_BITS (ucast ty) OR ((?cur + us) AND TIMEOUT_MASK))"
    using arm_lists [OF l to us, of ty cur_now] unfolding mv split f by blast
  have dl: "unat (tm_types m' to AND TIMEOUT_MASK) = (T + unat us) mod 0x10000000"
  proof -
    have "unat (?cur + us) = unat ?cur + unat us"
      using c us by (intro unat_add_exact) (simp add: word_nat)
    then show ?thesis using c by (simp add: m'(3) arm_word unat_timeout_mask mod_add_left_eq)
  qed
  have "timed T m' (?ys @ to # ?zs) (dl(to := T + unat us))"
  proof -
    have ne: "x \<noteq> to" if "x \<in> set xs" for x using that to by auto
    have s: "sorted (map dl ?ys)" "sorted (map dl ?zs)" using t by (auto simp: timed_def sorted_filter)
    have eq: "map (dl(to := T + unat us)) ?ys = map dl ?ys" "map (dl(to := T + unat us)) ?zs = map dl ?zs"
      using ne by auto
    have "sorted (map (dl(to := T + unat us)) (?ys @ to # ?zs))"
      unfolding map_append list.map eq using s by (auto simp: sorted_append)
    then show ?thesis using t dl us ne m'(3) by (auto simp: timed_def word_nat)
  qed
  moreover have "drop_bit TIMEOUT_BITS (tm_types m' to) = ucast ty AND 0xF"
    by (simp only: m'(3) fun_upd_same arm_word(2))
  ultimately show ?thesis using m'(1,2) by blast
qed

definition empty_mgr :: timeout_manager where
  "empty_mgr = util_timeout_init \<lparr>timeouts_first = Some 1, timeouts_last = None, due_first = None,
     due_last = None, tm_heap = \<lambda>_. \<lparr>timeout_type = 0, t_next = None, t_prev = None\<rparr>\<rparr>"

lemma empty_mgr_lists: "tm_lists empty_mgr [] []" "timed T empty_mgr [] dl"
  by (simp_all add: empty_mgr_def util_timeout_init_def tm_lists_def timed_def)

text \<open>An object armed shortly before the 28-bit time wraps.\<close>

theorem util_timeout_arm_inserts_witness:
  "\<exists>m'. util_timeout_arm_ts empty_mgr 5 100 2 0xFFFFFF0 = Some (Inr m') \<and> tm_lists m' [5] [] \<and>
     timed 0xFFFFFF0 m' [5] ((\<lambda>_. 0)(5 := 0xFFFFFF0 + 100)) \<and>
     drop_bit TIMEOUT_BITS (tm_types m' 5) = 2"
  using util_timeout_arm_inserts [OF empty_mgr_lists, where to = 5 and us = 100 and ty = 2
      and T = "0xFFFFFF0" and cur_now = "0xFFFFFF0" and dl = "\<lambda>_. 0"] by simp

text \<open>
  C19. Disarming an object that is pending or due takes it, and only it, out of its list and
  keeps the order, deadlines and types of all others; the call never aborts on such an object.
\<close>

theorem util_timeout_disarm_removes:
  assumes "tm_lists m xs ds" and "timed T m xs dl" and "to \<in> set xs \<union> set ds"
  shows "\<exists>m'. util_timeout_disarm m to = Inr m' \<and> tm_lists m' (remove1 to xs) (remove1 to ds) \<and>
    timed T m' (remove1 to xs) dl \<and> tm_types m' = tm_types m"
proof -
  obtain m' where "util_timeout_disarm m to = Inr m'" "tm_types m' = tm_types m"
    "tm_lists m' (remove1 to xs) (remove1 to ds)"
    using disarm_lists [OF assms(1,3)] by blast
  moreover from this have "timed T m' (remove1 to xs) dl"
    using timed_cong [OF timed_remove1 [OF assms(2)]] by simp
  ultimately show ?thesis by blast
qed

text \<open>Polling with a handler that leaves the timers alone.\<close>

definition plain_handler ::
  "(addr \<Rightarrow> u32 \<Rightarrow> 's \<Rightarrow> 's) \<Rightarrow> addr \<Rightarrow> u32 \<Rightarrow> timeout_manager \<times> 's \<Rightarrow> timeout_manager \<times> 's" where
  "plain_handler g to ty ms = (fst ms, g to ty (snd ms))"

lemma plain_handler_apply: "plain_handler g to ty (m, s) = (m, g to ty s)"
  by (simp add: plain_handler_def)

lemma process_due_lists:
  "tm_lists m xs ds \<Longrightarrow> process_due (plain_handler g) k (m, s) = (m', s') \<Longrightarrow>
     tm_lists m' xs (drop k ds) \<and> tm_types m' = tm_types m \<and>
     s' = fold (\<lambda>a. g a (drop_bit TIMEOUT_BITS (tm_types m a))) (take k ds) s"
proof (induction k arbitrary: m ds s)
  case 0
  then show ?case by simp
next
  case (Suc k)
  show ?case
  proof (cases ds)
    case Nil
    with Suc.prems show ?thesis by (auto simp: tm_lists_def)
  next
    case (Cons d ds')
    note p = pop_due_lists [OF Suc.prems(1) [unfolded Cons]]
    have "timeout_type (tm_heap (pop_due d m) d) = tm_types m d" by (simp add: p(2) flip: tm_types_def)
    then have "process_due (plain_handler g) k
        (pop_due d m, g d (drop_bit TIMEOUT_BITS (tm_types m d)) s) = (m', s')"
      using Suc.prems(2) p(3) by (simp add: Let_def plain_handler_apply)
    from Suc.IH [OF p(1) this] show ?thesis by (simp add: Cons p(2))
  qed
qed


text \<open>Two timeouts, one with its deadline reached at the poll and one not.\<close>

definition two_timers :: timeout_manager where
  "two_timers = \<lparr>timeouts_first = Some 5, timeouts_last = Some 6, due_first = None, due_last = None,
     tm_heap = (\<lambda>a. if a = 5 then \<lparr>timeout_type = 0x20000064, t_next = Some 6, t_prev = None\<rparr>
                else \<lparr>timeout_type = 0x100000C8, t_next = None, t_prev = Some 5\<rparr>)\<rparr>"

definition two_deadlines :: "addr \<Rightarrow> nat" where
  "two_deadlines a = (if a = 5 then 0x10000064 else 0x100000C8)"

lemma two_timers_lists: "tm_lists two_timers [5, 6] []"
  "T \<in> {0x10000063, 0x10000096} \<Longrightarrow> timed T two_timers [5, 6] two_deadlines"
  by (auto simp: tm_lists_def timed_def two_timers_def two_deadlines_def tm_types_def TIMEOUT_MASK_def)


theorem util_timeout_disarm_removes_witness:
  "\<exists>m'. util_timeout_disarm two_timers 5 = Inr m' \<and> tm_lists m' [6] [] \<and>
     tm_types m' = tm_types two_timers"
  using util_timeout_disarm_removes [OF two_timers_lists(1) two_timers_lists(2), of "0x10000063" 5]
  by auto

end
