(* ===== verification/Packetmem.thy ===== *)
theory Packetmem
  imports Flextoe_Prelude
begin

unbundle bit_operations_syntax

text \<open>
  The manager of the DMA memory (user/packetmem.c): one free list of regions per 1 GiB zone, first
  fit allocation that splits a region, and freeing with merging of neighbours. A free list is the
  list of its handles in the order of the \<open>next\<close> pointers. The result of \<open>malloc\<close> for a handle is a
  parameter of the operations that call it.

  The theorems show that free and allocated regions always tile every zone, that allocation is
  first fit and fails only when nothing fits, and two defects: freed neighbours are not always
  merged, and the offset handed out does not tell zones apart.
\<close>

subsection \<open>Data\<close>

record packetmem_handle =
  ph_base :: u64
  ph_len :: u64
  ph_zone :: nat

record packetmem =
  freelist :: "nat \<Rightarrow> packetmem_handle list"
  total_zones :: nat

definition HUGE_PAGE_SIZE :: u64 where "HUGE_PAGE_SIZE = 0x40000000"
definition PACKETMEM_MAX_ZONES :: nat where "PACKETMEM_MAX_ZONES = 16"

subsection \<open>Operations\<close>

text \<open>
  The loop of \<open>packetmem_init\<close>, from zone \<open>zone\<close> on; \<open>ph_ok z\<close> is whether the handle for zone \<open>z\<close>
  can be allocated. The flag of the result is the C return value, True for 0.
\<close>

fun init_zones :: "(nat \<Rightarrow> bool) \<Rightarrow> nat list \<Rightarrow> packetmem \<Rightarrow> packetmem \<times> bool" where
  "init_zones ph_ok [] pm = (pm, True)"
| "init_zones ph_ok (z # zs) pm =
     (if \<not> ph_ok z then (pm, False)
      else init_zones ph_ok zs (pm\<lparr>freelist := (freelist pm)
             (z := [\<lparr>ph_base = 0, ph_len = HUGE_PAGE_SIZE, ph_zone = z\<rparr>])\<rparr>))"

definition packetmem_init :: "u64 \<Rightarrow> (nat \<Rightarrow> bool) \<Rightarrow> packetmem \<Rightarrow> packetmem \<times> bool" where
  "packetmem_init dma_mem_size ph_ok pm =
     (if dma_mem_size mod HUGE_PAGE_SIZE \<noteq> 0 then (pm, False)
      else let n = unat (ucast (dma_mem_size div HUGE_PAGE_SIZE) :: u32);
               pm = pm\<lparr>total_zones := n\<rparr>
           in if n = 0 \<or> PACKETMEM_MAX_ZONES < n then (pm, False)
              else init_zones ph_ok [0..<n] pm)"

text \<open>The search loop: the handles passed, the one found and those after it.\<close>

fun first_fit ::
  "u64 \<Rightarrow> packetmem_handle list \<Rightarrow> packetmem_handle list \<Rightarrow>
     (packetmem_handle list \<times> packetmem_handle \<times> packetmem_handle list) option" where
  "first_fit len prv [] = None"
| "first_fit len prv (ph # rest) =
     (if ph_len ph < len then first_fit len (prv @ [ph]) rest else Some (prv, ph, rest))"

definition packetmem_zone_alloc ::
  "bool \<Rightarrow> nat \<Rightarrow> u64 \<Rightarrow> packetmem \<Rightarrow> (packetmem \<times> packetmem_handle) option" where
  "packetmem_zone_alloc ph_ok zone len pm =
     (case first_fit len [] (freelist pm zone) of
        None \<Rightarrow> None
      | Some (prv, ph, rest) \<Rightarrow>
          if ph_len ph = len then
            Some (pm\<lparr>freelist := (freelist pm)(zone := prv @ rest)\<rparr>, ph)
          else if \<not> ph_ok then None
          else Some
            (pm\<lparr>freelist := (freelist pm)
               (zone := prv @ ph\<lparr>ph_base := ph_base ph + len, ph_len := ph_len ph - len\<rparr> # rest)\<rparr>,
             \<lparr>ph_base = ph_base ph, ph_len = len, ph_zone = ph_zone ph\<rparr>))"

fun alloc_zones ::
  "(nat \<Rightarrow> bool) \<Rightarrow> nat list \<Rightarrow> u64 \<Rightarrow> packetmem \<Rightarrow> (packetmem \<times> packetmem_handle) option" where
  "alloc_zones ph_ok [] len pm = None"
| "alloc_zones ph_ok (z # zs) len pm =
     (case packetmem_zone_alloc (ph_ok z) z len pm of
        None \<Rightarrow> alloc_zones ph_ok zs len pm
      | Some r \<Rightarrow> Some r)"

definition packetmem_alloc ::
  "(nat \<Rightarrow> bool) \<Rightarrow> u64 \<Rightarrow> packetmem \<Rightarrow> (packetmem \<times> u64 \<times> packetmem_handle) option" where
  "packetmem_alloc ph_ok len pm =
     (case alloc_zones ph_ok [0..<total_zones pm] len pm of
        None \<Rightarrow> None
      | Some (pm', h) \<Rightarrow> Some (pm', ph_base h, h))"

text \<open>The search loop of \<open>packetmem_free\<close>: the handles up to \<open>ph_prev\<close>, and those from \<open>ph\<close> on.\<close>

fun free_place ::
  "u64 \<Rightarrow> packetmem_handle list \<Rightarrow> packetmem_handle list \<Rightarrow> packetmem_handle list \<times> packetmem_handle list" where
  "free_place base prv (ph # nxt # rest) =
     (if ph_base nxt < base then free_place base (prv @ [ph]) (nxt # rest) else (prv, ph # nxt # rest))"
| "free_place base prv rest = (prv, rest)"

fun merge_succ :: "packetmem_handle \<Rightarrow> packetmem_handle list \<Rightarrow> packetmem_handle list" where
  "merge_succ ph [] = [ph]"
| "merge_succ ph (nxt # rest) =
     (if ph_base ph + ph_len ph = ph_base nxt then ph\<lparr>ph_len := ph_len ph + ph_len nxt\<rparr> # rest
      else ph # nxt # rest)"

definition merge_items ::
  "packetmem_handle list \<Rightarrow> packetmem_handle \<Rightarrow> packetmem_handle list \<Rightarrow> packetmem_handle list" where
  "merge_items prv ph rest =
     (if prv = [] then merge_succ ph rest
      else let p = last prv
           in if ph_base p + ph_len p = ph_base ph
              then butlast prv @ merge_succ (p\<lparr>ph_len := ph_len p + ph_len ph\<rparr>) rest
              else prv @ merge_succ ph rest)"

definition packetmem_free :: "packetmem_handle \<Rightarrow> packetmem \<Rightarrow> packetmem" where
  "packetmem_free h pm =
     (let (prv, rest) = free_place (ph_base h) [] (freelist pm (ph_zone h))
      in pm\<lparr>freelist := (freelist pm)(ph_zone h := merge_items prv h rest)\<rparr>)"

subsection \<open>Regions as sets of bytes\<close>

text \<open>How many of the regions contain byte \<open>b\<close> of their zone.\<close>

definition covers :: "nat \<Rightarrow> packetmem_handle \<Rightarrow> nat" where
  "covers b h = (if unat (ph_base h) \<le> b \<and> b < unat (ph_base h) + unat (ph_len h) then 1 else 0)"

definition cover :: "packetmem_handle list \<Rightarrow> nat \<Rightarrow> nat" where
  "cover hs b = sum_list (map (covers b) hs)"

definition in_zone :: "packetmem_handle \<Rightarrow> bool" where
  "in_zone h \<longleftrightarrow> unat (ph_base h) + unat (ph_len h) \<le> 2 ^ 30"

lemma cover_simps [simp]:
  "cover [] b = 0" "cover (h # hs) b = covers b h + cover hs b" "cover (hs @ hs') b = cover hs b + cover hs' b"
  by (simp_all add: cover_def)

lemma unat_u64_add: "unat (a :: u64) + unat b < 2 ^ 64 \<Longrightarrow> unat (a + b) = unat a + unat b"
  by (simp add: unat_word_ariths)

text \<open>Splitting a region and joining two adjacent ones keep the bytes.\<close>

lemma split_region:
  fixes ph len
  defines "a \<equiv> \<lparr>ph_base = ph_base ph, ph_len = len, ph_zone = ph_zone ph\<rparr>"
    and "r \<equiv> ph\<lparr>ph_base := ph_base ph + len, ph_len := ph_len ph - len\<rparr>"
  assumes "in_zone ph" and "len \<le> ph_len ph"
  shows "in_zone a" "in_zone r" "covers b a + covers b r = covers b ph"
proof -
  have l: "unat len \<le> unat (ph_len ph)" using assms(4) by (simp add: word_nat)
  have u: "unat (ph_len ph - len) = unat (ph_len ph) - unat len" using assms(4) by (rule unat_sub)
  have s: "unat (ph_base ph + len) = unat (ph_base ph) + unat len"
    using l assms(3) by (intro unat_u64_add) (simp add: in_zone_def)
  show "in_zone a" "in_zone r" "covers b a + covers b r = covers b ph"
    using l assms(3) by (auto simp: in_zone_def covers_def a_def r_def u s)
qed

lemma join_regions:
  fixes p h
  defines "j \<equiv> p\<lparr>ph_len := ph_len p + ph_len h\<rparr>"
  assumes "in_zone p" and "in_zone h" and "ph_base p + ph_len p = ph_base h"
  shows "in_zone j" "covers b j = covers b p + covers b h"
proof -
  have s: "unat (ph_base h) = unat (ph_base p) + unat (ph_len p)"
    using assms(2) unat_u64_add [of "ph_base p" "ph_len p"] by (simp add: in_zone_def assms(4))
  have u: "unat (ph_len p + ph_len h) = unat (ph_len p) + unat (ph_len h)"
    using assms(2,3) by (intro unat_u64_add) (simp add: in_zone_def)
  show "in_zone j" "covers b j = covers b p + covers b h"
    using assms(2,3) by (auto simp: in_zone_def covers_def j_def u s)
qed

lemma first_fit_Some:
  assumes "first_fit len prv hs = Some (prv', ph, rest)"
  shows "prv' @ ph # rest = prv @ hs" "len \<le> ph_len ph" "\<exists>ys. prv' = prv @ ys \<and> list_all (\<lambda>h. ph_len h < len) ys"
proof -
  have "prv' @ ph # rest = prv @ hs \<and> len \<le> ph_len ph \<and>
      (\<exists>ys. prv' = prv @ ys \<and> list_all (\<lambda>h. ph_len h < len) ys)"
    using assms
  proof (induction len prv hs rule: first_fit.induct)
    case (2 len prv h hs)
    show ?case
    proof (cases "ph_len h < len")
      case True
      with 2 obtain ys where "prv' = (prv @ [h]) @ ys" "list_all (\<lambda>h. ph_len h < len) ys"
        "prv' @ ph # rest = prv @ h # hs" "len \<le> ph_len ph" by fastforce
      with True show ?thesis by (intro conjI exI [of _ "h # ys"]) auto
    next
      case False
      with 2(2) show ?thesis by auto
    qed
  qed simp
  then show "prv' @ ph # rest = prv @ hs" "len \<le> ph_len ph"
    "\<exists>ys. prv' = prv @ ys \<and> list_all (\<lambda>h. ph_len h < len) ys" by auto
qed

lemma first_fit_None: "first_fit len prv hs = None \<longleftrightarrow> list_all (\<lambda>h. ph_len h < len) hs"
  by (induction len prv hs rule: first_fit.induct) auto

lemma free_place_append: "free_place base prv hs = (prv', rest) \<Longrightarrow> prv' @ rest = prv @ hs"
  by (induction base prv hs rule: free_place.induct) (auto split: if_splits)

lemma merge_succ_regions:
  assumes "in_zone h" and "list_all in_zone rest"
  shows "list_all in_zone (merge_succ h rest)" "cover (merge_succ h rest) b = covers b h + cover rest b"
  using assms join_regions [of h "hd rest"] by (cases rest; auto)+

lemma merge_items_regions:
  assumes "in_zone h" and "list_all in_zone prv" and "list_all in_zone rest"
  shows "list_all in_zone (merge_items prv h rest)"
    "cover (merge_items prv h rest) b = cover (prv @ h # rest) b"
proof -
  have "list_all in_zone (merge_items prv h rest) \<and>
     cover (merge_items prv h rest) b = cover (prv @ h # rest) b"
  proof (cases prv rule: rev_cases)
    case Nil
    then show ?thesis using assms by (simp add: merge_items_def merge_succ_regions)
  next
    case (snoc ps p)
    then have p: "in_zone p" "list_all in_zone ps" using assms(2) by auto
    show ?thesis
    proof (cases "ph_base p + ph_len p = ph_base h")
      case True
      note j = join_regions [OF p(1) assms(1) True]
      show ?thesis using snoc p True j assms(3) by (simp add: merge_items_def merge_succ_regions)
    next
      case False
      then show ?thesis using snoc p assms by (simp add: merge_items_def merge_succ_regions)
    qed
  qed
  then show "list_all in_zone (merge_items prv h rest)"
    "cover (merge_items prv h rest) b = cover (prv @ h # rest) b" by auto
qed

lemma merge_succ_zones: "list_all (\<lambda>h. ph_zone h = z) (h # rest) \<Longrightarrow> list_all (\<lambda>h. ph_zone h = z) (merge_succ h rest)"
  by (cases rest) auto

lemma merge_items_zones:
  "list_all (\<lambda>h. ph_zone h = z) (prv @ h # rest) \<Longrightarrow> list_all (\<lambda>h. ph_zone h = z) (merge_items prv h rest)"
  by (cases prv rule: rev_cases) (auto simp: merge_items_def Let_def intro!: merge_succ_zones)

subsection \<open>The manager and the regions its clients hold\<close>

text \<open>
  A client allocates with a given length, and frees a handle it holds. \<open>pm_live\<close> are the handles
  held.
\<close>

record pm_sys =
  pm_mem :: packetmem
  pm_live :: "packetmem_handle list"

datatype pm_event = Alloc "nat \<Rightarrow> bool" u64 | Free packetmem_handle

fun pm_step :: "pm_event \<Rightarrow> pm_sys \<Rightarrow> pm_sys" where
  "pm_step (Alloc ph_ok len) s =
     (case packetmem_alloc ph_ok len (pm_mem s) of
        None \<Rightarrow> s
      | Some (pm, off, h) \<Rightarrow> \<lparr>pm_mem = pm, pm_live = h # pm_live s\<rparr>)"
| "pm_step (Free h) s = \<lparr>pm_mem = packetmem_free h (pm_mem s), pm_live = remove1 h (pm_live s)\<rparr>"

fun pm_ok :: "pm_event \<Rightarrow> pm_sys \<Rightarrow> bool" where
  "pm_ok (Alloc _ _) s = True"
| "pm_ok (Free h) s = (h \<in> set (pm_live s))"

text \<open>Every byte of every zone is in exactly one region, free or held.\<close>

definition live_in :: "nat \<Rightarrow> packetmem_handle list \<Rightarrow> packetmem_handle list" where
  "live_in z hs = filter (\<lambda>h. ph_zone h = z) hs"

definition zone_tiled :: "nat \<Rightarrow> packetmem_handle list \<Rightarrow> packetmem_handle list \<Rightarrow> bool" where
  "zone_tiled z fl live \<longleftrightarrow>
     list_all in_zone fl \<and> list_all (\<lambda>h. ph_zone h = z) fl \<and> list_all in_zone (live_in z live) \<and>
     (\<forall>b. cover fl b + cover (live_in z live) b = (if b < 2 ^ 30 then 1 else 0))"

definition pm_tiled :: "pm_sys \<Rightarrow> bool" where
  "pm_tiled s \<longleftrightarrow>
     (\<forall>z<total_zones (pm_mem s). zone_tiled z (freelist (pm_mem s) z) (pm_live s)) \<and>
     list_all (\<lambda>h. ph_zone h < total_zones (pm_mem s)) (pm_live s)"

lemma live_in_Cons: "live_in z (h # hs) = (if ph_zone h = z then h # live_in z hs else live_in z hs)"
  by (simp add: live_in_def)

lemma zone_tiled_cover:
  assumes "zone_tiled z fl live" and "list_all in_zone fl'" and "list_all (\<lambda>h. ph_zone h = z) fl'"
    and "list_all in_zone (live_in z live')"
    and "\<And>b. cover fl' b + cover (live_in z live') b = cover fl b + cover (live_in z live) b"
  shows "zone_tiled z fl' live'"
  using assms by (simp add: zone_tiled_def)

lemma zone_tiled_regions:
  assumes "zone_tiled z fl live"
  shows "list_all in_zone fl" "list_all (\<lambda>h. ph_zone h = z) fl" "list_all in_zone (live_in z live)"
  using assms by (simp_all add: zone_tiled_def)

lemma zone_alloc_tiled:
  assumes "packetmem_zone_alloc ok z len pm = Some (pm', h)" and "zone_tiled z (freelist pm z) live"
  shows "ph_zone h = z" "ph_len h = len" "zone_tiled z (freelist pm' z) (h # live)"
    "total_zones pm' = total_zones pm" "z' \<noteq> z \<Longrightarrow> freelist pm' z' = freelist pm z'"
proof -
  from assms(1) obtain prv ph rest where ff: "first_fit len [] (freelist pm z) = Some (prv, ph, rest)"
    by (auto simp: packetmem_zone_alloc_def split: option.splits)
  note f = first_fit_Some [OF ff]
  have fl: "freelist pm z = prv @ ph # rest" using f(1) by simp
  have r: "ph_zone ph = z" "in_zone ph" using assms(2) by (auto simp: zone_tiled_def fl)
  note sp = split_region [OF r(2) f(2)]
  note ok = zone_tiled_regions [OF assms(2), unfolded fl]
  have "ph_zone h = z \<and> ph_len h = len \<and> zone_tiled z (freelist pm' z) (h # live) \<and>
      total_zones pm' = total_zones pm \<and> (z' \<noteq> z \<longrightarrow> freelist pm' z' = freelist pm z')"
  proof (cases "ph_len ph = len")
    case True
    then have eq: "pm' = pm\<lparr>freelist := (freelist pm)(z := prv @ rest)\<rparr>" "h = ph"
      using assms(1) ff by (auto simp: packetmem_zone_alloc_def)
    have "zone_tiled z (freelist pm' z) (h # live)"
      by (rule zone_tiled_cover [OF assms(2)]) (use r ok in \<open>auto simp: eq fl live_in_Cons\<close>)
    then show ?thesis using r True by (simp add: eq)
  next
    case False
    then have eq: "pm' = pm\<lparr>freelist := (freelist pm)
          (z := prv @ ph\<lparr>ph_base := ph_base ph + len, ph_len := ph_len ph - len\<rparr> # rest)\<rparr>"
        "h = \<lparr>ph_base = ph_base ph, ph_len = len, ph_zone = ph_zone ph\<rparr>"
      using assms(1) ff by (auto simp: packetmem_zone_alloc_def split: if_splits)
    have "zone_tiled z (freelist pm' z) (h # live)"
      by (rule zone_tiled_cover [OF assms(2)])
         (use r ok sp(1,2) in \<open>auto simp: eq fl live_in_Cons simp flip: sp(3)\<close>)
    then show ?thesis using r by (simp add: eq)
  qed
  then show "ph_zone h = z" "ph_len h = len" "zone_tiled z (freelist pm' z) (h # live)"
    "total_zones pm' = total_zones pm" "z' \<noteq> z \<Longrightarrow> freelist pm' z' = freelist pm z'" by auto
qed

lemma alloc_zones_zone:
  "alloc_zones ok zs len pm = Some (pm', h) \<Longrightarrow>
     \<exists>z\<in>set zs. packetmem_zone_alloc (ok z) z len pm = Some (pm', h)"
  by (induction zs) (auto split: option.splits)

lemma alloc_tiled:
  assumes "pm_tiled s" and "packetmem_alloc ok len (pm_mem s) = Some (pm', off, h)"
  shows "pm_tiled \<lparr>pm_mem = pm', pm_live = h # pm_live s\<rparr>"
proof -
  from assms(2) have "alloc_zones ok [0..<total_zones (pm_mem s)] len (pm_mem s) = Some (pm', h)"
    by (auto simp: packetmem_alloc_def split: option.splits)
  then obtain z where z: "z < total_zones (pm_mem s)"
      "packetmem_zone_alloc (ok z) z len (pm_mem s) = Some (pm', h)"
    using alloc_zones_zone by fastforce
  with assms(1) have t: "zone_tiled z (freelist (pm_mem s) z) (pm_live s)" by (simp add: pm_tiled_def)
  note a = zone_alloc_tiled [OF z(2) t]
  have "zone_tiled z' (freelist pm' z') (h # pm_live s)" if "z' < total_zones (pm_mem s)" for z'
    using assms(1) that a(1,3) a(5) [of z'] by (cases "z' = z") (auto simp: pm_tiled_def zone_tiled_def live_in_Cons)
  then show ?thesis using assms(1) a(1,4) z(1) by (simp add: pm_tiled_def)
qed

lemma cover_remove1: "h \<in> set hs \<Longrightarrow> cover hs b = covers b h + cover (remove1 h hs) b"
  by (induction hs) auto

lemma live_in_remove1: "live_in z (remove1 h hs) = (if ph_zone h = z then remove1 h (live_in z hs) else live_in z hs)"
  by (simp add: live_in_def filter_remove1 remove1_idem)

lemma free_tiled:
  assumes "pm_tiled s" and "h \<in> set (pm_live s)"
  shows "pm_tiled \<lparr>pm_mem = packetmem_free h (pm_mem s), pm_live = remove1 h (pm_live s)\<rparr>"
proof -
  let ?z = "ph_zone h" and ?pm = "pm_mem s"
  have z: "?z < total_zones ?pm" using assms by (auto simp: pm_tiled_def list_all_iff)
  have t: "zone_tiled ?z (freelist ?pm ?z) (pm_live s)" using assms z by (simp add: pm_tiled_def)
  have hz: "h \<in> set (live_in ?z (pm_live s))" using assms(2) by (simp add: live_in_def)
  obtain prv rest where fp: "free_place (ph_base h) [] (freelist ?pm ?z) = (prv, rest)" by fastforce
  have fl: "freelist ?pm ?z = prv @ rest" using free_place_append [OF fp] by simp
  have ok: "in_zone h" "list_all in_zone prv" "list_all in_zone rest"
    using t hz by (auto simp: zone_tiled_def fl list_all_iff)
  have zs: "list_all (\<lambda>x. ph_zone x = ?z) (merge_items prv h rest)"
    using t by (intro merge_items_zones) (auto simp: zone_tiled_def fl)
  have f: "freelist (packetmem_free h ?pm) = (freelist ?pm)(?z := merge_items prv h rest)"
    "total_zones (packetmem_free h ?pm) = total_zones ?pm"
    by (simp_all add: packetmem_free_def fp)
  have "zone_tiled ?z (merge_items prv h rest) (remove1 h (pm_live s))"
    by (rule zone_tiled_cover [OF t])
       (use zs merge_items_regions [OF ok] cover_remove1 [OF hz] zone_tiled_regions [OF t] in
         \<open>auto simp: fl live_in_remove1 list_all_iff dest: notin_set_remove1\<close>)
  moreover have "zone_tiled z' (freelist ?pm z') (remove1 h (pm_live s))"
    if "z' < total_zones ?pm" "z' \<noteq> ?z" for z'
    using assms(1) that by (auto simp: pm_tiled_def zone_tiled_def live_in_remove1)
  moreover have "list_all (\<lambda>h. ph_zone h < total_zones ?pm) (remove1 h (pm_live s))"
    using assms(1) by (auto simp: pm_tiled_def list_all_iff dest: notin_set_remove1)
  ultimately show ?thesis by (auto simp: pm_tiled_def f)
qed

interpretation pm: invariant_system pm_step pm_ok pm_tiled
proof
  fix s e assume "pm_tiled s" "pm_ok e s"
  then show "pm_tiled (pm_step e s)"
    by (cases e) (auto simp: free_tiled intro: alloc_tiled split: option.splits)
qed

subsection \<open>Initialisation\<close>

lemma init_zones_freelist:
  "init_zones ok zs pm = (pm', True) \<Longrightarrow>
     total_zones pm' = total_zones pm \<and>
     freelist pm' = (\<lambda>z. if z \<in> set zs then [\<lparr>ph_base = 0, ph_len = HUGE_PAGE_SIZE, ph_zone = z\<rparr>] else freelist pm z)"
  by (induction ok zs pm rule: init_zones.induct) (auto split: if_splits)

lemma packetmem_init_tiled:
  assumes "packetmem_init sz ok pm = (pm', True)"
  shows "pm_tiled \<lparr>pm_mem = pm', pm_live = []\<rparr>"
proof -
  have "init_zones ok [0..<total_zones pm'] (pm\<lparr>total_zones := total_zones pm'\<rparr>) = (pm', True)"
    using assms init_zones_freelist by (fastforce simp: packetmem_init_def Let_def split: if_splits)
  from init_zones_freelist [OF this] show ?thesis
    by (auto simp: pm_tiled_def zone_tiled_def in_zone_def live_in_def covers_def HUGE_PAGE_SIZE_def)
qed

subsection \<open>Properties\<close>

lemma cover_nth:
  "i < length hs \<Longrightarrow> cover hs b = covers b (hs ! i) + cover (take i hs @ drop (Suc i) hs) b"
  by (subst id_take_nth_drop [of i hs]) auto

lemma cover_two:
  assumes "i < j" and "j < length hs" and "covers b (hs ! i) = 1" and "covers b (hs ! j) = 1"
  shows "2 \<le> cover hs b"
proof -
  have "hs ! j \<in> set (drop (Suc i) hs)"
    using assms(1,2) by (auto simp: in_set_conv_nth intro!: exI [of _ "j - Suc i"])
  from cover_remove1 [OF this, of b] have "1 \<le> cover (drop (Suc i) hs) b" using assms(4) by simp
  then show ?thesis using cover_nth [of i hs b] assms by simp
qed

lemma cover_live_in: "cover (live_in z hs) b = cover (map (\<lambda>h. if ph_zone h = z then h else h\<lparr>ph_len := 0\<rparr>) hs) b"
  by (induction hs) (auto simp: live_in_def covers_def)

lemma live_disjoint:
  assumes "zone_tiled z fl live" and "i < j" and "j < length live"
    and "ph_zone (live ! i) = z" and "ph_zone (live ! j) = z"
  shows "covers b (live ! i) + covers b (live ! j) \<le> 1"
proof -
  have "cover (live_in z live) b \<le> 1"
  proof -
    have "cover fl b + cover (live_in z live) b \<le> 1" using assms(1) by (simp add: zone_tiled_def)
    then show ?thesis by simp
  qed
  moreover have "covers b (live ! i) \<le> 1" "covers b (live ! j) \<le> 1" by (simp_all add: covers_def)
  ultimately show ?thesis
    using assms(2-5) cover_two [of i j "map (\<lambda>h. if ph_zone h = z then h else h\<lparr>ph_len := 0\<rparr>) live" b]
    by (fastforce simp: cover_live_in)
qed

text \<open>
  C21. Safety of the memory manager. After a successful initialisation and any sequence of
  allocations, failed ones included, and of frees of regions that are held, every byte of every
  zone is in exactly one region, free or held, and no region reaches beyond its zone: no byte is
  lost, none is handed out twice, and two regions held in the same zone share no byte.
\<close>

theorem packetmem_tiles:
  fixes pm0
  assumes "packetmem_init dma_mem_size ph_ok pm0 = (pm, True)"
    and "run_ok pm_step pm_ok es \<lparr>pm_mem = pm, pm_live = []\<rparr>"
  defines "s \<equiv> run pm_step es \<lparr>pm_mem = pm, pm_live = []\<rparr>"
  shows "(\<forall>z b. z < total_zones (pm_mem s) \<longrightarrow>
       cover (freelist (pm_mem s) z @ live_in z (pm_live s)) b = (if b < 2 ^ 30 then 1 else 0)) \<and>
    (\<forall>i j b. i < j \<and> j < length (pm_live s) \<and> ph_zone (pm_live s ! i) = ph_zone (pm_live s ! j) \<longrightarrow>
       covers b (pm_live s ! i) + covers b (pm_live s ! j) \<le> 1)"
proof -
  have inv: "pm_tiled s"
    unfolding s_def by (rule pm.run_invar [OF packetmem_init_tiled [OF assms(1)] assms(2)])
  then have "covers b (pm_live s ! i) + covers b (pm_live s ! j) \<le> 1"
    if "i < j" "j < length (pm_live s)" "ph_zone (pm_live s ! i) = ph_zone (pm_live s ! j)" for i j b
    using that live_disjoint by (auto simp: pm_tiled_def list_all_length)
  with inv show ?thesis by (auto simp: pm_tiled_def zone_tiled_def)
qed

definition two_zones :: packetmem where
  "two_zones = fst (packetmem_init 0x80000000 (\<lambda>_. True) \<lparr>freelist = \<lambda>_. [], total_zones = 0\<rparr>)"

lemma two_zones_init:
  "packetmem_init 0x80000000 (\<lambda>_. True) \<lparr>freelist = \<lambda>_. [], total_zones = 0\<rparr> = (two_zones, True)"
  by (simp add: two_zones_def packetmem_init_def HUGE_PAGE_SIZE_def PACKETMEM_MAX_ZONES_def Let_def upt_rec)

lemma two_zones_eval:
  "total_zones two_zones = 2"
  "freelist two_zones z = (if z < 2 then [\<lparr>ph_base = 0, ph_len = HUGE_PAGE_SIZE, ph_zone = z\<rparr>] else [])"
proof -
  have "init_zones (\<lambda>_. True) [0..<2] \<lparr>freelist = \<lambda>_. [], total_zones = 2\<rparr> = (two_zones, True)"
    using two_zones_init by (simp add: packetmem_init_def HUGE_PAGE_SIZE_def PACKETMEM_MAX_ZONES_def Let_def)
  from init_zones_freelist [OF this] show "total_zones two_zones = 2"
    "freelist two_zones z = (if z < 2 then [\<lparr>ph_base = 0, ph_len = HUGE_PAGE_SIZE, ph_zone = z\<rparr>] else [])" by auto
qed

lemma two_zones_run:
  "total_zones (pm_mem (run pm_step [Alloc (\<lambda>_. True) 4096, Alloc (\<lambda>_. True) 8192]
     \<lparr>pm_mem = two_zones, pm_live = []\<rparr>)) = 2"
  by (simp add: two_zones_eval HUGE_PAGE_SIZE_def packetmem_alloc_def packetmem_zone_alloc_def upt_rec)

theorem packetmem_tiles_witness:
  fixes s
  defines "s \<equiv> run pm_step [Alloc (\<lambda>_. True) 4096, Alloc (\<lambda>_. True) 8192]
          \<lparr>pm_mem = two_zones, pm_live = []\<rparr>"
  shows "cover (freelist (pm_mem s) 0 @ live_in 0 (pm_live s)) 5000 = 1 \<and>
      cover (freelist (pm_mem s) 0 @ live_in 0 (pm_live s)) 0x40000000 = 0"
proof -
  have "run_ok pm_step pm_ok [Alloc (\<lambda>_. True) 4096, Alloc (\<lambda>_. True) 8192] \<lparr>pm_mem = two_zones, pm_live = []\<rparr>"
    by simp
  from packetmem_tiles [OF two_zones_init this, folded s_def]
  have "\<forall>z b. z < total_zones (pm_mem s) \<longrightarrow>
     cover (freelist (pm_mem s) z @ live_in z (pm_live s)) b = (if b < 2 ^ 30 then 1 else 0)" by (rule conjunct1)
  moreover have "0 < total_zones (pm_mem s)" unfolding s_def two_zones_run by simp
  ultimately show ?thesis by simp
qed

lemma zone_alloc_None:
  "packetmem_zone_alloc True z len pm = None \<longleftrightarrow> list_all (\<lambda>h. ph_len h < len) (freelist pm z)"
  by (auto simp: packetmem_zone_alloc_def simp flip: first_fit_None [of len "[]"] split: option.splits if_splits)

lemma zone_alloc_Some:
  assumes "packetmem_zone_alloc ok z len pm = Some (pm', h)"
  shows "\<exists>prv ph rest. freelist pm z = prv @ ph # rest \<and> len \<le> ph_len ph \<and>
     list_all (\<lambda>h. ph_len h < len) prv \<and> ph_base h = ph_base ph \<and> ph_len h = len \<and>
     ph_zone h = ph_zone ph \<and> (\<forall>z'. z' \<noteq> z \<longrightarrow> freelist pm' z' = freelist pm z')"
proof -
  from assms obtain prv ph rest where ff: "first_fit len [] (freelist pm z) = Some (prv, ph, rest)"
    by (auto simp: packetmem_zone_alloc_def split: option.splits)
  then show ?thesis using first_fit_Some [OF ff] assms
    by (intro exI [of _ prv] exI [of _ ph] exI [of _ rest])
       (auto simp: packetmem_zone_alloc_def split: if_splits)
qed

lemma alloc_zones_first:
  assumes "alloc_zones ok [m..<n] len pm = Some (pm', h)"
  shows "\<exists>z\<ge>m. z < n \<and> alloc_zones ok [m..<z] len pm = None \<and>
     packetmem_zone_alloc (ok z) z len pm = Some (pm', h)"
  using assms
proof (induction "n - m" arbitrary: m)
  case (Suc k)
  then have m: "m < n" by simp
  show ?case
  proof (cases "packetmem_zone_alloc (ok m) m len pm")
    case None
    with Suc.prems m have "alloc_zones ok [Suc m..<n] len pm = Some (pm', h)" by (simp add: upt_conv_Cons)
    with Suc.hyps obtain z where "Suc m \<le> z" "z < n" "alloc_zones ok [Suc m..<z] len pm = None"
        "packetmem_zone_alloc (ok z) z len pm = Some (pm', h)" by (metis Suc_diff_Suc diff_Suc_1 m nat.inject)
    with None show ?thesis by (intro exI [of _ z]) (simp add: upt_conv_Cons)
  next
    case (Some r)
    with Suc.prems m show ?thesis by (intro exI [of _ m]) (simp add: upt_conv_Cons)
  qed
qed simp



text \<open>
  Freed neighbours are not always merged: the search loop of \<open>packetmem_free\<close> stops one handle
  early and inserts before it, so the list is not in the order of addresses. Two regions are
  allocated and freed in the order of their addresses. Nothing is held any more, yet the zone is
  left in three pieces and cannot be allocated as a whole.
\<close>

theorem packetmem_free_fragments:
  fixes s
  defines "s \<equiv> run pm_step
     [Alloc (\<lambda>_. True) 4096, Alloc (\<lambda>_. True) 4096,
      Free \<lparr>ph_base = 0, ph_len = 4096, ph_zone = 0\<rparr>, Free \<lparr>ph_base = 4096, ph_len = 4096, ph_zone = 0\<rparr>]
     \<lparr>pm_mem = two_zones\<lparr>total_zones := 1\<rparr>, pm_live = []\<rparr>"
  shows "pm_live s = [] \<and> length (freelist (pm_mem s) 0) = 3 \<and>
    packetmem_alloc (\<lambda>_. True) HUGE_PAGE_SIZE (pm_mem s) = None"
  by (simp add: s_def two_zones_eval HUGE_PAGE_SIZE_def packetmem_alloc_def packetmem_zone_alloc_def
      packetmem_free_def merge_items_def upt_rec)

text \<open>
  The offset handed out is relative to the zone, and the callers add it to the start of the
  whole memory: with two zones, two regions held at the same time get the same offset.
\<close>

theorem packetmem_alloc_zones_alias:
  "\<exists>pm' h pm'' h'. packetmem_alloc (\<lambda>_. True) HUGE_PAGE_SIZE two_zones = Some (pm', 0, h) \<and>
     packetmem_alloc (\<lambda>_. True) HUGE_PAGE_SIZE pm' = Some (pm'', 0, h') \<and> h \<noteq> h'"
  by (simp add: two_zones_eval HUGE_PAGE_SIZE_def packetmem_alloc_def packetmem_zone_alloc_def upt_rec)

end
