(* ===== verification/Routing.thy ===== *)
theory Routing
  imports Flextoe_Prelude
begin

unbundle bit_operations_syntax

text \<open>
  The routing table of the slow path (user/routing.c): network masks, the table built from the
  configuration, first-match lookup, and the loop that follows next hops until an address on the
  local network is found. The list of configured routes is the list of its elements in the order
  of the \<open>next\<close> pointers.

  The loop of \<open>routing_resolve\<close> need not end. It is a partial function, \<open>None\<close> standing for a loop
  that does not return; the theorems say when it returns and with what.
\<close>

subsection \<open>Data\<close>

record config_route =
  cr_ip :: u32
  cr_ip_prefix :: u8
  cr_next_hop_ip :: u32

record routing_table_entry =
  dest_ip :: u32
  dest_mask :: u32
  next_hop :: u32

datatype route_error = Table_Alloc_Failed | Mask_Removes_Bits config_route

subsection \<open>Operations\<close>

text \<open>The shift count is \<open>32 - len\<close>; lengths above 32 are outside what C defines.\<close>

definition prefix_len_mask :: "u8 \<Rightarrow> u32" where
  "prefix_len_mask len = ucast (NOT (push_bit (32 - unat len) 1 - 1) :: u64)"

fun fill_routes ::
  "config_route list \<Rightarrow> routing_table_entry list \<Rightarrow> route_error + routing_table_entry list" where
  "fill_routes [] tbl = Inr tbl"
| "fill_routes (cr # crs) tbl =
     (let mask = prefix_len_mask (cr_ip_prefix cr)
      in if mask AND cr_ip cr \<noteq> cr_ip cr then Inl (Mask_Removes_Bits cr)
         else fill_routes crs
           (tbl @ [\<lparr>dest_ip = cr_ip cr, dest_mask = mask, next_hop = cr_next_hop_ip cr\<rparr>]))"

definition routing_init ::
  "bool \<Rightarrow> u32 \<Rightarrow> u8 \<Rightarrow> config_route list \<Rightarrow> route_error + routing_table_entry list" where
  "routing_init alloc_ok ip ip_prefix routes =
     (if \<not> alloc_ok then Inl Table_Alloc_Failed
      else let mask = prefix_len_mask ip_prefix
           in fill_routes routes [\<lparr>dest_ip = ip AND mask, dest_mask = mask, next_hop = 0\<rparr>])"

fun resolve :: "routing_table_entry list \<Rightarrow> u32 \<Rightarrow> routing_table_entry option" where
  "resolve [] ip = None"
| "resolve (e # tbl) ip = (if dest_ip e = ip AND dest_mask e then Some e else resolve tbl ip)"

text \<open>
  The loop of \<open>routing_resolve\<close>: \<open>Some None\<close> when no route is found, \<open>Some (Some ip)\<close> when \<open>ip\<close> is
  to be looked up on the local network.
\<close>

partial_function (option) route_loop :: "routing_table_entry list \<Rightarrow> u32 \<Rightarrow> u32 option option" where
  "route_loop tbl ip =
     (case resolve tbl ip of
        None \<Rightarrow> Some None
      | Some rte \<Rightarrow> if next_hop rte = 0 then Some (Some ip) else route_loop tbl (next_hop rte))"

subsection \<open>Masks\<close>

lemma bit_prefix_len_mask:
  assumes "len \<le> 32"
  shows "bit (prefix_len_mask len) i \<longleftrightarrow> 32 - unat len \<le> i \<and> i < 32"
proof -
  have "(push_bit (32 - unat len) 1 - 1 :: u64) = mask (32 - unat len)"
    by (simp add: mask_eq_exp_minus_1 push_bit_eq_mult)
  then show ?thesis
    by (auto simp: prefix_len_mask_def bit_ucast_iff bit_not_iff bit_mask_iff dest: bit_imp_le_length)
qed

text \<open>Two addresses agree under the mask when they agree in their first \<open>len\<close> bits.\<close>

lemma prefix_mask_eq_iff:
  assumes "len \<le> 32"
  shows "a AND prefix_len_mask len = b AND prefix_len_mask len \<longleftrightarrow>
     unat a div 2 ^ (32 - unat len) = unat b div 2 ^ (32 - unat len)"
proof -
  have "a AND prefix_len_mask len = b AND prefix_len_mask len \<longleftrightarrow>
      (\<forall>i<32. 32 - unat len \<le> i \<longrightarrow> bit a i = bit b i)"
    using bit_prefix_len_mask [OF assms] by (auto simp: bit_eq_iff bit_and_iff dest: bit_imp_le_length)
  also have "\<dots> \<longleftrightarrow> drop_bit (32 - unat len) a = drop_bit (32 - unat len) b"
  proof
    assume "\<forall>i<32. 32 - unat len \<le> i \<longrightarrow> bit a i = bit b i"
    then have "bit a i = bit b i" if "32 - unat len \<le> i" for i
      using that by (cases "i < 32") (auto dest: bit_imp_le_length)
    then show "drop_bit (32 - unat len) a = drop_bit (32 - unat len) b"
      by (intro bit_word_eqI) (simp add: bit_drop_bit_eq)
  next
    assume "drop_bit (32 - unat len) a = drop_bit (32 - unat len) b"
    then have "bit (drop_bit (32 - unat len) a) j = bit (drop_bit (32 - unat len) b) j" for j by (rule arg_cong)
    then have d: "bit a (32 - unat len + j) = bit b (32 - unat len + j)" for j
      unfolding bit_drop_bit_eq comp_apply .
    have "bit a i = bit b i" if "32 - unat len \<le> i" for i
      using d [of "i - (32 - unat len)"] unfolding le_add_diff_inverse [OF that] .
    then show "\<forall>i<32. 32 - unat len \<le> i \<longrightarrow> bit a i = bit b i" by blast
  qed
  also have "\<dots> \<longleftrightarrow> unat a div 2 ^ (32 - unat len) = unat b div 2 ^ (32 - unat len)"
    by (simp add: unat_drop_bit word_unat_eq_iff)
  finally show ?thesis .
qed

subsection \<open>The table\<close>

definition route_entry :: "config_route \<Rightarrow> routing_table_entry" where
  "route_entry cr =
     \<lparr>dest_ip = cr_ip cr, dest_mask = prefix_len_mask (cr_ip_prefix cr), next_hop = cr_next_hop_ip cr\<rparr>"

definition route_valid :: "config_route \<Rightarrow> bool" where
  "route_valid cr \<longleftrightarrow> prefix_len_mask (cr_ip_prefix cr) AND cr_ip cr = cr_ip cr"

lemma fill_routes_Inr:
  "fill_routes crs tbl = Inr t \<longleftrightarrow> list_all route_valid crs \<and> t = tbl @ map route_entry crs"
  by (induction crs arbitrary: tbl) (auto simp: route_valid_def route_entry_def Let_def split: if_splits)

lemma resolve_append: "resolve (xs @ ys) ip = (case resolve xs ip of None \<Rightarrow> resolve ys ip | r \<Rightarrow> r)"
  by (induction xs) auto

lemma resolve_find: "resolve tbl ip = find (\<lambda>e. dest_ip e = ip AND dest_mask e) tbl"
  by (induction tbl) auto

lemma resolve_in: "resolve tbl ip = Some e \<Longrightarrow> e \<in> set tbl"
  by (induction tbl) (auto split: if_splits)

subsection \<open>When the loop ends\<close>

text \<open>The entry used after \<open>n\<close> hops, if the loop comes that far.\<close>

fun hop :: "routing_table_entry list \<Rightarrow> u32 \<Rightarrow> nat \<Rightarrow> routing_table_entry option" where
  "hop tbl ip 0 = resolve tbl ip"
| "hop tbl ip (Suc n) =
     (case hop tbl ip n of
        None \<Rightarrow> None
      | Some e \<Rightarrow> if next_hop e = 0 then None else resolve tbl (next_hop e))"

lemma hop_in: "hop tbl ip n = Some e \<Longrightarrow> e \<in> set tbl"
  by (cases n) (auto intro: resolve_in split: option.splits if_splits)

lemma hop_Suc_front:
  "resolve tbl ip = Some e \<Longrightarrow> next_hop e \<noteq> 0 \<Longrightarrow> hop tbl ip (Suc n) = hop tbl (next_hop e) n"
  by (induction n) auto

lemma hop_None_mono: "hop tbl ip m = None \<Longrightarrow> m \<le> n \<Longrightarrow> hop tbl ip n = None"
  by (induction n) (auto simp: le_Suc_eq)

lemma hop_cong: "hop tbl ip i = hop tbl ip j \<Longrightarrow> hop tbl ip (i + k) = hop tbl ip (j + k)"
  by (induction k) auto

text \<open>A chain longer than the table repeats an entry, and then never ends.\<close>

lemma hop_repeats:
  assumes "hop tbl ip (length tbl) \<noteq> None"
  shows "hop tbl ip n \<noteq> None"
proof -
  let ?N = "{..length tbl}"
  have some: "hop tbl ip i \<noteq> None" if "i \<in> ?N" for i
    using assms hop_None_mono that by (metis atMost_iff)
  have "the ` hop tbl ip ` ?N \<subseteq> set tbl" using some hop_in by fastforce
  then have "card ((\<lambda>i. the (hop tbl ip i)) ` ?N) < card ?N"
    using card_mono [OF finite_set] card_length [of tbl] by (fastforce simp: image_image)
  then obtain x y where xy: "x \<in> ?N" "y \<in> ?N" "x \<noteq> y" "the (hop tbl ip x) = the (hop tbl ip y)"
    using pigeonhole [of "\<lambda>i. the (hop tbl ip i)" ?N] by (auto simp: inj_on_def)
  then have "hop tbl ip x = hop tbl ip y" using some by (metis option.expand)
  with xy obtain i j where ij: "i < j" "j \<in> ?N" "hop tbl ip i = hop tbl ip j"
    by (metis linorder_neqE_nat)
  have "hop tbl ip (i + q * (j - i)) = hop tbl ip i" for q
  proof (induction q)
    case (Suc q)
    have "hop tbl ip (i + Suc q * (j - i)) = hop tbl ip (j + q * (j - i))" using ij(1) by simp
    also have "\<dots> = hop tbl ip (i + q * (j - i))" by (rule hop_cong) (simp add: ij(3))
    finally show ?case using Suc by simp
  qed simp
  then have "hop tbl ip (i + n * (j - i)) \<noteq> None" using some [of i] ij(1,2) by simp
  moreover have "n \<le> i + n * (j - i)" using ij(1) mult_le_mono2 [of 1 "j - i" n] by linarith
  ultimately show ?thesis using hop_None_mono [of tbl ip n "i + n * (j - i)"] by (cases "hop tbl ip n") auto
qed

lemma route_loop_hop: "hop tbl ip n = None \<Longrightarrow> \<exists>r. route_loop tbl ip = Some r"
proof (induction n arbitrary: ip)
  case 0
  then show ?case by (simp add: route_loop.simps [of tbl ip])
next
  case (Suc n)
  show ?case
  proof (cases "resolve tbl ip")
    case None
    then show ?thesis by (simp add: route_loop.simps [of tbl ip])
  next
    case (Some e)
    show ?thesis
    proof (cases "next_hop e = 0")
      case True
      with Some show ?thesis by (simp add: route_loop.simps [of tbl ip])
    next
      case False
      with Some Suc.prems have "hop tbl (next_hop e) n = None" by (simp add: hop_Suc_front del: hop.simps)
      with Suc.IH Some False show ?thesis by (simp add: route_loop.simps [of tbl ip])
    qed
  qed
qed

lemma route_loop_ends:
  assumes "route_loop tbl ip = Some r"
  shows "\<exists>n. hop tbl ip n = None"
proof (rule route_loop.raw_induct [OF _ assms])
  fix f :: "routing_table_entry list \<Rightarrow> u32 \<Rightarrow> u32 option option" and tbl ip r
  assume IH: "\<And>tbl ip r. f tbl ip = Some r \<Longrightarrow> \<exists>n. hop tbl ip n = None"
    and r: "(case resolve tbl ip of None \<Rightarrow> Some None
      | Some rte \<Rightarrow> if next_hop rte = 0 then Some (Some ip) else f tbl (next_hop rte)) = Some r"
  consider "resolve tbl ip = None" | e where "resolve tbl ip = Some e" "next_hop e = 0"
    | e where "resolve tbl ip = Some e" "next_hop e \<noteq> 0" by (cases "resolve tbl ip") auto
  then show "\<exists>n. hop tbl ip n = None"
  proof cases
    case 1
    then have "hop tbl ip 0 = None" by simp
    then show ?thesis by blast
  next
    case 2
    then have "hop tbl ip (Suc 0) = None" by simp
    then show ?thesis by blast
  next
    case 3
    with r have "f tbl (next_hop e) = Some r" by simp
    with IH obtain n where "hop tbl (next_hop e) n = None" by blast
    with 3 have "hop tbl ip (Suc n) = None" by (simp add: hop_Suc_front del: hop.simps)
    then show ?thesis by blast
  qed
qed

subsection \<open>Properties\<close>

definition same_net :: "u8 \<Rightarrow> u32 \<Rightarrow> u32 \<Rightarrow> bool" where
  "same_net len a b \<longleftrightarrow> unat a div 2 ^ (32 - unat len) = unat b div 2 ^ (32 - unat len)"

lemma masked_iff:
  assumes "len \<le> 32"
  shows "prefix_len_mask len AND a = a \<longleftrightarrow> unat a mod 2 ^ (32 - unat len) = 0"
proof -
  have "prefix_len_mask len AND a = a \<longleftrightarrow> take_bit (32 - unat len) a = 0"
    using bit_prefix_len_mask [OF assms]
    by (auto simp: bit_eq_iff bit_and_iff bit_take_bit_iff dest: bit_imp_le_length)
  also have "\<dots> \<longleftrightarrow> unat (take_bit (32 - unat len) a) = 0" by (simp add: unat_eq_0)
  also have "\<dots> \<longleftrightarrow> unat a mod 2 ^ (32 - unat len) = 0"
    unfolding unsigned_take_bit_eq by (simp add: take_bit_eq_mod)
  finally show ?thesis .
qed

lemma route_match:
  assumes "cr_ip_prefix cr \<le> 32" and "route_valid cr"
  shows "cr_ip cr = ip AND prefix_len_mask (cr_ip_prefix cr) \<longleftrightarrow> same_net (cr_ip_prefix cr) ip (cr_ip cr)"
  using prefix_mask_eq_iff [OF assms(1), of ip "cr_ip cr"] assms(2)
  by (auto simp: route_valid_def same_net_def and.commute)

lemma fill_routes_Inl:
  "fill_routes crs tbl =
     (case find (\<lambda>cr. \<not> route_valid cr) crs of
        Some cr \<Rightarrow> Inl (Mask_Removes_Bits cr)
      | None \<Rightarrow> Inr (tbl @ map route_entry crs))"
  by (induction crs arbitrary: tbl) (auto simp: route_valid_def route_entry_def Let_def split: option.splits)

text \<open>
  Initialisation fails when the table cannot be allocated, and on the first route that has
  bits set outside its prefix. Otherwise the table has the local network first and the configured
  routes after it, in the order of the configuration.
\<close>

theorem routing_init_table:
  assumes "list_all (\<lambda>cr. cr_ip_prefix cr \<le> 32) routes"
  shows "routing_init alloc_ok ip pfx routes =
    (if \<not> alloc_ok then Inl Table_Alloc_Failed
     else case find (\<lambda>cr. unat (cr_ip cr) mod 2 ^ (32 - unat (cr_ip_prefix cr)) \<noteq> 0) routes of
            Some cr \<Rightarrow> Inl (Mask_Removes_Bits cr)
          | None \<Rightarrow> Inr (\<lparr>dest_ip = ip AND prefix_len_mask pfx, dest_mask = prefix_len_mask pfx, next_hop = 0\<rparr> #
              map route_entry routes))"
proof -
  have "find (\<lambda>cr. unat (cr_ip cr) mod 2 ^ (32 - unat (cr_ip_prefix cr)) \<noteq> 0) routes =
      find (\<lambda>cr. \<not> route_valid cr) routes"
    using assms by (intro find_cong) (auto simp: list_all_iff route_valid_def masked_iff)
  then show ?thesis by (simp add: routing_init_def fill_routes_Inl Let_def split: option.splits)
qed

theorem routing_init_table_witness:
  "routing_init True 0xC0A80101 24
      [\<lparr>cr_ip = 0x0A000000, cr_ip_prefix = 8, cr_next_hop_ip = 0xC0A801FE\<rparr>,
       \<lparr>cr_ip = 0x0B010000, cr_ip_prefix = 8, cr_next_hop_ip = 0xC0A801FE\<rparr>] =
     Inl (Mask_Removes_Bits \<lparr>cr_ip = 0x0B010000, cr_ip_prefix = 8, cr_next_hop_ip = 0xC0A801FE\<rparr>)"
  by (subst routing_init_table) simp_all

text \<open>
  Resolution when the next hop of every route is on the local network, as a working
  configuration has it: the loop returns after at most one hop. An address of the local network is
  looked up itself; for any other the first route whose network contains it gives the address to
  look up, its next hop or, when that is 0, the address itself; without such a route resolution
  fails.
\<close>

theorem route_loop_local_hops:
  assumes "routing_init alloc_ok ip pfx routes = Inr tbl" and "pfx \<le> 32"
    and "list_all (\<lambda>cr. cr_ip_prefix cr \<le> 32) routes"
    and "list_all (\<lambda>cr. cr_next_hop_ip cr = 0 \<or> same_net pfx (cr_next_hop_ip cr) ip) routes"
  shows "route_loop tbl dst = Some
    (if same_net pfx dst ip then Some dst
     else case find (\<lambda>cr. same_net (cr_ip_prefix cr) dst (cr_ip cr)) routes of
            None \<Rightarrow> None
          | Some cr \<Rightarrow> Some (if cr_next_hop_ip cr = 0 then dst else cr_next_hop_ip cr))"
proof -
  let ?e = "\<lparr>dest_ip = ip AND prefix_len_mask pfx, dest_mask = prefix_len_mask pfx, next_hop = 0\<rparr>"
  have v: "list_all route_valid routes" and tbl: "tbl = ?e # map route_entry routes"
    using assms(1) by (auto simp: routing_init_def fill_routes_Inr Let_def split: if_splits)
  have r: "resolve tbl a = (if same_net pfx a ip then Some ?e
      else map_option route_entry (find (\<lambda>cr. same_net (cr_ip_prefix cr) a (cr_ip cr)) routes))" for a
  proof -
    have "resolve (map route_entry routes) a =
        map_option route_entry (find (\<lambda>cr. same_net (cr_ip_prefix cr) a (cr_ip cr)) routes)"
      using v assms(3) by (induction routes) (auto simp: route_match route_entry_def)
    then show ?thesis
      using prefix_mask_eq_iff [OF assms(2), of ip a] by (auto simp: tbl same_net_def)
  qed
  have loc: "route_loop tbl a = Some (Some a)" if "same_net pfx a ip" for a
    using that by (subst route_loop.simps) (simp add: r)
  have "cr_next_hop_ip cr = 0 \<or> same_net pfx (cr_next_hop_ip cr) ip"
    if "find (\<lambda>cr. same_net (cr_ip_prefix cr) dst (cr_ip cr)) routes = Some cr" for cr
    using that assms(4) by (auto simp: find_Some_iff list_all_length)
  then show ?thesis
    by (subst route_loop.simps) (auto simp: r loc route_entry_def split: option.splits)
qed

theorem route_loop_local_hops_witness:
  "route_loop [\<lparr>dest_ip = 0xC0A80100, dest_mask = 0xFFFFFF00, next_hop = 0\<rparr>,
          \<lparr>dest_ip = 0x0A000000, dest_mask = 0xFF000000, next_hop = 0xC0A801FE\<rparr>] 0x0A010203 =
     Some (Some 0xC0A801FE)"
proof -
  let ?rs = "[\<lparr>cr_ip = 0x0A000000, cr_ip_prefix = 8, cr_next_hop_ip = 0xC0A801FE\<rparr>]"
  have i: "routing_init True 0xC0A80101 24 ?rs =
     Inr [\<lparr>dest_ip = 0xC0A80100, dest_mask = 0xFFFFFF00, next_hop = 0\<rparr>,
          \<lparr>dest_ip = 0x0A000000, dest_mask = 0xFF000000, next_hop = 0xC0A801FE\<rparr>]"
    by (simp add: routing_init_def prefix_len_mask_def Let_def)
  have n: "same_net 24 0xC0A801FE 0xC0A80101" "\<not> same_net 24 0x0A010203 0xC0A80101" "same_net 8 0x0A010203 0x0A000000"
    by (simp_all add: same_net_def)
  show ?thesis
    using route_loop_local_hops [OF i, of "0x0A010203"] n by simp
qed

text \<open>
  When the loop ends. It returns exactly when the chain of entries it follows is not longer
  than the table: a longer chain repeats an entry and goes round for ever.
\<close>

theorem route_loop_returns:
  "(\<exists>r. route_loop tbl ip = Some r) \<longleftrightarrow> hop tbl ip (length tbl) = None"
  using route_loop_hop route_loop_ends hop_repeats by blast


end
