(* ===== verification/Util.thy ===== *)
theory Util
  imports Flextoe_Prelude
begin

unbundle bit_operations_syntax

text \<open>
  The helpers of util/: copying in and out of circular buffers (circ.h), the queue between threads
  of the slow path (nbqueue.h), the ring buffer (ringbuffer.h, ringbuffer.c) and the pseudo-random
  generator (rng.c). Addresses are naturals, since no object wraps around the address space; sizes
  are 64-bit words as in the code, so that their sums can wrap.
\<close>

subsection \<open>Circular buffers\<close>

type_synonym 'b mem = "nat \<Rightarrow> 'b"

definition memcpy :: "nat \<Rightarrow> nat \<Rightarrow> nat \<Rightarrow> 'b mem \<Rightarrow> 'b mem" where
  "memcpy dst src n m = (\<lambda>a. if dst \<le> a \<and> a < dst + n then m (src + (a - dst)) else m a)"

lemma memcpy_in: "i < n \<Longrightarrow> memcpy dst src n m (dst + i) = m (src + i)"
  by (simp add: memcpy_def)

lemma memcpy_out: "\<not> (dst \<le> a \<and> a < dst + n) \<Longrightarrow> memcpy dst src n m a = m a"
  by (auto simp: memcpy_def)

text \<open>First range, its length, and the second range if there is one.\<close>

definition circ_range :: "nat \<Rightarrow> u64 \<Rightarrow> u64 \<Rightarrow> u64 \<Rightarrow> nat \<times> u64 \<times> nat option" where
  "circ_range b b_len pos len =
     (if pos + len \<le> b_len then (b + unat pos, len, None) else (b + unat pos, b_len - pos, Some b))"

definition circ_offset :: "u64 \<Rightarrow> u64 \<Rightarrow> u64 \<Rightarrow> u64" where
  "circ_offset pos len off = (let pos = pos + off in if len \<le> pos then pos - len else pos)"

definition circ_in_interval :: "u64 \<Rightarrow> u64 \<Rightarrow> u64 \<Rightarrow> u64 \<Rightarrow> bool" where
  "circ_in_interval start e len pos =
     (if start < e then start \<le> pos \<and> pos \<le> e else start \<le> pos \<or> pos \<le> e)"

definition circ_read :: "nat \<Rightarrow> nat \<Rightarrow> u64 \<Rightarrow> u64 \<Rightarrow> u64 \<Rightarrow> 'b mem \<Rightarrow> 'b mem" where
  "circ_read d b_base b_len pos len m =
     (case circ_range b_base b_len pos len of
        (b1, l, None) \<Rightarrow> memcpy d b1 (unat l) m
      | (b1, l, Some b2) \<Rightarrow> memcpy (d + unat l) b2 (unat (len - l)) (memcpy d b1 (unat l) m))"

definition circ_write :: "nat \<Rightarrow> nat \<Rightarrow> u64 \<Rightarrow> u64 \<Rightarrow> u64 \<Rightarrow> 'b mem \<Rightarrow> 'b mem" where
  "circ_write d b_base b_len pos len m =
     (case circ_range b_base b_len pos len of
        (b1, l, None) \<Rightarrow> memcpy b1 d (unat l) m
      | (b1, l, Some b2) \<Rightarrow> memcpy b2 (d + unat l) (unat (len - l)) (memcpy b1 d (unat l) m))"

text \<open>\<open>None\<close> is the failed assertion.\<close>

definition split_write ::
  "nat \<Rightarrow> u64 \<Rightarrow> nat \<Rightarrow> u64 \<Rightarrow> nat \<Rightarrow> u64 \<Rightarrow> u64 \<Rightarrow> 'b mem \<Rightarrow> 'b mem option" where
  "split_write src len buf_1 len_1 buf_2 len_2 off m =
     (if \<not> len + off \<le> len_1 + len_2 then None
      else if off + len \<le> len_1 then Some (memcpy (buf_1 + unat off) src (unat len) m)
      else if len_1 \<le> off then Some (memcpy (buf_2 + unat (off - len_1)) src (unat len) m)
      else let l = len_1 - off
           in Some (memcpy buf_2 (src + unat l) (unat (len - l)) (memcpy (buf_1 + unat off) src (unat l) m)))"

definition split_read ::
  "nat \<Rightarrow> u64 \<Rightarrow> nat \<Rightarrow> u64 \<Rightarrow> nat \<Rightarrow> u64 \<Rightarrow> u64 \<Rightarrow> 'b mem \<Rightarrow> 'b mem option" where
  "split_read dst len buf_1 len_1 buf_2 len_2 off m =
     (if \<not> len + off \<le> len_1 + len_2 then None
      else if off + len \<le> len_1 then Some (memcpy dst (buf_1 + unat off) (unat len) m)
      else if len_1 \<le> off then Some (memcpy dst (buf_2 + unat (off - len_1)) (unat len) m)
      else let l = len_1 - off
           in Some (memcpy (dst + unat l) buf_2 (unat (len - l)) (memcpy dst (buf_1 + unat off) (unat l) m)))"

definition apart :: "nat \<Rightarrow> nat \<Rightarrow> nat \<Rightarrow> nat \<Rightarrow> bool" where
  "apart a n b k \<longleftrightarrow> a + n \<le> b \<or> b + k \<le> a"

definition circ_ok :: "u64 \<Rightarrow> u64 \<Rightarrow> u64 \<Rightarrow> bool" where
  "circ_ok b_len pos len \<longleftrightarrow> pos < b_len \<and> len \<le> b_len \<and> unat b_len < 2 ^ 63"

lemma circ_ok_nat:
  assumes "circ_ok b_len pos len"
  shows "unat (pos + len) = unat pos + unat len" "unat pos < unat b_len" "unat len \<le> unat b_len"
    "unat (b_len - pos) = unat b_len - unat pos"
    "unat b_len < unat pos + unat len \<Longrightarrow> unat (len - (b_len - pos)) = unat pos + unat len - unat b_len"
proof -
  have p: "unat pos < unat b_len" "unat len \<le> unat b_len" "unat b_len < 2 ^ 63"
    using assms by (auto simp: circ_ok_def word_nat)
  then show 1: "unat (pos + len) = unat pos + unat len" "unat pos < unat b_len" "unat len \<le> unat b_len"
    by (simp_all add: unat_word_ariths)
  show d: "unat (b_len - pos) = unat b_len - unat pos" using p(1) by (intro unat_sub) (simp add: word_nat)
  assume "unat b_len < unat pos + unat len"
  then have "b_len - pos \<le> len" using d by (simp add: word_nat)
  then show "unat (len - (b_len - pos)) = unat pos + unat len - unat b_len"
    using unat_sub [of "b_len - pos" len] d p(1) by simp
qed

lemma wrap_index: "i < n \<Longrightarrow> p < n \<Longrightarrow> (p + i) mod n = (if p + i < n then p + i else p + i - n)" for n :: nat
  by (auto simp: mod_if)

text \<open>Byte \<open>i\<close> of the source goes to the place of index \<open>pos + i\<close>, modulo the length.\<close>

lemma circ_write_at:
  assumes ok: "circ_ok b_len pos len" and a: "apart d (unat len) b (unat b_len)"
  shows "i < unat len \<Longrightarrow> circ_write d b b_len pos len m (b + (unat pos + i) mod unat b_len) = m (d + i)"
    and "(\<And>i. i < unat len \<Longrightarrow> x \<noteq> b + (unat pos + i) mod unat b_len) \<Longrightarrow> circ_write d b b_len pos len m x = m x"
proof -
  note n = circ_ok_nat [OF ok]
  show "circ_write d b b_len pos len m (b + (unat pos + i) mod unat b_len) = m (d + i)" if "i < unat len"
  proof (cases "unat pos + unat len \<le> unat b_len")
    case True
    with that n show ?thesis
      by (simp add: circ_write_def circ_range_def word_nat memcpy_def wrap_index)
  next
    case False
    with that n a show ?thesis
      by (auto simp: circ_write_def circ_range_def word_nat memcpy_def wrap_index apart_def)
  qed
  assume x: "\<And>i. i < unat len \<Longrightarrow> x \<noteq> b + (unat pos + i) mod unat b_len"
  show "circ_write d b b_len pos len m x = m x"
  proof (cases "unat pos + unat len \<le> unat b_len")
    case True
    have "\<not> (b + unat pos \<le> x \<and> x < b + unat pos + unat len)"
    proof
      assume "b + unat pos \<le> x \<and> x < b + unat pos + unat len"
      then have "x - (b + unat pos) < unat len" "b + (unat pos + (x - (b + unat pos))) = x" by auto
      with x [of "x - (b + unat pos)"] True n show False by simp
    qed
    with n True show ?thesis by (auto simp: circ_write_def circ_range_def word_nat memcpy_def)
  next
    case False
    have "\<not> (b + unat pos \<le> x \<and> x < b + unat b_len)"
    proof
      assume "b + unat pos \<le> x \<and> x < b + unat b_len"
      then have "x - (b + unat pos) < unat len" "b + (unat pos + (x - (b + unat pos))) = x" "x - b < unat b_len"
        using False by auto
      with x [of "x - (b + unat pos)"] n show False by simp
    qed
    moreover have "\<not> (b \<le> x \<and> x < b + (unat pos + unat len - unat b_len))"
    proof
      assume h: "b \<le> x \<and> x < b + (unat pos + unat len - unat b_len)"
      let ?i = "x - b + (unat b_len - unat pos)"
      have "?i < unat len" "unat pos + ?i = x - b + unat b_len" "x - b < unat b_len" using h n False by auto
      moreover from this have "b + (unat pos + ?i) mod unat b_len = x" using h by (simp only: mod_add_self2) simp
      ultimately show False using x by metis
    qed
    ultimately show ?thesis using n False by (auto simp: circ_write_def circ_range_def word_nat memcpy_def)
  qed
qed

lemma circ_read_at:
  assumes ok: "circ_ok b_len pos len" and a: "apart d (unat len) b (unat b_len)" and "i < unat len"
  shows "circ_read d b b_len pos len m (d + i) = m (b + (unat pos + i) mod unat b_len)"
proof (cases "unat pos + unat len \<le> unat b_len")
  case True
  with assms(3) circ_ok_nat [OF ok] show ?thesis
    by (simp add: circ_read_def circ_range_def word_nat memcpy_def wrap_index add.assoc)
next
  case False
  note n = circ_ok_nat [OF ok]
  have eq: "circ_read d b b_len pos len m = memcpy (d + (unat b_len - unat pos)) b (unat pos + unat len - unat b_len)
      (memcpy d (b + unat pos) (unat b_len - unat pos) m)"
    using False n by (simp add: circ_read_def circ_range_def word_nat)
  show ?thesis
  proof (cases "i < unat b_len - unat pos")
    case True
    then show ?thesis using n(2) by (auto simp: eq memcpy_def add.assoc)
  next
    case False
    let ?j = "i - (unat b_len - unat pos)"
    have j: "unat pos + i = ?j + unat b_len" "?j < unat pos + unat len - unat b_len" "?j < unat b_len"
      using False assms(3) n(2,3) by auto
    have "(unat pos + i) mod unat b_len = ?j" unfolding j(1) using j(3) by simp
    moreover have "d + i = d + (unat b_len - unat pos) + ?j" using False by simp
    moreover have "\<not> (d \<le> b + ?j \<and> b + ?j < d + (unat b_len - unat pos))"
      using a j assms(3) n by (auto simp: apart_def)
    ultimately show ?thesis using j(2) by (simp only: eq memcpy_in memcpy_out not_False_eq_True)
  qed
qed

text \<open>
  C24. What is written to a circular buffer at a position is read back from it there, wrapped or
  not, and the write changes no byte outside the buffer.
\<close>

theorem circ_write_read:
  assumes "circ_ok b_len pos len" and "apart src (unat len) b (unat b_len)" and "apart dst (unat len) b (unat b_len)"
  shows "map (\<lambda>i. circ_read dst b b_len pos len (circ_write src b b_len pos len m) (dst + i)) [0..<unat len] =
      map (\<lambda>i. m (src + i)) [0..<unat len] \<and>
    (\<forall>x. apart x 1 b (unat b_len) \<longrightarrow> circ_write src b b_len pos len m x = m x)"
proof (intro conjI allI impI)
  show "map (\<lambda>i. circ_read dst b b_len pos len (circ_write src b b_len pos len m) (dst + i)) [0..<unat len] =
      map (\<lambda>i. m (src + i)) [0..<unat len]"
    by (rule map_cong [OF refl]) (simp add: circ_read_at [OF assms(1,3)] circ_write_at(1) [OF assms(1,2)])
  fix x assume x: "apart x 1 b (unat b_len)"
  have "0 < unat b_len" using circ_ok_nat(2) [OF assms(1)] by simp
  then have l: "(unat pos + i) mod unat b_len < unat b_len" for i by simp
  have "x \<noteq> b + (unat pos + i) mod unat b_len" for i using x l [of i] by (auto simp: apart_def)
  then show "circ_write src b b_len pos len m x = m x" using circ_write_at(2) [OF assms(1,2)] by blast
qed

theorem circ_write_read_witness:
  "circ_read 500 100 64 60 10 (circ_write 300 100 64 60 10 (\<lambda>a. a)) 507 = 307 \<and>
   circ_write 300 100 64 60 10 (\<lambda>a. a) 164 = (164 :: nat)"
proof -
  have ok: "circ_ok 64 60 10" "apart 300 (unat (10 :: u64)) 100 (unat (64 :: u64))"
    "apart 500 (unat (10 :: u64)) 100 (unat (64 :: u64))" by (simp_all add: circ_ok_def apart_def)
  note t = circ_write_read [OF ok, of "\<lambda>a. a"]
  from t have "\<forall>i<10. circ_read 500 100 64 60 10 (circ_write 300 100 64 60 10 (\<lambda>a. a)) (500 + i) = 300 + i" by simp
  from spec [OF this, of 7]
  have "circ_read 500 100 64 60 10 (circ_write 300 100 64 60 10 (\<lambda>a. a)) 507 = 307" by simp
  with t show ?thesis by (simp add: apart_def)
qed

lemma split_copies:
  fixes L O1 L1 L2 :: nat
  assumes "L + O1 \<le> L1 + L2" and "L1 < O1 + L" and "O1 < L1"
    and "apart b1 L1 b2 L2" and "apart src L b1 L1" and "apart src L b2 L2"
  shows "memcpy b2 (src + (L1 - O1)) (L - (L1 - O1)) (memcpy (b1 + O1) src (L1 - O1) m) x =
    (if b1 + O1 \<le> x \<and> x < b1 + L1 then m (src + (x - (b1 + O1)))
     else if b2 \<le> x \<and> x < b2 + (O1 + L - L1) then m (src + (L1 - O1) + (x - b2)) else m x)"
proof -
  have "\<not> (b1 + O1 \<le> src + (L1 - O1) + (x - b2) \<and> src + (L1 - O1) + (x - b2) < b1 + O1 + (L1 - O1))"
    if "b2 \<le> x" "x < b2 + (O1 + L - L1)" using assms that unfolding apart_def by linarith
  moreover have "\<not> (b2 \<le> x \<and> x < b2 + (L - (L1 - O1)))" if "b1 + O1 \<le> x" "x < b1 + L1"
    using assms that unfolding apart_def by linarith
  moreover have "L - (L1 - O1) = O1 + L - L1" "b1 + O1 + (L1 - O1) = b1 + L1" using assms by auto
  ultimately show ?thesis unfolding memcpy_def by (auto simp del: diff_diff_right)
qed

text \<open>
  \<open>split_write\<close> into two buffers with room for it puts each byte at its place in their
  concatenation, from \<open>off\<close> on, and changes nothing else; without room the assertion fails.
\<close>

theorem split_write_places:
  assumes "unat len + unat off < 2 ^ 64" and "unat len_1 + unat len_2 < 2 ^ 64"
    and "apart buf_1 (unat len_1) buf_2 (unat len_2)"
    and "apart src (unat len) buf_1 (unat len_1)" and "apart src (unat len) buf_2 (unat len_2)"
  shows "split_write src len buf_1 len_1 buf_2 len_2 off m =
    (if unat len_1 + unat len_2 < unat len + unat off then None
     else Some (\<lambda>x.
       if buf_1 + unat off \<le> x \<and> x < buf_1 + min (unat len_1) (unat off + unat len)
       then m (src + (x - (buf_1 + unat off)))
       else if buf_2 + (unat off - unat len_1) \<le> x \<and> x < buf_2 + (unat off + unat len - unat len_1)
       then m (src + (unat len_1 - unat off) + (x - (buf_2 + (unat off - unat len_1))))
       else m x))"
proof -
  have s: "unat (len + off) = unat len + unat off" "unat (off + len) = unat off + unat len"
    "unat (len_1 + len_2) = unat len_1 + unat len_2"
    using assms(1,2) by (simp_all add: unat_word_ariths)
  consider "unat len_1 + unat len_2 < unat len + unat off"
    | "unat len + unat off \<le> unat len_1 + unat len_2" "unat off + unat len \<le> unat len_1"
    | "unat len + unat off \<le> unat len_1 + unat len_2" "unat len_1 < unat off + unat len" "unat len_1 \<le> unat off"
    | "unat len + unat off \<le> unat len_1 + unat len_2" "unat len_1 < unat off + unat len" "unat off < unat len_1"
    by linarith
  then show ?thesis
  proof cases
    case 1
    then show ?thesis using s by (simp add: split_write_def word_nat)
  next
    case 2
    then show ?thesis using s by (auto simp: split_write_def word_nat memcpy_def fun_eq_iff)
  next
    case 3
    then have "unat (off - len_1) = unat off - unat len_1" by (intro unat_sub) (simp add: word_nat)
    with 3 s show ?thesis by (auto simp: split_write_def word_nat memcpy_def fun_eq_iff)
  next
    case 4
    have l: "unat (len_1 - off) = unat len_1 - unat off" using 4 by (intro unat_sub) (simp add: word_nat)
    have "unat (len - (len_1 - off)) = unat len - (unat len_1 - unat off)"
      using 4 l by (subst unat_sub) (simp_all add: word_nat)
    then have "split_write src len buf_1 len_1 buf_2 len_2 off m =
        Some (memcpy buf_2 (src + (unat len_1 - unat off)) (unat len - (unat len_1 - unat off))
          (memcpy (buf_1 + unat off) src (unat len_1 - unat off) m))"
      using 4 s l by (simp add: split_write_def word_nat Let_def)
    moreover have "memcpy buf_2 (src + (unat len_1 - unat off)) (unat len - (unat len_1 - unat off))
          (memcpy (buf_1 + unat off) src (unat len_1 - unat off) m) x =
       (if buf_1 + unat off \<le> x \<and> x < buf_1 + unat len_1 then m (src + (x - (buf_1 + unat off)))
        else if buf_2 \<le> x \<and> x < buf_2 + (unat off + unat len - unat len_1)
        then m (src + (unat len_1 - unat off) + (x - buf_2)) else m x)" for x
      using split_copies [OF 4 assms(3-5)] by blast
    ultimately show ?thesis using 4 by auto
  qed
qed

theorem split_write_places_witness:
  "map_option (\<lambda>m. map m [98, 99, 200, 201]) (split_write 300 3 90 10 200 20 8 (\<lambda>a. a)) =
     Some [300, 301, 302, (201 :: nat)]"
  by (subst split_write_places) (simp_all add: apart_def)

subsection \<open>The queue between threads\<close>

text \<open>
  A list linked from the element queued last; each operation runs under the queue's mutex. The
  loop of \<open>nbqueue_deq\<close> walks to the element without successor and cuts it off.
\<close>

type_synonym 'a nbqueue = "'a list"

definition nbqueue_init :: "'a nbqueue" where "nbqueue_init = []"

definition nbqueue_enq :: "'a \<Rightarrow> 'a nbqueue \<Rightarrow> 'a nbqueue" where "nbqueue_enq el q = el # q"

fun deq_walk :: "'a list \<Rightarrow> 'a \<Rightarrow> 'a list \<Rightarrow> 'a list \<times> 'a" where
  "deq_walk prv el [] = (prv, el)"
| "deq_walk prv el (nxt # rest) = deq_walk (prv @ [el]) nxt rest"

definition nbqueue_deq :: "'a nbqueue \<Rightarrow> 'a option \<times> 'a nbqueue" where
  "nbqueue_deq q =
     (case q of
        [] \<Rightarrow> (None, q)
      | el # rest \<Rightarrow> (let (q', x) = deq_walk [] el rest in (Some x, q')))"

text \<open>The contract of a queue, and draining one.\<close>

fun drain :: "('q \<Rightarrow> 'e option \<times> 'q) \<Rightarrow> nat \<Rightarrow> 'q \<Rightarrow> 'e list" where
  "drain deq 0 q = []"
| "drain deq (Suc n) q = (case deq q of (None, q') \<Rightarrow> [] | (Some x, q') \<Rightarrow> x # drain deq n q')"

locale fifo_queue =
  fixes empty :: 'q and enq :: "'e \<Rightarrow> 'q \<Rightarrow> 'q" and deq :: "'q \<Rightarrow> 'e option \<times> 'q" and elems :: "'q \<Rightarrow> 'e list"
  assumes elems_empty: "elems empty = []"
    and elems_enq: "elems (enq x q) = elems q @ [x]"
    and deq_elems: "fst (deq q) = (case elems q of [] \<Rightarrow> None | x # _ \<Rightarrow> Some x)"
    and elems_deq: "elems (snd (deq q)) = tl (elems q)"
begin

lemma elems_fold: "elems (fold enq xs q) = elems q @ xs"
  by (induction xs arbitrary: q) (auto simp: elems_enq)

lemma drain_elems: "drain deq n q = take n (elems q)"
proof (induction n arbitrary: q)
  case (Suc n)
  obtain r q' where d: "deq q = (r, q')" by fastforce
  have r: "r = (case elems q of [] \<Rightarrow> None | x # _ \<Rightarrow> Some x)" "elems q' = tl (elems q)"
    using deq_elems [of q] elems_deq [of q] by (simp_all add: d)
  then show ?case using Suc.IH [of q'] by (cases "elems q") (simp_all add: d)
qed simp

end

lemma deq_walk_last: "deq_walk prv el rest = (prv @ butlast (el # rest), last (el # rest))"
  by (induction rest arbitrary: prv el) auto

lemma nbqueue_deq_eq: "nbqueue_deq q = (if q = [] then (None, []) else (Some (last q), butlast q))"
  by (cases q) (auto simp: nbqueue_deq_def deq_walk_last)

interpretation nbq: fifo_queue nbqueue_init nbqueue_enq nbqueue_deq rev
proof
  fix q :: "'a nbqueue"
  show "fst (nbqueue_deq q) = (case rev q of [] \<Rightarrow> None | x # _ \<Rightarrow> Some x)" "rev (snd (nbqueue_deq q)) = tl (rev q)"
    by (cases q rule: rev_cases; simp add: nbqueue_deq_eq)+
qed (simp_all add: nbqueue_init_def nbqueue_enq_def)

text \<open>
  The queue is first in, first out: a queue that held \<open>ys\<close> and to which \<open>xs\<close> are added gives
  \<open>ys\<close> and then \<open>xs\<close>, each once and in order, and is empty after that.
\<close>

theorem nbqueue_fifo:
  "drain nbqueue_deq n (fold nbqueue_enq xs (fold nbqueue_enq ys nbqueue_init)) = take n (ys @ xs)"
  by (simp add: nbq.drain_elems nbq.elems_fold nbq.elems_empty)

subsection \<open>The ring buffer\<close>

record ringbuffer_t =
  rb_base_addr :: nat
  rb_entry_size :: u32
  rb_capacity :: u32
  rb_head :: u32
  rb_tail :: u32

definition ringbuffer_empty :: "ringbuffer_t \<Rightarrow> bool" where
  "ringbuffer_empty rb \<longleftrightarrow> rb_head rb = rb_tail rb"

definition ringbuffer_size :: "ringbuffer_t \<Rightarrow> u32" where
  "ringbuffer_size rb =
     (if rb_tail rb < rb_head rb then (rb_capacity rb - rb_head rb) + rb_tail rb
      else rb_tail rb - rb_head rb)"

definition ringbuffer_full :: "ringbuffer_t \<Rightarrow> bool" where
  "ringbuffer_full rb \<longleftrightarrow> (rb_tail rb + rb_entry_size rb) mod rb_capacity rb = rb_head rb"

definition ringbuffer_front :: "ringbuffer_t \<Rightarrow> nat" where
  "ringbuffer_front rb = rb_base_addr rb + unat (rb_head rb)"

definition ringbuffer_back :: "ringbuffer_t \<Rightarrow> nat" where
  "ringbuffer_back rb = rb_base_addr rb + unat (rb_tail rb)"

text \<open>\<open>None\<close> is the failed assertion.\<close>

definition ringbuffer_push :: "ringbuffer_t \<Rightarrow> ringbuffer_t option" where
  "ringbuffer_push rb =
     (if ringbuffer_full rb then None
      else let tail = rb_tail rb + rb_entry_size rb
           in Some (rb\<lparr>rb_tail := if rb_capacity rb \<le> tail then 0 else tail\<rparr>))"

definition ringbuffer_pop :: "ringbuffer_t \<Rightarrow> ringbuffer_t option" where
  "ringbuffer_pop rb =
     (if ringbuffer_empty rb then None
      else let head = rb_head rb + rb_entry_size rb
           in Some (rb\<lparr>rb_head := if rb_capacity rb \<le> head then 0 else head\<rparr>))"

text \<open>A ring of \<open>N\<close> entries of \<open>e\<close> bytes that holds \<open>n\<close> of them from index \<open>h\<close> on.\<close>

definition ring_holds :: "nat \<Rightarrow> nat \<Rightarrow> nat \<Rightarrow> nat \<Rightarrow> ringbuffer_t \<Rightarrow> bool" where
  "ring_holds N e h n rb \<longleftrightarrow> 0 < e \<and> N * e < 2 ^ 31 \<and> h < N \<and> n < N \<and>
     unat (rb_entry_size rb) = e \<and> unat (rb_capacity rb) = N * e \<and>
     unat (rb_head rb) = h * e \<and> unat (rb_tail rb) = ((h + n) mod N) * e"

lemma index_step: "i < N \<Longrightarrow> (if N * e \<le> i * e + e then 0 else i * e + e) = (Suc i mod N) * e" for e :: nat
proof -
  assume i: "i < N"
  show ?thesis
  proof (cases "Suc i < N")
    case True
    show ?thesis
    proof (cases "e = 0")
      case False
      have "Suc i * e < N * e" using mult_strict_right_mono [OF True, of e] False by simp
      then show ?thesis using True by simp
    qed simp
  next
    case False
    with i have "Suc i = N" by simp
    then show ?thesis by auto
  qed
qed

lemma unat_entry_step:
  assumes "unat x = i * e" and "unat s = e" and "unat (c :: u32) = N * e" and "i < N" and "N * e < 2 ^ 31"
  shows "unat (x + s) = i * e + e" "unat (if c \<le> x + s then 0 else x + s) = (Suc i mod N) * e"
    "unat ((x + s) mod c) = (Suc i mod N) * e"
proof -
  have le: "Suc i * e \<le> N * e" using assms(4) by (intro mult_le_mono1) simp
  then show s: "unat (x + s) = i * e + e"
    using assms by (subst unat_add_exact) simp_all
  show "unat (if c \<le> x + s then 0 else x + s) = (Suc i mod N) * e"
    using s index_step [OF assms(4), of e] by (auto simp: word_nat assms(3))
  have "unat ((x + s) mod c) = (i * e + e) mod (N * e)" by (simp only: unat_mod s assms(3))
  also have "\<dots> = Suc i * e mod (N * e)" by (simp add: add.commute)
  also have "\<dots> = (Suc i mod N) * e" by (rule mod_mult_mult2)
  finally show "unat ((x + s) mod c) = (Suc i mod N) * e" .
qed

text \<open>
  The ring buffer is a bounded queue of \<open>N - 1\<close> entries: pushing fails exactly when it is
  full and otherwise adds one entry at the back; popping fails exactly when it is empty and
  otherwise drops the entry at the front; its size is that of the entries it holds, and front and
  back are the places of its first entry and of the next one to fill.
\<close>

theorem ringbuffer_bounded_queue:
  assumes "ring_holds N e h n rb"
  shows "unat (ringbuffer_size rb) = n * e \<and> (ringbuffer_empty rb \<longleftrightarrow> n = 0) \<and>
    ringbuffer_front rb = rb_base_addr rb + h * e \<and>
    ringbuffer_back rb = rb_base_addr rb + ((h + n) mod N) * e \<and>
    (case ringbuffer_push rb of None \<Rightarrow> Suc n = N | Some rb' \<Rightarrow> Suc n < N \<and> ring_holds N e h (Suc n) rb') \<and>
    (case ringbuffer_pop rb of None \<Rightarrow> n = 0 | Some rb' \<Rightarrow> 0 < n \<and> ring_holds N e (Suc h mod N) (n - 1) rb')"
proof -
  have a: "0 < e" "N * e < 2 ^ 31" "h < N" "n < N" "unat (rb_entry_size rb) = e" "unat (rb_capacity rb) = N * e"
    "unat (rb_head rb) = h * e" "unat (rb_tail rb) = ((h + n) mod N) * e"
    using assms by (auto simp: ring_holds_def)
  let ?t = "(h + n) mod N"
  have t: "?t < N" "?t = (if h + n < N then h + n else h + n - N)" using a(3,4) by (auto simp: mod_if)
  have iff: "?t = h \<longleftrightarrow> n = 0" "Suc ?t mod N = h \<longleftrightarrow> Suc n = N"
    using a(3,4) t by (auto simp: mod_if split: if_splits)
  note ts = unat_entry_step [OF a(8,5,6) t(1) a(2)] and hs = unat_entry_step [OF a(7,5,6,3,2)]
  have empty: "ringbuffer_empty rb \<longleftrightarrow> n = 0"
    using a iff(1) by (auto simp: ringbuffer_empty_def word_unat_eq_iff)
  have full: "ringbuffer_full rb \<longleftrightarrow> Suc n = N"
    using a(1,7) ts(3) iff(2) by (simp add: ringbuffer_full_def word_unat_eq_iff)
  have size: "unat (ringbuffer_size rb) = n * e"
  proof (cases "h + n < N")
    case True
    then have le: "h * e \<le> ?t * e" by simp
    then have "unat (rb_tail rb - rb_head rb) = ?t * e - h * e" using a by (subst unat_sub) (simp_all add: word_nat)
    then show ?thesis using True a by (simp add: ringbuffer_size_def word_nat algebra_simps)
  next
    case False
    then have lt: "?t < h" "?t = h + n - N" using a(3,4) t by auto
    then have "unat (rb_capacity rb - rb_head rb) = N * e - h * e"
      using a by (subst unat_sub) (simp_all add: word_nat)
    moreover have "N * e - h * e + ?t * e = n * e"
    proof -
      have "N - h + ?t = n" using lt a(3) False by simp
      then show ?thesis by (simp only: diff_mult_distrib [symmetric] add_mult_distrib [symmetric])
    qed
    moreover have "n * e < 2 ^ 32" using less_trans [OF mult_strict_right_mono [OF a(4,1)] a(2)] by simp
    ultimately have "unat (rb_capacity rb - rb_head rb + rb_tail rb) = n * e"
      using a(8) by (subst unat_add_exact) simp_all
    then show ?thesis using lt a by (simp add: ringbuffer_size_def word_nat)
  qed
  have "Suc h mod N + (n - 1) = h + n \<or> Suc h mod N + (n - 1) + N = h + n" if "0 < n"
    using that a(3) by (auto simp: mod_Suc)
  then have pos: "(Suc h mod N + (n - 1)) mod N = ?t" if "0 < n" using that by (metis mod_add_self2)
  have push: "case ringbuffer_push rb of None \<Rightarrow> Suc n = N | Some rb' \<Rightarrow> Suc n < N \<and> ring_holds N e h (Suc n) rb'"
    using a full ts(2) by (auto simp: ringbuffer_push_def ring_holds_def Let_def mod_Suc_eq)
  have pop: "case ringbuffer_pop rb of None \<Rightarrow> n = 0
      | Some rb' \<Rightarrow> 0 < n \<and> ring_holds N e (Suc h mod N) (n - 1) rb'"
    using a empty hs(2) pos by (auto simp: ringbuffer_pop_def ring_holds_def Let_def)
  show ?thesis
    using size empty push pop a(7,8) by (auto simp: ringbuffer_front_def ringbuffer_back_def)
qed

theorem ringbuffer_bounded_queue_witness:
  "\<exists>rb'. ringbuffer_push \<lparr>rb_base_addr = 0x1000, rb_entry_size = 16, rb_capacity = 64, rb_head = 32, rb_tail = 0\<rparr> =
       Some rb' \<and> ring_holds 4 16 2 3 rb' \<and> ringbuffer_push rb' = None"
proof -
  let ?rb = "\<lparr>rb_base_addr = 0x1000, rb_entry_size = 16, rb_capacity = 64, rb_head = 32, rb_tail = 0\<rparr>"
  have 1: "ring_holds 4 16 2 2 ?rb" by (simp add: ring_holds_def)
  obtain rb' where rb': "ringbuffer_push ?rb = Some rb'" "ring_holds 4 16 2 3 rb'"
    using ringbuffer_bounded_queue [OF 1] by (auto split: option.splits)
  with ringbuffer_bounded_queue [OF rb'(2)] show ?thesis by (auto split: option.splits)
qed

subsection \<open>The pseudo-random generator\<close>

record utils_rng = rng_seed :: u64

definition rng_a :: u64 where "rng_a = 0x5deece66d"
definition rng_c :: u64 where "rng_c = 0xb"
definition rng_m :: u64 where "rng_m = push_bit 48 1"

definition utils_rng_init :: "u64 \<Rightarrow> utils_rng" where
  "utils_rng_init seed = \<lparr>rng_seed = (seed XOR rng_a) mod rng_m\<rparr>"

definition utils_rng_gen32 :: "utils_rng \<Rightarrow> u32 \<times> utils_rng" where
  "utils_rng_gen32 rng =
     (let nxt = (rng_a * rng_seed rng + rng_c) mod rng_m
      in (ucast (drop_bit 16 nxt), rng\<lparr>rng_seed := nxt\<rparr>))"

text \<open>
  The bytes \<open>utils_rng_gen\<close> writes, a full word in the little-endian order of the machine, the
  last bytes from the top of a further word, which is drawn even if none are left.
\<close>

fun rng_bytes :: "nat \<Rightarrow> u32 \<Rightarrow> u8 list" where
  "rng_bytes 0 x = []"
| "rng_bytes (Suc n) x = ucast (drop_bit 24 x) # rng_bytes n (push_bit 8 x)"

fun utils_rng_gen :: "nat \<Rightarrow> utils_rng \<Rightarrow> u8 list \<times> utils_rng" where
  "utils_rng_gen sz rng =
     (if 4 \<le> sz then
        let (x, rng) = utils_rng_gen32 rng; (bs, rng) = utils_rng_gen (sz - 4) rng
        in ([ucast x, ucast (drop_bit 8 x), ucast (drop_bit 16 x), ucast (drop_bit 24 x)] @ bs, rng)
      else let (x, rng) = utils_rng_gen32 rng in (rng_bytes sz x, rng))"

declare utils_rng_gen.simps [simp del]

text \<open>
  The 64-bit arithmetic of the generator wraps, but its modulus divides the range of the
  words: from any seed it computes the linear congruential sequence over the naturals, and each
  number is made of the 32 high bits of a 48-bit state.
\<close>

theorem utils_rng_gen32_lcg:
  "unat (rng_seed (snd (utils_rng_gen32 rng))) = (25214903917 * unat (rng_seed rng) + 11) mod 2 ^ 48 \<and>
   unat (fst (utils_rng_gen32 rng)) = ((25214903917 * unat (rng_seed rng) + 11) mod 2 ^ 48) div 2 ^ 16"
proof -
  let ?n = "(rng_a * rng_seed rng + rng_c) mod rng_m"
  have "unat (rng_a * rng_seed rng + rng_c) = (25214903917 * unat (rng_seed rng) + 11) mod 2 ^ 64"
    by (simp add: unat_word_ariths rng_a_def rng_c_def mod_simps)
  moreover have "unat rng_m = 2 ^ 48" by (simp add: rng_m_def)
  ultimately have n: "unat ?n = (25214903917 * unat (rng_seed rng) + 11) mod 2 ^ 48"
    unfolding unat_mod by (simp add: mod_mod_cancel)
  have "unat ?n < 2 ^ 48" unfolding n by simp
  then have "take_bit 64 (unat ?n) = unat ?n" by (intro take_bit_nat_eq_self) simp
  then have "unat (drop_bit 16 ?n) = unat ?n div 2 ^ 16"
    unfolding unsigned_drop_bit_eq by (simp add: drop_bit_eq_div)
  moreover have "unat ?n div 2 ^ 16 < 2 ^ 32"
    unfolding n by (simp add: less_mult_imp_div_less)
  ultimately have "unat (ucast (drop_bit 16 ?n) :: u32) = unat ?n div 2 ^ 16"
    unfolding unsigned_ucast_eq by (simp add: take_bit_nat_eq_self)
  then show ?thesis using n by (simp add: utils_rng_gen32_def Let_def)
qed

text \<open>Filling a buffer gives exactly the bytes asked for.\<close>

lemma rng_bytes_length [simp]: "length (rng_bytes n x) = n"
  by (induction n arbitrary: x) auto

lemma utils_rng_gen_length: "length (fst (utils_rng_gen n rng)) = n"
proof (induction n arbitrary: rng rule: less_induct)
  case (less n)
  then show ?case by (subst utils_rng_gen.simps) (auto simp: split_beta Let_def)
qed

end
