(* ===== verification/Lib_Conn.thy ===== *)
theory Lib_Conn
  imports Flextoe_Prelude
begin

unbundle bit_operations_syntax

text \<open>
  Connections as the application library sees them (lib/tas/conn.c and the parts of lib/tas/init.c
  that exchange buffer positions with the NIC): the positions of the receive and transmit buffer,
  the list of connections with updates for the NIC, the updates sent and those received.

  Connections live on a heap, by address; the list of pending updates is linked through their
  \<open>bump_next\<close> fields. The queues of the context are functions of the index. Fields that the code
  converts to the byte order of the NIC are kept in host order. Waking the slow path has no effect
  on this state.
\<close>

subsection \<open>Data\<close>

datatype conn_state =
    CONN_CLOSED
  | CONN_OPEN_REQUESTED
  | CONN_ACCEPT_REQUESTED
  | CONN_OPEN
  | CONN_CLOSE_REQUESTED

record flextcp_connection =
  rxb_base :: addr
  rxb_len :: u32
  rxb_head :: u32
  rxb_used :: u32
  rxb_bump :: u32
  txb_base :: addr
  txb_len :: u32
  txb_head :: u32
  txb_sent :: u32
  txb_allocated :: u32
  txb_bump :: u32
  local_ip :: u32
  remote_ip :: u32
  local_port :: u16
  remote_port :: u16
  seq_rx :: u32
  seq_tx :: u32
  flow_id :: u32
  bump_seq :: u32
  bump_next :: "addr option"
  bump_prev :: "addr option"
  flow_group :: u32
  bump_pending :: bool
  status :: conn_state
  c_flags :: u8
  rx_closed :: bool

definition CONN_FLAG_TXEOS :: u8 where "CONN_FLAG_TXEOS = 1"
definition CONN_FLAG_TXEOS_ALLOC :: u8 where "CONN_FLAG_TXEOS_ALLOC = 2"
definition CONN_FLAG_TXEOS_ACK :: u8 where "CONN_FLAG_TXEOS_ACK = 4"

lemmas conn_flag_defs = CONN_FLAG_TXEOS_def CONN_FLAG_TXEOS_ALLOC_def CONN_FLAG_TXEOS_ACK_def

text \<open>Entries of the queues with the slow path and with the NIC.\<close>

datatype sp_appout =
    SP_APPOUT_INVALID
  | SP_APPOUT_CONN_OPEN addr u32 u16 u32
  | SP_APPOUT_CONN_CLOSE addr u32 u16 u32 u16 u32
  | SP_APPOUT_CONN_MOVE u32 u32 u16 u16 u16 addr
  | SP_APPOUT_LISTEN_OPEN addr u16 u32 u32
  | SP_APPOUT_ACCEPT_CONN addr addr u16

datatype flextcp_pl_atx =
    FLEXTCP_PL_ATX_INVALID
  | FLEXTCP_PL_ATX_CONNUPDATE u32 u32 u32 u32 u16 u8

datatype flextcp_pl_arx =
    FLEXTCP_PL_ARX_INVALID
  | FLEXTCP_PL_ARX_CONNUPDATE addr u32 u32 u32
  | FLEXTCP_PL_ARX_OTHER

definition ARX_FLRXDONE :: u32 where "ARX_FLRXDONE = 2"

text \<open>What the slow path reports for a connection that was opened or accepted.\<close>

record sp_conn_info =
  in_rx_off :: addr
  in_tx_off :: addr
  in_rx_len :: u32
  in_tx_len :: u32
  in_status :: int
  in_seq_rx :: u32
  in_seq_tx :: u32
  in_flow_id :: u32
  in_local_ip :: u32
  in_local_port :: u16
  in_remote_ip :: u32
  in_remote_port :: u16
  in_flow_group :: u16

datatype sp_appin =
    SP_APPIN_INVALID
  | SP_APPIN_STATUS_CONN_CLOSE addr int
  | SP_APPIN_STATUS_CONN_MOVE addr int
  | SP_APPIN_STATUS_LISTEN_OPEN addr int
  | SP_APPIN_STATUS_LISTEN_CLOSE addr int
  | SP_APPIN_CONN_OPENED addr sp_conn_info
  | SP_APPIN_LISTEN_NEWCONN addr u32 u16
  | SP_APPIN_ACCEPTED_CONN addr sp_conn_info

record flextcp_context =
  spout_len :: u32
  spout_head :: u32
  spout_q :: "nat \<Rightarrow> sp_appin"
  rxq_len :: u32
  rxq_head :: u32
  rxq :: "nat \<Rightarrow> flextcp_pl_arx"
  rx_c_idx :: u32
  ctx_flags :: u32
  last_inev_ts :: u64
  spin_len :: u32
  spin_head :: u32
  spin_q :: "nat \<Rightarrow> sp_appout"
  txq_len :: u32
  txq_tail :: u32
  txq_avail :: u32
  txq :: "nat \<Rightarrow> flextcp_pl_atx"
  tx_p_idx :: u32
  bump_pending_first :: "addr option"
  bump_pending_last :: "addr option"
  db_id :: u16
  conns :: "addr \<Rightarrow> flextcp_connection"

record flextcp_listener =
  lst_conns :: "addr option"
  lst_local_port :: u16
  lst_status :: u8

text \<open>Events handed to the application.\<close>

datatype flextcp_event =
    FLEXTCP_EV_LISTEN_OPEN int addr
  | FLEXTCP_EV_LISTEN_NEWCONN u16 u32 addr
  | FLEXTCP_EV_LISTEN_ACCEPT int addr
  | FLEXTCP_EV_CONN_OPEN int addr
  | FLEXTCP_EV_CONN_CLOSED int addr
  | FLEXTCP_EV_CONN_MOVED int addr
  | FLEXTCP_EV_CONN_RECEIVED addr addr u32
  | FLEXTCP_EV_CONN_SENDBUF addr
  | FLEXTCP_EV_CONN_RXCLOSED addr
  | FLEXTCP_EV_CONN_TXCLOSED addr

datatype lib_error =
  Bump_Not_Found | Txeos_Assert | Txeos_Failed | Status_Assert | Tx_Bump_Assert | Spout_Unexpected

definition set_conn :: "addr \<Rightarrow> flextcp_connection \<Rightarrow> flextcp_context \<Rightarrow> flextcp_context" where
  "set_conn c v ctx = ctx\<lparr>conns := (conns ctx)(c := v)\<rparr>"

subsection \<open>Requests to the slow path\<close>

text \<open>Writing a request to the slot at \<open>spin_head\<close> and moving on to the next.\<close>

definition spin_put :: "sp_appout \<Rightarrow> flextcp_context \<Rightarrow> flextcp_context" where
  "spin_put e ctx =
     (let pos = spin_head ctx + 1
      in ctx\<lparr>spin_q := (spin_q ctx)(unat (spin_head ctx) := e),
             spin_head := if spin_len ctx \<le> pos then 0 else pos\<rparr>)"

definition spin_full :: "flextcp_context \<Rightarrow> bool" where
  "spin_full ctx \<longleftrightarrow> spin_q ctx (unat (spin_head ctx)) \<noteq> SP_APPOUT_INVALID"

definition FLEXTCP_LISTEN_REUSEPORT :: u32 where "FLEXTCP_LISTEN_REUSEPORT = 1"
definition SP_APPOUT_LISTEN_REUSEPORT :: u32 where "SP_APPOUT_LISTEN_REUSEPORT = 1"

definition flextcp_listen_open ::
  "addr \<Rightarrow> u16 \<Rightarrow> u32 \<Rightarrow> u32 \<Rightarrow> flextcp_context \<Rightarrow> int \<times> flextcp_listener \<times> flextcp_context" where
  "flextcp_listen_open lst port backlog flags ctx =
     (let zero = \<lparr>lst_conns = None, lst_local_port = 0, lst_status = 0\<rparr>
      in if flags AND NOT FLEXTCP_LISTEN_REUSEPORT \<noteq> 0 then (-1, zero, ctx)
         else let f = (if flags AND FLEXTCP_LISTEN_REUSEPORT = FLEXTCP_LISTEN_REUSEPORT
                       then SP_APPOUT_LISTEN_REUSEPORT else 0)
              in if spin_full ctx then (-1, zero, ctx)
                 else (0, zero\<lparr>lst_local_port := port\<rparr>,
                       spin_put (SP_APPOUT_LISTEN_OPEN lst port backlog f) ctx))"

definition connection_init :: flextcp_connection where
  "connection_init = \<lparr>rxb_base = 0, rxb_len = 0, rxb_head = 0, rxb_used = 0, rxb_bump = 0,
     txb_base = 0, txb_len = 0, txb_head = 0, txb_sent = 0, txb_allocated = 0, txb_bump = 0,
     local_ip = 0, remote_ip = 0, local_port = 0, remote_port = 0, seq_rx = 0, seq_tx = 0,
     flow_id = 0, bump_seq = 0, bump_next = None, bump_prev = None, flow_group = 0,
     bump_pending = False, status = CONN_CLOSED, c_flags = 0, rx_closed = False\<rparr>"

definition flextcp_listen_accept ::
  "addr \<Rightarrow> flextcp_listener \<Rightarrow> addr \<Rightarrow> flextcp_context \<Rightarrow> int \<times> flextcp_context" where
  "flextcp_listen_accept lst_addr lst c ctx0 =
     (let ctx = set_conn c connection_init ctx0
      in if spin_full ctx then (-1, ctx)
         else (0, spin_put (SP_APPOUT_ACCEPT_CONN lst_addr c (lst_local_port lst))
               (set_conn c (connection_init\<lparr>status := CONN_ACCEPT_REQUESTED,
                              local_port := lst_local_port lst\<rparr>) ctx)))"

definition flextcp_connection_open ::
  "addr \<Rightarrow> u32 \<Rightarrow> u16 \<Rightarrow> flextcp_context \<Rightarrow> int \<times> flextcp_context" where
  "flextcp_connection_open c dst_ip dst_port ctx0 =
     (let ctx = set_conn c connection_init ctx0
      in if spin_full ctx then (-1, ctx)
         else (0, spin_put (SP_APPOUT_CONN_OPEN c dst_ip dst_port 0)
               (set_conn c (connection_init\<lparr>status := CONN_OPEN_REQUESTED, remote_ip := dst_ip,
                              remote_port := dst_port\<rparr>) ctx)))"

text \<open>The search for the predecessor in the list of pending updates.\<close>

partial_function (option) bump_pred :: "flextcp_context \<Rightarrow> addr \<Rightarrow> addr option \<Rightarrow> addr option option" where
  "bump_pred ctx c p =
     (if p \<noteq> None \<and> bump_next (conns ctx (the p)) \<noteq> Some c
      then bump_pred ctx c (bump_next (conns ctx (the p)))
      else Some p)"

definition bump_remove :: "addr \<Rightarrow> flextcp_context \<Rightarrow> (lib_error + flextcp_context) option" where
  "bump_remove c ctx =
     (let nxt = bump_next (conns ctx c);
          clear = (\<lambda>x. set_conn c ((conns x c)\<lparr>bump_pending := False\<rparr>) x)
      in if \<not> bump_pending (conns ctx c) then Some (Inr ctx)
         else if bump_pending_first ctx = Some c then Some (Inr (clear (ctx\<lparr>bump_pending_first := nxt\<rparr>)))
         else case bump_pred ctx c (bump_pending_first ctx) of
                None \<Rightarrow> None
              | Some None \<Rightarrow> Some (Inl Bump_Not_Found)
              | Some (Some p) \<Rightarrow>
                  let ctx1 = set_conn p ((conns ctx p)\<lparr>bump_next := nxt\<rparr>) ctx;
                      ctx2 = (if nxt = None then ctx1\<lparr>bump_pending_last := Some p\<rparr> else ctx1)
                  in Some (Inr (clear ctx2)))"

definition flextcp_connection_close ::
  "addr \<Rightarrow> flextcp_context \<Rightarrow> (lib_error + (int \<times> flextcp_context)) option" where
  "flextcp_connection_close c ctx0 =
     (case bump_remove c ctx0 of
        None \<Rightarrow> None
      | Some (Inl e) \<Rightarrow> Some (Inl e)
      | Some (Inr ctx) \<Rightarrow>
          if spin_full ctx then Some (Inr (-1, ctx))
          else let conn = (conns ctx c)\<lparr>status := CONN_CLOSE_REQUESTED\<rparr>
               in Some (Inr (0, spin_put
                    (SP_APPOUT_CONN_CLOSE c (remote_ip conn) (remote_port conn) (local_ip conn) (local_port conn) 0)
                    (set_conn c conn ctx))))"

definition flextcp_connection_move :: "addr \<Rightarrow> flextcp_context \<Rightarrow> int \<times> flextcp_context" where
  "flextcp_connection_move c ctx =
     (let conn = conns ctx c
      in if spin_full ctx then (-1, ctx)
         else (0, spin_put (SP_APPOUT_CONN_MOVE (local_ip conn) (remote_ip conn) (local_port conn)
                              (remote_port conn) (db_id ctx) c) ctx))"

subsection \<open>Updates for the NIC\<close>

definition conn_mark_bump :: "addr \<Rightarrow> flextcp_context \<Rightarrow> flextcp_context" where
  "conn_mark_bump c ctx =
     (if bump_pending (conns ctx c) then ctx
      else let c_prev = bump_pending_last ctx;
               ctx1 = set_conn c ((conns ctx c)\<lparr>bump_next := None, bump_prev := c_prev\<rparr>) ctx;
               ctx2 = (case c_prev of
                         Some p \<Rightarrow> set_conn p ((conns ctx1 p)\<lparr>bump_next := Some c\<rparr>) ctx1
                       | None \<Rightarrow> ctx1\<lparr>bump_pending_first := Some c\<rparr>);
               ctx3 = ctx2\<lparr>bump_pending_last := Some c\<rparr>
           in set_conn c ((conns ctx3 c)\<lparr>bump_pending := True\<rparr>) ctx3)"

text \<open>Space in the queue to the NIC: the index of the slot, or \<open>None\<close> when there is none.\<close>

definition flextcp_context_tx_alloc :: "flextcp_context \<Rightarrow> (nat \<times> flextcp_context) option" where
  "flextcp_context_tx_alloc ctx =
     (if txq_avail ctx = 0 then None
      else let tail = txq_tail ctx; updated = tail + 1;
               updated = (if txq_len ctx \<le> updated then updated - txq_len ctx else updated)
           in Some (unat tail, ctx\<lparr>txq_tail := updated, txq_avail := txq_avail ctx - 1\<rparr>))"

definition flextcp_context_tx_done :: "flextcp_context \<Rightarrow> flextcp_context" where
  "flextcp_context_tx_done ctx = ctx\<lparr>tx_p_idx := ucast (ucast (txq_tail ctx) :: u16)\<rparr>"

text \<open>One round of \<open>conns_bump\<close> for the first connection \<open>c\<close> of the list.\<close>

definition bump_one :: "addr \<Rightarrow> nat \<Rightarrow> flextcp_context \<Rightarrow> flextcp_context" where
  "bump_one c slot ctx =
     (let conn = conns ctx c;
          entry = FLEXTCP_PL_ATX_CONNUPDATE (rxb_bump conn) (txb_bump conn) (flow_id conn)
                    (flow_group conn) (ucast (bump_seq conn)) 0;
          ctx1 = ctx\<lparr>txq := (txq ctx)(slot := entry)\<rparr>;
          ctx2 = set_conn c (conn\<lparr>bump_seq := bump_seq conn + 1, rxb_bump := 0, txb_bump := 0,
                               bump_pending := False\<rparr>) ctx1;
          ctx3 = (if bump_next conn = None then ctx2\<lparr>bump_pending_last := None\<rparr> else ctx2)
      in ctx3\<lparr>bump_pending_first := bump_next conn\<rparr>)"

text \<open>The loop: \<open>Inl\<close> is the failed assertion. It ends since every round takes a slot of the queue.\<close>

function bump_loop :: "nat \<Rightarrow> flextcp_context \<Rightarrow> lib_error + (nat \<times> flextcp_context)" where
  "bump_loop cnt ctx =
     (case bump_pending_first ctx of
        None \<Rightarrow> Inr (cnt, ctx)
      | Some c \<Rightarrow>
          if status (conns ctx c) \<noteq> CONN_OPEN then Inl Status_Assert
          else case flextcp_context_tx_alloc ctx of
                 None \<Rightarrow> Inr (cnt, ctx)
               | Some (slot, ctx1) \<Rightarrow> bump_loop (Suc cnt) (bump_one c slot ctx1))"
  by pat_completeness auto
termination
proof (relation "measure (\<lambda>(cnt, ctx). unat (txq_avail ctx))", goal_cases)
  case (2 cnt ctx c p slot ctx1)
  then have "txq_avail ctx \<noteq> 0" and ctx1: "txq_avail ctx1 = txq_avail ctx - 1"
    by (auto simp: flextcp_context_tx_alloc_def Let_def split: if_splits)
  then have "unat (txq_avail ctx1) < unat (txq_avail ctx)"
    by (metis measure_unat)
  moreover have "txq_avail (bump_one c slot ctx1) = txq_avail ctx1"
    by (simp add: bump_one_def set_conn_def Let_def)
  ultimately show ?case by simp
qed simp

declare bump_loop.simps [simp del]

definition conns_bump :: "flextcp_context \<Rightarrow> lib_error + flextcp_context" where
  "conns_bump ctx =
     (case bump_loop 0 ctx of
        Inl e \<Rightarrow> Inl e
      | Inr (cnt, ctx1) \<Rightarrow> Inr (if 0 < cnt then flextcp_context_tx_done ctx1 else ctx1))"

text \<open>The loop of \<open>txq_probe\<close>, \<open>i\<close> rounds of at most \<open>2 * n\<close> done.\<close>

function probe_loop :: "(nat \<Rightarrow> flextcp_pl_atx) \<Rightarrow> u32 \<Rightarrow> nat \<Rightarrow> u32 \<Rightarrow> u32 \<Rightarrow> nat \<Rightarrow> u32" where
  "probe_loop q len lim avail pos i =
     (if avail < len \<and> i < lim then
        if q (unat pos) \<noteq> FLEXTCP_PL_ATX_INVALID then avail
        else let pos1 = pos + 1
             in probe_loop q len lim (avail + 1) (if len \<le> pos1 then pos1 - len else pos1) (Suc i)
      else avail)"
  by pat_completeness auto
termination by (relation "measure (\<lambda>(q, len, lim, avail, pos, i). lim - i)") auto

declare probe_loop.simps [simp del]

definition txq_probe :: "nat \<Rightarrow> flextcp_context \<Rightarrow> flextcp_context" where
  "txq_probe n ctx =
     (let len = txq_len ctx; avail = txq_avail ctx
      in if len div 2 < avail then ctx
         else let pos = txq_tail ctx + avail + 1;
                  pos = (if len \<le> pos then pos - len else pos)
              in ctx\<lparr>txq_avail := probe_loop (txq ctx) len (2 * n) avail pos 0\<rparr>)"

subsection \<open>Receive and transmit buffer\<close>

definition conn_tx_allocbytes :: "flextcp_connection \<Rightarrow> u32" where
  "conn_tx_allocbytes conn = txb_len conn - txb_sent conn - txb_allocated conn"

definition conn_tx_sendbytes :: "flextcp_connection \<Rightarrow> u32" where
  "conn_tx_sendbytes conn = txb_allocated conn"

definition flextcp_conn_txbuf_available :: "flextcp_connection \<Rightarrow> u32" where
  "flextcp_conn_txbuf_available conn = conn_tx_allocbytes conn"

definition flextcp_connection_rx_done :: "addr \<Rightarrow> u64 \<Rightarrow> flextcp_context \<Rightarrow> int \<times> flextcp_context" where
  "flextcp_connection_rx_done c len ctx =
     (let conn = conns ctx c
      in if ucast (rxb_used conn) < len then (-1, ctx)
         else let conn = conn\<lparr>rxb_used := rxb_used conn - ucast len, rxb_bump := rxb_bump conn + ucast len\<rparr>;
                  ctx = set_conn c conn ctx
              in (0, if rxb_len conn div 4 < rxb_bump conn then conn_mark_bump c ctx else ctx))"

text \<open>
  The allocations return the number of bytes, or -1, and the places: \<open>alloc\<close> one address,
  \<open>alloc2\<close> the first range and the start of the second, if it wraps.
\<close>

definition flextcp_connection_tx_alloc ::
  "u64 \<Rightarrow> flextcp_connection \<Rightarrow> (u64 \<times> addr \<times> flextcp_connection) option" where
  "flextcp_connection_tx_alloc len conn =
     (if c_flags conn AND CONN_FLAG_TXEOS = CONN_FLAG_TXEOS then None
      else let avail = conn_tx_allocbytes conn;
               len = (if ucast avail < len then ucast avail else len);
               head = txb_head conn + txb_allocated conn;
               head = (if txb_len conn \<le> head then head - txb_len conn else head);
               len = (if (ucast (txb_len conn) :: u64) < ucast head + len then ucast (txb_len conn - head) else len)
           in Some (len, txb_base conn + unat head, conn\<lparr>txb_allocated := txb_allocated conn + ucast len\<rparr>))"

definition flextcp_connection_tx_alloc2 ::
  "u64 \<Rightarrow> flextcp_connection \<Rightarrow> (u64 \<times> addr \<times> u64 \<times> addr option \<times> flextcp_connection) option" where
  "flextcp_connection_tx_alloc2 len conn =
     (if c_flags conn AND CONN_FLAG_TXEOS = CONN_FLAG_TXEOS then None
      else let avail = conn_tx_allocbytes conn;
               len = (if ucast avail < len then ucast avail else len);
               head = txb_head conn + txb_allocated conn;
               head = (if txb_len conn \<le> head then head - txb_len conn else head);
               (len_1, buf_2) = (if (ucast (txb_len conn) :: u64) < ucast head + len
                                 then (ucast (txb_len conn - head), Some (txb_base conn)) else (len, None))
           in Some (len, txb_base conn + unat head, len_1, buf_2,
                    conn\<lparr>txb_allocated := txb_allocated conn + ucast len\<rparr>))"

definition flextcp_connection_tx_send :: "addr \<Rightarrow> u64 \<Rightarrow> flextcp_context \<Rightarrow> int \<times> flextcp_context" where
  "flextcp_connection_tx_send c len ctx =
     (let conn = conns ctx c
      in if ucast (conn_tx_sendbytes conn) < len then (-1, ctx)
         else let next_head = ucast (ucast (txb_head conn) + len) :: u32;
                  next_head = (if txb_len conn \<le> next_head then next_head - txb_len conn else next_head);
                  conn = conn\<lparr>txb_allocated := txb_allocated conn - ucast len,
                              txb_sent := txb_sent conn + ucast len, txb_head := next_head,
                              txb_bump := txb_bump conn + ucast len\<rparr>
              in (0, conn_mark_bump c (set_conn c conn ctx)))"

text \<open>Queueing the byte that stands for the end of the stream; \<open>Inl\<close> is a failed assertion.\<close>

definition flextcp_conn_pushtxeos :: "addr \<Rightarrow> flextcp_context \<Rightarrow> lib_error + (int \<times> flextcp_context)" where
  "flextcp_conn_pushtxeos c ctx =
     (let conn = conns ctx c
      in if conn_tx_sendbytes conn \<noteq> 0 \<or> c_flags conn AND CONN_FLAG_TXEOS = 0 then Inl Txeos_Assert
         else if conn_tx_allocbytes conn = 0 then Inr (-1, ctx)
         else let head = txb_head conn + 1;
                  head = (if txb_len conn \<le> head then head - txb_len conn else head);
                  conn = conn\<lparr>txb_sent := txb_sent conn + 1, txb_head := head,
                              c_flags := c_flags conn OR CONN_FLAG_TXEOS_ALLOC, txb_bump := txb_bump conn + 1\<rparr>
              in Inr (0, conn_mark_bump c (set_conn c conn ctx)))"

definition flextcp_connection_tx_close :: "addr \<Rightarrow> flextcp_context \<Rightarrow> lib_error + (int \<times> flextcp_context)" where
  "flextcp_connection_tx_close c ctx =
     (let conn = conns ctx c
      in if 0 < conn_tx_sendbytes conn then Inr (-1, ctx)
         else if c_flags conn AND CONN_FLAG_TXEOS = CONN_FLAG_TXEOS then Inr (-1, ctx)
         else case flextcp_conn_pushtxeos c
                     (set_conn c (conn\<lparr>c_flags := c_flags conn OR CONN_FLAG_TXEOS\<rparr>) ctx) of
                Inl e \<Rightarrow> Inl e
              | Inr (_, ctx1) \<Rightarrow> Inr (0, ctx1))"

subsection \<open>Updates from the NIC\<close>

text \<open>
  How many events an update of an open connection may need: one or two for received data, one for
  transmit space after the buffer was used up, one for the acknowledged end of the stream, one for
  the peer's end of stream.
\<close>

definition evs_needed :: "u32 \<Rightarrow> u32 \<Rightarrow> bool \<Rightarrow> flextcp_connection \<Rightarrow> nat" where
  "evs_needed rx_bump tx_bump eos conn =
     (if 0 < rx_bump then if rxb_len conn < rxb_head conn + rx_bump then 2 else 1 else 0) +
     (if 0 < tx_bump \<and> flextcp_conn_txbuf_available conn = 0 then 1 else 0) +
     (if c_flags conn AND CONN_FLAG_TXEOS_ALLOC = CONN_FLAG_TXEOS_ALLOC \<and> txb_sent conn - tx_bump = 0
      then 1 else 0) +
     (if eos then 1 else 0)"

definition update_rx :: "addr \<Rightarrow> u32 \<Rightarrow> flextcp_connection \<Rightarrow> flextcp_event list \<times> flextcp_connection" where
  "update_rx c rx_bump conn =
     (if 0 < rx_bump then
        let evs = (if rxb_len conn < rxb_head conn + rx_bump then
                     let rx_len = rxb_len conn - rxb_head conn
                     in [FLEXTCP_EV_CONN_RECEIVED c (rxb_base conn + unat (rxb_head conn)) rx_len,
                         FLEXTCP_EV_CONN_RECEIVED c (rxb_base conn) (rx_bump - rx_len)]
                   else [FLEXTCP_EV_CONN_RECEIVED c (rxb_base conn + unat (rxb_head conn)) rx_bump]);
            head = rxb_head conn + rx_bump
        in (evs, conn\<lparr>seq_rx := seq_rx conn + rx_bump,
                      rxb_head := if rxb_len conn \<le> head then head - rxb_len conn else head,
                      rxb_used := rxb_used conn + rx_bump\<rparr>)
      else ([], conn))"

definition update_tx ::
  "addr \<Rightarrow> u32 \<Rightarrow> bool \<Rightarrow> flextcp_context \<Rightarrow> lib_error + (flextcp_event list \<times> flextcp_context)" where
  "update_tx c tx_bump tx_avail_ev ctx =
     (if 0 < tx_bump then
        let conn = (conns ctx c)\<lparr>txb_sent := txb_sent (conns ctx c) - tx_bump\<rparr>;
            ctx = set_conn c conn ctx;
            evs = (if tx_avail_ev then [FLEXTCP_EV_CONN_SENDBUF c] else [])
        in if c_flags conn AND CONN_FLAG_TXEOS = CONN_FLAG_TXEOS \<and> c_flags conn AND CONN_FLAG_TXEOS_ALLOC = 0 then
             (case flextcp_conn_pushtxeos c ctx of
                Inl e \<Rightarrow> Inl e
              | Inr (r, ctx1) \<Rightarrow> if r \<noteq> 0 then Inl Txeos_Failed else Inr (evs, ctx1))
           else if c_flags conn AND CONN_FLAG_TXEOS_ALLOC = CONN_FLAG_TXEOS_ALLOC then
             if c_flags conn AND CONN_FLAG_TXEOS_ACK \<noteq> 0 then Inl Txeos_Assert
             else if txb_sent conn = 0 then
               Inr (evs @ [FLEXTCP_EV_CONN_TXCLOSED c],
                    set_conn c (conn\<lparr>c_flags := c_flags conn OR CONN_FLAG_TXEOS_ACK\<rparr>) ctx)
             else Inr (evs, ctx)
           else Inr (evs, ctx)
      else Inr ([], ctx))"

text \<open>
  \<open>None\<close> in the result is the return value -1: the events do not fit, nothing was changed, and the
  update stays in the queue.
\<close>

definition event_arx_connupdate ::
  "addr \<Rightarrow> u32 \<Rightarrow> u32 \<Rightarrow> u32 \<Rightarrow> nat \<Rightarrow> flextcp_context \<Rightarrow>
     lib_error + (flextcp_event list option \<times> flextcp_context)" where
  "event_arx_connupdate c rx_bump tx_bump flags outn ctx =
     (let conn = conns ctx c; eos = (flags AND ARX_FLRXDONE = ARX_FLRXDONE)
      in if status conn = CONN_OPEN_REQUESTED \<or> status conn = CONN_ACCEPT_REQUESTED then
           if tx_bump \<noteq> 0 then Inl Tx_Bump_Assert
           else Inr (Some [], set_conn c (conn\<lparr>rx_closed := eos, rxb_head := rxb_head conn + rx_bump,
                                rxb_used := rxb_used conn + rx_bump\<rparr>) ctx)
         else if status conn = CONN_CLOSED \<or> status conn = CONN_CLOSE_REQUESTED then Inr (Some [], ctx)
         else if outn < evs_needed rx_bump tx_bump eos conn then Inr (None, ctx)
         else let tx_avail_ev = (0 < tx_bump \<and> flextcp_conn_txbuf_available conn = 0);
                  (rx_evs, conn1) = update_rx c rx_bump conn
              in case update_tx c tx_bump tx_avail_ev (set_conn c conn1 ctx) of
                   Inl e \<Rightarrow> Inl e
                 | Inr (tx_evs, ctx2) \<Rightarrow>
                     if eos then
                       Inr (Some (rx_evs @ tx_evs @ [FLEXTCP_EV_CONN_RXCLOSED c]),
                            set_conn c ((conns ctx2 c)\<lparr>rx_closed := True\<rparr>) ctx2)
                     else Inr (Some (rx_evs @ tx_evs), ctx2))"

subsection \<open>The list of pending updates\<close>

fun chain :: "(addr \<Rightarrow> addr option) \<Rightarrow> addr option \<Rightarrow> addr list \<Rightarrow> bool" where
  "chain nxt p [] = (p = None)"
| "chain nxt p (a # as) = (p = Some a \<and> chain nxt (nxt a) as)"

definition last_opt :: "addr list \<Rightarrow> addr option" where
  "last_opt xs = (if xs = [] then None else Some (last xs))"

definition bump_list :: "flextcp_context \<Rightarrow> addr list \<Rightarrow> bool" where
  "bump_list ctx xs \<longleftrightarrow>
     chain (\<lambda>a. bump_next (conns ctx a)) (bump_pending_first ctx) xs \<and> distinct xs \<and>
     bump_pending_last ctx = last_opt xs \<and> (\<forall>a. bump_pending (conns ctx a) \<longleftrightarrow> a \<in> set xs)"

lemma chain_cong: "(\<And>a. a \<in> set xs \<Longrightarrow> f a = g a) \<Longrightarrow> chain f p xs = chain g p xs"
  by (induction xs arbitrary: p) auto

lemma chain_snoc:
  "chain nxt p (xs @ [x]) \<Longrightarrow> x \<notin> set xs \<Longrightarrow> c \<notin> set (xs @ [x]) \<Longrightarrow>
     chain (nxt(x := Some c, c := None)) p (xs @ [x, c])"
  by (induction xs arbitrary: p) auto

lemma set_conn_simps [simp]:
  "conns (set_conn c v ctx) = (conns ctx)(c := v)"
  "bump_pending_first (set_conn c v ctx) = bump_pending_first ctx"
  "bump_pending_last (set_conn c v ctx) = bump_pending_last ctx"
  "txq_avail (set_conn c v ctx) = txq_avail ctx" "txq_tail (set_conn c v ctx) = txq_tail ctx"
  "txq_len (set_conn c v ctx) = txq_len ctx" "txq (set_conn c v ctx) = txq ctx"
  by (simp_all add: set_conn_def)

lemma spin_put_simps [simp]:
  "conns (spin_put e ctx) = conns ctx" "bump_pending_first (spin_put e ctx) = bump_pending_first ctx"
  "bump_pending_last (spin_put e ctx) = bump_pending_last ctx"
  by (simp_all add: spin_put_def Let_def)

lemma mark_bump_list:
  assumes "bump_list ctx xs"
  shows "bump_list (conn_mark_bump c ctx) (if c \<in> set xs then xs else xs @ [c])"
proof (cases "c \<in> set xs")
  case True
  then show ?thesis using assms by (simp add: conn_mark_bump_def bump_list_def)
next
  case False
  then have np: "\<not> bump_pending (conns ctx c)" using assms by (simp add: bump_list_def)
  let ?n = "\<lambda>a. bump_next (conns ctx a)"
  have ch: "chain ?n (bump_pending_first ctx) xs" "distinct xs" "bump_pending_last ctx = last_opt xs"
    using assms by (auto simp: bump_list_def)
  show ?thesis
  proof (cases xs rule: rev_cases)
    case Nil
    then show ?thesis using assms np by (auto simp: conn_mark_bump_def bump_list_def last_opt_def Let_def)
  next
    case (snoc ys x)
    have xc: "x \<noteq> c" using False snoc by auto
    let ?ctx = "conn_mark_bump c ctx"
    have eq: "?ctx = set_conn c ((conns ctx c)\<lparr>bump_next := None, bump_prev := Some x, bump_pending := True\<rparr>)
        (set_conn x ((conns ctx x)\<lparr>bump_next := Some c\<rparr>) ctx)\<lparr>bump_pending_last := Some c\<rparr>"
      using np ch(3) snoc xc
      by (auto simp: conn_mark_bump_def last_opt_def Let_def set_conn_def fun_upd_twist)
    have "chain (?n(x := Some c, c := None)) (bump_pending_first ctx) (ys @ [x, c])"
      using ch snoc False by (intro chain_snoc) auto
    moreover have "?n(x := Some c, c := None) = (\<lambda>a. bump_next (conns ?ctx a))"
      using xc by (auto simp: eq set_conn_def)
    ultimately show ?thesis using assms snoc False xc
      by (auto simp: bump_list_def eq set_conn_def last_opt_def)
  qed
qed

subsection \<open>Posting the pending updates\<close>

definition bump_entry :: "flextcp_connection \<Rightarrow> flextcp_pl_atx" where
  "bump_entry conn = FLEXTCP_PL_ATX_CONNUPDATE (rxb_bump conn) (txb_bump conn) (flow_id conn)
     (flow_group conn) (ucast (bump_seq conn)) 0"

definition bumped :: "flextcp_connection \<Rightarrow> flextcp_connection" where
  "bumped conn = conn\<lparr>bump_seq := bump_seq conn + 1, rxb_bump := 0, txb_bump := 0, bump_pending := False\<rparr>"

fun post :: "nat \<Rightarrow> nat \<Rightarrow> 'e list \<Rightarrow> (nat \<Rightarrow> 'e) \<Rightarrow> nat \<Rightarrow> 'e" where
  "post len t [] q = q"
| "post len t (e # es) q = post len (Suc t mod len) es (q(t := e))"

lemma post_other:
  "t < len \<Longrightarrow> (\<And>i. i < length es \<Longrightarrow> j \<noteq> (t + i) mod len) \<Longrightarrow> post len t es q j = q j"
proof (induction es arbitrary: t q)
  case (Cons e es)
  have "j \<noteq> (Suc t mod len + i) mod len" if "i < length es" for i
    using Cons.prems(2) [of "Suc i"] that by (simp add: mod_simps)
  moreover have "j \<noteq> t" using Cons.prems(1) Cons.prems(2) [of 0] by simp
  ultimately show ?case using Cons.IH [of "Suc t mod len" "q(t := e)"] Cons.prems(1) by (auto simp: fun_upd_def)
qed simp

lemma post_nth:
  "t < len \<Longrightarrow> length es \<le> len \<Longrightarrow> i < length es \<Longrightarrow> post len t es q ((t + i) mod len) = es ! i"
proof (induction es arbitrary: t q i)
  case (Cons e es)
  show ?case
  proof (cases i)
    case 0
    have "t \<noteq> (Suc t mod len + j) mod len" if "j < length es" for j
      using mod_add_inj [of 0 len "Suc j" t] Cons.prems that by (auto simp: mod_simps)
    then have "post len (Suc t mod len) es (q(t := e)) t = (q(t := e)) t"
      using Cons.prems(1) by (intro post_other) auto
    then show ?thesis using 0 Cons.prems(1) by simp
  next
    case (Suc j)
    then have "(t + i) mod len = (Suc t mod len + j) mod len" by (simp add: mod_simps)
    then show ?thesis using Cons.IH [of "Suc t mod len" j] Cons.prems Suc by simp
  qed
qed simp

lemma bump_list_queue [simp]:
  "bump_list (ctx\<lparr>txq_tail := t, txq_avail := a\<rparr>) xs = bump_list ctx xs"
  "bump_list (ctx\<lparr>tx_p_idx := i\<rparr>) xs = bump_list ctx xs"
  by (simp_all add: bump_list_def)

lemma bump_one_list:
  assumes "bump_list ctx (c # xs)"
  shows "bump_list (bump_one c slot ctx) xs"
proof -
  have "chain (\<lambda>a. bump_next (conns (bump_one c slot ctx) a)) (bump_next (conns ctx c)) xs"
    using assms by (auto simp: bump_list_def bump_one_def Let_def elim!: chain_cong [THEN iffD1, rotated])
  then show ?thesis using assms
    by (cases xs) (auto simp: bump_list_def bump_one_def Let_def last_opt_def)
qed

lemma bump_one_simps:
  "conns (bump_one c slot ctx) = (conns ctx)(c := bumped (conns ctx c))"
  "txq (bump_one c slot ctx) = (txq ctx)(slot := bump_entry (conns ctx c))"
  "txq_avail (bump_one c slot ctx) = txq_avail ctx" "txq_tail (bump_one c slot ctx) = txq_tail ctx"
  "txq_len (bump_one c slot ctx) = txq_len ctx"
  by (simp_all add: bump_one_def bumped_def bump_entry_def Let_def)

lemma tx_alloc_next:
  assumes "txq_avail ctx \<noteq> 0" and "txq_tail ctx < txq_len ctx" and "flextcp_context_tx_alloc ctx = Some (slot, ctx1)"
  shows "slot = unat (txq_tail ctx)" "unat (txq_tail ctx1) = Suc (unat (txq_tail ctx)) mod unat (txq_len ctx)"
    "txq_len ctx1 = txq_len ctx" "unat (txq_avail ctx1) = unat (txq_avail ctx) - 1"
    "conns ctx1 = conns ctx" "txq ctx1 = txq ctx" "bump_list ctx1 xs = bump_list ctx xs"
    "txq_tail ctx1 < txq_len ctx1"
proof -
  have s: "unat (txq_tail ctx + 1) = Suc (unat (txq_tail ctx))"
    using assms(2) unat_u32_less [of "txq_len ctx"] by (subst unat_add_exact) (simp_all add: word_nat)
  show "slot = unat (txq_tail ctx)" "txq_len ctx1 = txq_len ctx" "conns ctx1 = conns ctx" "txq ctx1 = txq ctx"
    "bump_list ctx1 xs = bump_list ctx xs"
    using assms(1,3) by (auto simp: flextcp_context_tx_alloc_def Let_def)
  show "unat (txq_avail ctx1) = unat (txq_avail ctx) - 1"
    using assms(1,3) by (auto simp: flextcp_context_tx_alloc_def Let_def unat_minus_one)
  show t: "unat (txq_tail ctx1) = Suc (unat (txq_tail ctx)) mod unat (txq_len ctx)"
    using assms s by (auto simp: flextcp_context_tx_alloc_def Let_def word_nat unat_sub le_Suc_eq)
  have "0 < unat (txq_len ctx)" using assms(2) by (simp add: word_nat)
  then show "txq_tail ctx1 < txq_len ctx1" using t \<open>txq_len ctx1 = txq_len ctx\<close> by (simp add: word_nat)
qed

lemma bump_loop_list:
  assumes "bump_list ctx xs" and "list_all (\<lambda>a. status (conns ctx a) = CONN_OPEN) xs" and "txq_tail ctx < txq_len ctx"
  defines "k \<equiv> min (unat (txq_avail ctx)) (length xs)"
  shows "\<exists>ctx'. bump_loop cnt ctx = Inr (cnt + k, ctx') \<and> bump_list ctx' (drop k xs) \<and>
    conns ctx' = (\<lambda>a. if a \<in> set (take k xs) then bumped (conns ctx a) else conns ctx a) \<and>
    txq ctx' = post (unat (txq_len ctx)) (unat (txq_tail ctx)) (map (\<lambda>a. bump_entry (conns ctx a)) (take k xs)) (txq ctx) \<and>
    unat (txq_tail ctx') = (unat (txq_tail ctx) + k) mod unat (txq_len ctx) \<and>
    unat (txq_avail ctx') = unat (txq_avail ctx) - k \<and> txq_len ctx' = txq_len ctx"
  using assms(1-3) unfolding k_def
proof (induction xs arbitrary: ctx cnt)
  case Nil
  then have "bump_loop cnt ctx = Inr (cnt, ctx)" by (subst bump_loop.simps) (simp add: bump_list_def)
  with Nil show ?case by (simp add: word_nat)
next
  case (Cons c xs)
  have first: "bump_pending_first ctx = Some c" "status (conns ctx c) = CONN_OPEN" "c \<notin> set xs"
    using Cons.prems by (auto simp: bump_list_def)
  show ?case
  proof (cases "txq_avail ctx = 0")
    case True
    then have "bump_loop cnt ctx = Inr (cnt, ctx)"
      by (subst bump_loop.simps) (simp add: first flextcp_context_tx_alloc_def)
    with Cons.prems True show ?thesis by (simp add: word_nat)
  next
    case False
    then obtain slot ctx1 where a: "flextcp_context_tx_alloc ctx = Some (slot, ctx1)"
      by (auto simp: flextcp_context_tx_alloc_def Let_def)
    note n = tx_alloc_next [OF False Cons.prems(3) a]
    let ?ctx2 = "bump_one c slot ctx1"
    have "bump_list ?ctx2 xs" using Cons.prems(1) n(7) by (intro bump_one_list) simp
    moreover have "list_all (\<lambda>a. status (conns ?ctx2 a) = CONN_OPEN) xs"
      using Cons.prems(2) by (auto simp: bump_one_simps n bumped_def list_all_iff)
    moreover have "txq_tail ?ctx2 < txq_len ?ctx2" using n(8) by (simp add: bump_one_simps)
    ultimately obtain ctx' where IH: "bump_loop (Suc cnt) ?ctx2 = Inr (Suc cnt + min (unat (txq_avail ?ctx2)) (length xs), ctx')"
      "bump_list ctx' (drop (min (unat (txq_avail ?ctx2)) (length xs)) xs)"
      "conns ctx' = (\<lambda>a. if a \<in> set (take (min (unat (txq_avail ?ctx2)) (length xs)) xs) then bumped (conns ?ctx2 a) else conns ?ctx2 a)"
      "txq ctx' = post (unat (txq_len ?ctx2)) (unat (txq_tail ?ctx2))
         (map (\<lambda>a. bump_entry (conns ?ctx2 a)) (take (min (unat (txq_avail ?ctx2)) (length xs)) xs)) (txq ?ctx2)"
      "unat (txq_tail ctx') = (unat (txq_tail ?ctx2) + min (unat (txq_avail ?ctx2)) (length xs)) mod unat (txq_len ?ctx2)"
      "unat (txq_avail ctx') = unat (txq_avail ?ctx2) - min (unat (txq_avail ?ctx2)) (length xs)" "txq_len ctx' = txq_len ?ctx2"
      using Cons.IH [of ?ctx2 "Suc cnt"] by blast
    have k: "min (unat (txq_avail ctx)) (length (c # xs)) = Suc (min (unat (txq_avail ?ctx2)) (length xs))"
    proof -
      have "0 < unat (txq_avail ctx)" using False by (simp add: unat_gt_0)
      then show ?thesis by (auto simp: bump_one_simps n min_def)
    qed
    have l: "bump_loop cnt ctx = bump_loop (Suc cnt) ?ctx2"
      by (subst bump_loop.simps) (simp add: first a)
    have m: "map (\<lambda>a. bump_entry (conns ?ctx2 a)) (take j xs) = map (\<lambda>a. bump_entry (conns ctx a)) (take j xs)" for j
      using first(3) by (auto simp: bump_one_simps n dest: in_set_takeD)
    have c: "(\<lambda>a. if a \<in> set (take j xs) then bumped (conns ?ctx2 a) else conns ?ctx2 a) =
        (\<lambda>a. if a \<in> set (take (Suc j) (c # xs)) then bumped (conns ctx a) else conns ctx a)" for j
      using first(3) by (auto simp: bump_one_simps n fun_eq_iff dest: in_set_takeD)
    show ?thesis
      unfolding k l
      by (rule exI [of _ ctx']) (use IH [unfolded m c] in \<open>simp add: bump_one_simps n mod_simps del: fun_upd_apply\<close>)
  qed
qed

subsection \<open>Taking a connection off the list\<close>

lemma bump_pred_list:
  assumes "chain (\<lambda>a. bump_next (conns ctx a)) p (ys @ y # c # zs)" and "distinct (ys @ y # c # zs)"
  shows "bump_pred ctx c p = Some (Some y)"
  using assms
proof (induction ys arbitrary: p)
  case Nil
  then show ?case by (subst bump_pred.simps) auto
next
  case (Cons a ys)
  have p: "p = Some a" using Cons.prems by simp
  have "bump_next (conns ctx a) \<noteq> Some c" using Cons.prems by (cases ys) auto
  then have "bump_pred ctx c p = bump_pred ctx c (bump_next (conns ctx a))"
    by (subst bump_pred.simps) (simp add: p)
  then show ?case using Cons by simp
qed

lemma chain_skip:
  assumes "chain nxt p (ys @ y # c # zs)" and "distinct (ys @ y # c # zs)"
  shows "chain (nxt(y := nxt c)) p (ys @ y # zs)"
  using assms
proof (induction ys arbitrary: p)
  case Nil
  then have "chain nxt (nxt c) zs" by simp
  moreover have "chain (nxt(y := nxt c)) (nxt c) zs = chain nxt (nxt c) zs"
    using Nil by (intro chain_cong) auto
  ultimately show ?case using Nil by (simp add: fun_upd_def)
next
  case (Cons a ys)
  then show ?case by auto
qed

lemma bump_remove_list:
  assumes l: "bump_list ctx xs" and c: "c \<in> set xs" and "xs \<noteq> [c]"
  shows "\<exists>ctx'. bump_remove c ctx = Some (Inr ctx') \<and> bump_list ctx' (remove1 c xs)"
proof -
  let ?n = "\<lambda>a. bump_next (conns ctx a)"
  have b: "bump_pending (conns ctx c)" and d: "distinct xs" and ch: "chain ?n (bump_pending_first ctx) xs"
    and la: "bump_pending_last ctx = last_opt xs"
    using l c by (auto simp: bump_list_def)
  obtain ys zs where xs: "xs = ys @ c # zs" using c by (metis split_list)
  show ?thesis
  proof (cases ys rule: rev_cases)
    case Nil
    then have "zs \<noteq> []" using assms(3) xs by simp
    have "chain ?n (?n c) zs" using ch xs Nil by simp
    moreover have "chain (\<lambda>a. bump_next (((conns ctx)(c := (conns ctx c)\<lparr>bump_pending := False\<rparr>)) a)) (?n c) zs =
        chain ?n (?n c) zs" by (intro chain_cong) auto
    ultimately show ?thesis using l b xs Nil \<open>zs \<noteq> []\<close>
      by (auto simp: bump_remove_def bump_list_def Let_def last_opt_def)
  next
    case (snoc us y)
    have cy: "c \<noteq> y" "c \<notin> set us" "c \<notin> set zs" "y \<notin> set us" "y \<notin> set zs" using d xs snoc by auto
    have first: "bump_pending_first ctx \<noteq> Some c" using ch xs snoc cy by (cases us) auto
    have pr: "bump_pred ctx c (bump_pending_first ctx) = Some (Some y)"
      using bump_pred_list [of ctx _ us y c zs] ch d xs snoc by simp
    have nc: "?n c = (case zs of [] \<Rightarrow> None | z # _ \<Rightarrow> Some z)"
    proof -
      have "chain ?n p (us @ y # c # zs) \<Longrightarrow> ?n c = (case zs of [] \<Rightarrow> None | z # _ \<Rightarrow> Some z)" for p
        by (induction us arbitrary: p) (auto split: list.split)
      then show ?thesis using ch xs snoc by simp
    qed
    let ?f = "(conns ctx)(y := (conns ctx y)\<lparr>bump_next := ?n c\<rparr>, c := (conns ctx c)\<lparr>bump_pending := False\<rparr>)"
    have r: "remove1 c xs = us @ y # zs" using xs snoc cy by (simp add: remove1_append)
    have "chain (?n(y := ?n c)) (bump_pending_first ctx) (us @ y # zs)"
      using chain_skip [of ?n _ us y c zs] ch d xs snoc by simp
    moreover have "chain (?n(y := ?n c)) p (us @ y # zs) = chain (\<lambda>a. bump_next (?f a)) p (us @ y # zs)" for p
      using cy by (intro chain_cong) auto
    ultimately have "chain (\<lambda>a. bump_next (?f a)) (bump_pending_first ctx) (us @ y # zs)" by blast
    moreover have "bump_pending (?f a) \<longleftrightarrow> a \<in> set (us @ y # zs)" for a
      using l xs snoc cy by (auto simp: bump_list_def)
    ultimately show ?thesis using b first pr d xs snoc cy la nc unfolding r
      by (cases zs) (auto simp: bump_remove_def bump_list_def Let_def last_opt_def)
  qed
qed

subsection \<open>Properties\<close>

text \<open>
  C25. Posting updates. With the pending connections \<open>xs\<close> open and room for \<open>n\<close> entries in the
  queue to the NIC, the first \<open>n\<close> of them, or all if there are fewer, get one entry each, in order,
  in consecutive slots, with all the receive and transmit bytes accumulated since the last one;
  those amounts start again from 0, the other connections stay pending in order, and the NIC is
  told the new end of the queue.
\<close>

theorem conns_bump_posts:
  assumes "bump_list ctx xs" and "list_all (\<lambda>a. status (conns ctx a) = CONN_OPEN) xs"
    and "txq_tail ctx < txq_len ctx" and "txq_avail ctx \<le> txq_len ctx" and "unat (txq_len ctx) \<le> 2 ^ 16"
  defines "k \<equiv> min (unat (txq_avail ctx)) (length xs)"
  shows "\<exists>ctx'. conns_bump ctx = Inr ctx' \<and> bump_list ctx' (drop k xs) \<and>
    (\<forall>i<k. txq ctx' ((unat (txq_tail ctx) + i) mod unat (txq_len ctx)) = bump_entry (conns ctx (xs ! i))) \<and>
    conns ctx' = (\<lambda>a. if a \<in> set (take k xs) then bumped (conns ctx a) else conns ctx a) \<and>
    unat (txq_avail ctx') = unat (txq_avail ctx) - k \<and>
    unat (txq_tail ctx') = (unat (txq_tail ctx) + k) mod unat (txq_len ctx) \<and>
    (0 < k \<longrightarrow> tx_p_idx ctx' = txq_tail ctx')"
proof -
  obtain ctx' where r: "bump_loop 0 ctx = Inr (k, ctx')" "bump_list ctx' (drop k xs)"
    "conns ctx' = (\<lambda>a. if a \<in> set (take k xs) then bumped (conns ctx a) else conns ctx a)"
    "txq ctx' = post (unat (txq_len ctx)) (unat (txq_tail ctx)) (map (\<lambda>a. bump_entry (conns ctx a)) (take k xs)) (txq ctx)"
    "unat (txq_tail ctx') = (unat (txq_tail ctx) + k) mod unat (txq_len ctx)"
    "unat (txq_avail ctx') = unat (txq_avail ctx) - k"
    using bump_loop_list [OF assms(1-3), of 0] by (auto simp: k_def)
  have len: "unat (txq_tail ctx) < unat (txq_len ctx)" "unat (txq_avail ctx) \<le> unat (txq_len ctx)"
    using assms(3,4) by (simp_all add: word_nat)
  have "txq ctx' ((unat (txq_tail ctx) + i) mod unat (txq_len ctx)) = bump_entry (conns ctx (xs ! i))" if "i < k" for i
    using post_nth [OF len(1), of "map (\<lambda>a. bump_entry (conns ctx a)) (take k xs)" i "txq ctx"] that len(2)
    by (simp add: r(4) k_def)
  moreover have "unat (txq_tail ctx') < 2 ^ 16"
  proof -
    have "unat (txq_tail ctx') < unat (txq_len ctx)" using len(1) by (simp add: r(5))
    then show ?thesis using assms(5) by simp
  qed
  then have "ucast (ucast (txq_tail ctx') :: u16) = txq_tail ctx'"
    using take_bit_small [of "txq_tail ctx'" 16] by (simp add: word_unat_eq_iff unsigned_ucast_eq)
  ultimately show ?thesis using r
    by (auto simp: conns_bump_def flextcp_context_tx_done_def intro!: exI [of _ "if 0 < k then flextcp_context_tx_done ctx' else ctx'"])
qed

text \<open>
  C26. Closing the only connection of the list leaves its end pointing to it: the next connection
  with an update is linked behind the closed one and not reached from the start of the list. Its
  update is marked pending, and posting updates leaves it there.
\<close>

theorem close_strands_updates:
  assumes "bump_list ctx [c]" and "flextcp_connection_close c ctx = Some (Inr (r, ctx1))" and "d \<noteq> c"
  shows "bump_pending (conns (conn_mark_bump d ctx1) d) \<and>
    conns_bump (conn_mark_bump d ctx1) = Inr (conn_mark_bump d ctx1)"
proof -
  let ?m = "set_conn c ((conns ctx c)\<lparr>bump_pending := False\<rparr>) (ctx\<lparr>bump_pending_first := None\<rparr>)"
  have "bump_remove c ctx = Some (Inr ?m)"
    using assms(1) by (simp add: bump_remove_def bump_list_def)
  then have "\<exists>e v. ctx1 = ?m \<or> ctx1 = spin_put e (set_conn c v ?m)"
    using assms(2) by (auto simp: flextcp_connection_close_def Let_def split: if_splits)
  then have c1: "bump_pending_first ctx1 = None" "bump_pending_last ctx1 = Some c" "\<not> bump_pending (conns ctx1 d)"
  proof -
    have "bump_pending_last ctx = Some c" "\<not> bump_pending (conns ctx d)"
      using assms(1,3) by (simp_all add: bump_list_def last_opt_def)
    moreover obtain e v where "ctx1 = ?m \<or> ctx1 = spin_put e (set_conn c v ?m)"
      using \<open>\<exists>e v. ctx1 = ?m \<or> ctx1 = spin_put e (set_conn c v ?m)\<close> by blast
    ultimately show "bump_pending_first ctx1 = None" "bump_pending_last ctx1 = Some c" "\<not> bump_pending (conns ctx1 d)"
      using assms(3) by auto
  qed
  then have "bump_pending_first (conn_mark_bump d ctx1) = None" "bump_pending (conns (conn_mark_bump d ctx1) d)"
    using assms(3) by (simp_all add: conn_mark_bump_def Let_def)
  moreover from this have "bump_loop 0 (conn_mark_bump d ctx1) = Inr (0, conn_mark_bump d ctx1)"
    by (subst bump_loop.simps) simp
  ultimately show ?thesis by (simp add: conns_bump_def)
qed

text \<open>Two open connections; the first has 100 bytes to report.\<close>

definition two_conns :: flextcp_context where
  "two_conns = \<lparr>spout_len = 4, spout_head = 0, spout_q = \<lambda>_. SP_APPIN_INVALID, rxq_len = 4, rxq_head = 0,
     rxq = \<lambda>_. FLEXTCP_PL_ARX_INVALID, rx_c_idx = 0, ctx_flags = 0, last_inev_ts = 0,
     spin_len = 4, spin_head = 0, spin_q = \<lambda>_. SP_APPOUT_INVALID,
     txq_len = 4, txq_tail = 3, txq_avail = 3, txq = \<lambda>_. FLEXTCP_PL_ATX_INVALID, tx_p_idx = 3,
     bump_pending_first = Some 1, bump_pending_last = Some 1, db_id = 0,
     conns = (\<lambda>a. connection_init\<lparr>status := CONN_OPEN, flow_id := of_nat a, txb_len := 4096, txb_bump := 100,
                     bump_pending := (a = 1)\<rparr>)\<rparr>"

lemma two_conns_list: "bump_list two_conns [1]"
  by (auto simp: bump_list_def two_conns_def last_opt_def connection_init_def)

theorem conns_bump_posts_witness:
  "\<exists>ctx'. conns_bump two_conns = Inr ctx' \<and> txq ctx' 3 = FLEXTCP_PL_ATX_CONNUPDATE 0 100 1 0 0 0 \<and>
     tx_p_idx ctx' = 0 \<and> bump_list ctx' []"
proof -
  have f: "list_all (\<lambda>a. status (conns two_conns a) = CONN_OPEN) [1]" "txq_tail two_conns < txq_len two_conns"
    "txq_avail two_conns \<le> txq_len two_conns" "unat (txq_len two_conns) \<le> 2 ^ 16"
    by (simp_all add: two_conns_def connection_init_def)
  have e: "bump_entry (conns two_conns 1) = FLEXTCP_PL_ATX_CONNUPDATE 0 100 1 0 0 0"
    "unat (txq_tail two_conns) = 3" "unat (txq_len two_conns) = 4" "unat (txq_avail two_conns) = 3"
    by (simp_all add: two_conns_def connection_init_def bump_entry_def)
  from conns_bump_posts [OF two_conns_list f] obtain ctx' where "conns_bump two_conns = Inr ctx'"
    "txq ctx' 3 = FLEXTCP_PL_ATX_CONNUPDATE 0 100 1 0 0 0" "bump_list ctx' []" "unat (txq_tail ctx') = 0"
    "tx_p_idx ctx' = txq_tail ctx'" by (auto simp: e simp del: One_nat_def)
  then show ?thesis by (auto simp: unat_eq_0)
qed

theorem close_strands_updates_witness:
  "\<exists>ctx1. flextcp_connection_close 1 two_conns = Some (Inr (0, ctx1)) \<and>
     txb_bump (conns ctx1 2) = 100 \<and> conns_bump (conn_mark_bump 2 ctx1) = Inr (conn_mark_bump 2 ctx1)"
proof -
  obtain ctx1 where c: "flextcp_connection_close 1 two_conns = Some (Inr (0, ctx1))" "txb_bump (conns ctx1 2) = 100"
    by (auto simp: flextcp_connection_close_def bump_remove_def spin_full_def two_conns_def Let_def set_conn_def
        spin_put_def connection_init_def)
  from close_strands_updates [OF two_conns_list c(1), of 2] c show ?thesis by auto
qed

end
