(* ===== verification/Lib_Buffers.thy ===== *)
theory Lib_Buffers
  imports Lib_Conn
begin

unbundle bit_operations_syntax

text \<open>
  The transmit and receive buffers of a connection in the application library. The 32-bit
  positions of \<open>flextcp_connection\<close> are read as absolute positions in the byte streams: position \<open>p\<close>
  of the stream is at index \<open>p mod len\<close> of the circular buffer.

  For transmission, \<open>acked \<le> posted \<le> sent \<le> alloc \<le> acked + len\<close> are the positions up to which the
  peer acknowledged, the NIC was told, the application sent and allocated.
\<close>

subsection \<open>Positions\<close>

record tx_stream =
  acked :: nat
  posted :: nat
  sent :: nat
  alloc :: nat

definition tx_rel :: "tx_stream \<Rightarrow> flextcp_connection \<Rightarrow> bool" where
  "tx_rel t conn \<longleftrightarrow>
     0 < unat (txb_len conn) \<and> unat (txb_len conn) \<le> 2 ^ 31 \<and>
     acked t \<le> posted t \<and> posted t \<le> sent t \<and> sent t \<le> alloc t \<and> alloc t \<le> acked t + unat (txb_len conn) \<and>
     unat (txb_sent conn) = sent t - acked t \<and> unat (txb_allocated conn) = alloc t - sent t \<and>
     unat (txb_head conn) = sent t mod unat (txb_len conn) \<and> unat (txb_bump conn) = sent t - posted t"

definition tx_place :: "flextcp_connection \<Rightarrow> nat \<Rightarrow> addr" where
  "tx_place conn p = txb_base conn + p mod unat (txb_len conn)"

lemma unat_ucast_32_64 [simp]: "unat (ucast (x :: u32) :: u64) = unat x"
  by (simp add: unsigned_ucast_eq take_bit_nat_eq_self less_trans [OF unat_u32_less])

lemma unat_ucast_64_32: "unat y < 2 ^ 32 \<Longrightarrow> unat (ucast (y :: u64) :: u32) = unat y"
  by (simp add: unsigned_ucast_eq take_bit_nat_eq_self)

text \<open>Advancing a position of the buffer by at most its length.\<close>

lemma wrap_mod: "(if L \<le> p mod L + n then p mod L + n - L else p mod L + n) = (p + n) mod L" if "n \<le> L" "0 < L" for p n L :: nat
proof -
  have "p mod L + n < 2 * L" using that mod_less_divisor [of L p] by linarith
  moreover have "x mod L = (if L \<le> x then x - L else x)" if "x < 2 * L" for x
    using that by (simp add: le_mod_geq)
  ultimately have "(p mod L + n) mod L = (if L \<le> p mod L + n then p mod L + n - L else p mod L + n)" by blast
  then show ?thesis by (simp only: mod_add_left_eq)
qed

lemma advance_pos:
  fixes h n len :: u32
  assumes "unat h = p mod unat len" and "unat n \<le> unat len" and "0 < unat len" and "unat len \<le> 2 ^ 31"
  shows "unat (h + n) = p mod unat len + unat n"
    "unat (if len \<le> h + n then h + n - len else h + n) = (p + unat n) mod unat len"
proof -
  have "p mod unat len < 2 ^ 31" using mod_less_divisor [OF assms(3)] assms(4) by (rule less_le_trans)
  then have "p mod unat len + unat n < 2 ^ 31 + 2 ^ 31" using order_trans [OF assms(2,4)] by (rule add_less_le_mono)
  then show s: "unat (h + n) = p mod unat len + unat n"
    using assms(1) by (subst unat_add_exact) simp_all
  have "unat (h + n - len) = unat (h + n) - unat len" if "len \<le> h + n" using that by (rule unat_sub)
  then show "unat (if len \<le> h + n then h + n - len else h + n) = (p + unat n) mod unat len"
    using wrap_mod [OF assms(2,3), of p] by (auto simp: word_nat s)
qed

lemma tx_rel_facts:
  assumes "tx_rel t conn"
  shows "unat (conn_tx_allocbytes conn) = acked t + unat (txb_len conn) - alloc t"
    "unat (let h = txb_head conn + txb_allocated conn in if txb_len conn \<le> h then h - txb_len conn else h) =
       alloc t mod unat (txb_len conn)"
proof -
  have t: "0 < unat (txb_len conn)" "unat (txb_len conn) \<le> 2 ^ 31" "acked t \<le> sent t" "sent t \<le> alloc t"
    "alloc t \<le> acked t + unat (txb_len conn)" "unat (txb_sent conn) = sent t - acked t"
    "unat (txb_allocated conn) = alloc t - sent t" "unat (txb_head conn) = sent t mod unat (txb_len conn)"
    using assms by (auto simp: tx_rel_def)
  have 1: "unat (txb_len conn - txb_sent conn) = unat (txb_len conn) - unat (txb_sent conn)"
    using t by (intro unat_sub) (simp add: word_nat)
  have "unat (txb_len conn - txb_sent conn - txb_allocated conn) =
      unat (txb_len conn - txb_sent conn) - unat (txb_allocated conn)"
    using t 1 by (intro unat_sub) (simp add: word_nat)
  then show "unat (conn_tx_allocbytes conn) = acked t + unat (txb_len conn) - alloc t"
    using t 1 by (simp add: conn_tx_allocbytes_def)
  show "unat (let h = txb_head conn + txb_allocated conn in if txb_len conn \<le> h then h - txb_len conn else h) =
      alloc t mod unat (txb_len conn)"
    using advance_pos(2) [OF t(8), of "txb_allocated conn"] t by (simp add: Let_def)
qed

subsection \<open>Allocation\<close>

text \<open>Positions within one turn of the buffer have different places.\<close>

lemma tx_place_inj:
  assumes "tx_place conn p = tx_place conn q" and "p \<le> q" and "q < p + unat (txb_len conn)"
  shows "p = q"
proof -
  have eq: "(p + 0) mod unat (txb_len conn) = (p + (q - p)) mod unat (txb_len conn)"
    using assms(1,2) by (simp add: tx_place_def)
  have lt: "q - p < unat (txb_len conn)" using assms(2,3) by linarith
  have "0 = q - p" by (rule mod_add_inj [OF le_less_trans [OF le0 lt] lt eq])
  then show ?thesis using assms(2) by simp
qed

lemma tx_rel_alloc:
  assumes "tx_rel t conn" and "unat (m :: u64) \<le> acked t + unat (txb_len conn) - alloc t"
  shows "tx_rel (t\<lparr>alloc := alloc t + unat m\<rparr>) (conn\<lparr>txb_allocated := txb_allocated conn + ucast m\<rparr>)"
proof -
  note r = assms(1) [unfolded tx_rel_def]
  have m: "unat m \<le> unat (txb_len conn)" using assms(2) r by linarith
  have u: "unat (ucast m :: u32) = unat m"
    using le_less_trans [OF m unat_u32_less] by (intro unat_ucast_64_32) simp
  have "unat (txb_allocated conn + ucast m) = alloc t + unat m - sent t"
    using r u assms(2) m by (subst unat_add_exact) auto
  then show ?thesis using r assms(2) by (auto simp: tx_rel_def)
qed

lemma tx_alloc2_result:
  fixes len
  assumes "tx_rel t conn" and "c_flags conn AND CONN_FLAG_TXEOS \<noteq> CONN_FLAG_TXEOS"
  defines "n \<equiv> min (unat len) (acked t + unat (txb_len conn) - alloc t)"
  obtains l b1 l1 b2 where
    "flextcp_connection_tx_alloc2 len conn =
       Some (l, b1, l1, b2, conn\<lparr>txb_allocated := txb_allocated conn + ucast l\<rparr>)"
    "unat l = n" "unat l1 \<le> n"
    "\<And>i. i < n \<Longrightarrow> (if i < unat l1 then b1 + i else the b2 + (i - unat l1)) = tx_place conn (alloc t + i)"
proof -
  let ?L = "unat (txb_len conn)" and ?f = "acked t + unat (txb_len conn) - alloc t"
  note r = assms(1) [unfolded tx_rel_def] and f = tx_rel_facts [OF assms(1)]
  define h where "h = (let h = txb_head conn + txb_allocated conn in if txb_len conn \<le> h then h - txb_len conn else h)"
  have h: "unat h = alloc t mod ?L" "unat h < ?L" using f(2) r by (simp_all add: h_def)
  define l where "l = (if ucast (conn_tx_allocbytes conn) < len then ucast (conn_tx_allocbytes conn) else len)"
  have l: "unat l = n" by (auto simp: l_def n_def f(1) word_nat min_def)
  have n: "n \<le> ?L" using r by (auto simp: n_def)
  have hl: "unat (ucast h + l) = unat h + n" using h(2) l n r by (simp add: unat_word_ariths)
  have sub: "unat (txb_len conn - h) = ?L - unat h" using h(2) by (intro unat_sub) (simp add: word_nat)
  have wrap: "(ucast (txb_len conn) < ucast h + l) = (?L < unat h + n)" by (simp add: word_nat hl)
  define l1 where "l1 = (if ?L < unat h + n then ucast (txb_len conn - h) else l)"
  define b2 where "b2 = (if ?L < unat h + n then Some (txb_base conn) else None)"
  have call: "flextcp_connection_tx_alloc2 len conn =
      Some (l, txb_base conn + unat h, l1, b2, conn\<lparr>txb_allocated := txb_allocated conn + ucast l\<rparr>)"
    using assms(2)
    unfolding flextcp_connection_tx_alloc2_def Let_def l_def [unfolded Let_def, symmetric]
      h_def [unfolded Let_def, symmetric] wrap l1_def b2_def by simp
  have place: "tx_place conn (alloc t + i) =
      txb_base conn + (if ?L \<le> unat h + i then unat h + i - ?L else unat h + i)" if "i < n" for i
  proof -
    have "(alloc t + i) mod ?L = (if ?L \<le> unat h + i then unat h + i - ?L else unat h + i)"
      unfolding h(1) by (rule wrap_mod [symmetric]) (use that n r in auto)
    then show ?thesis by (simp add: tx_place_def)
  qed
  have "(if i < unat l1 then txb_base conn + unat h + i else the b2 + (i - unat l1)) = tx_place conn (alloc t + i)"
    if "i < n" for i
    using that sub h(2) l unfolding place [OF that] by (auto simp: l1_def b2_def)
  moreover have "unat l1 \<le> n" using l sub by (auto simp: l1_def)
  ultimately show ?thesis using that call l by blast
qed

text \<open>
  Allocating transmit space with \<open>flextcp_connection_tx_alloc2\<close>. The call gives as many bytes
  as asked for, or all the free space if that is less; the ranges returned are the places of the
  stream positions that follow those already allocated, in order and across the end of the buffer;
  and none of them is the place of a byte that is allocated or sent and not yet acknowledged.
\<close>

theorem tx_alloc2_free_space:
  fixes len
  assumes "tx_rel t conn" and "c_flags conn AND CONN_FLAG_TXEOS \<noteq> CONN_FLAG_TXEOS"
  defines "n \<equiv> min (unat len) (acked t + unat (txb_len conn) - alloc t)"
  shows "\<exists>l b1 l1 b2 conn'. flextcp_connection_tx_alloc2 len conn = Some (l, b1, l1, b2, conn') \<and>
    unat l = n \<and> tx_rel (t\<lparr>alloc := alloc t + n\<rparr>) conn' \<and>
    (\<forall>i<n. (if i < unat l1 then b1 + i else the b2 + (i - unat l1)) = tx_place conn (alloc t + i)) \<and>
    (\<forall>i<n. \<forall>p. acked t \<le> p \<and> p < alloc t \<longrightarrow> tx_place conn p \<noteq> tx_place conn (alloc t + i))"
proof (rule tx_alloc2_result [OF assms(1,2), of len, folded n_def])
  fix l b1 l1 b2
  assume r: "flextcp_connection_tx_alloc2 len conn =
       Some (l, b1, l1, b2, conn\<lparr>txb_allocated := txb_allocated conn + ucast l\<rparr>)" "unat l = n"
    "\<And>i. i < n \<Longrightarrow> (if i < unat l1 then b1 + i else the b2 + (i - unat l1)) = tx_place conn (alloc t + i)"
  have "tx_rel (t\<lparr>alloc := alloc t + n\<rparr>) (conn\<lparr>txb_allocated := txb_allocated conn + ucast l\<rparr>)"
    using tx_rel_alloc [OF assms(1), of l] r(2) by (simp add: n_def)
  moreover have "tx_place conn p \<noteq> tx_place conn (alloc t + i)" if "i < n" "acked t \<le> p" "p < alloc t" for i p
  proof
    assume "tx_place conn p = tx_place conn (alloc t + i)"
    moreover have "alloc t + i < p + unat (txb_len conn)" using that unfolding n_def by linarith
    ultimately show False using tx_place_inj [of conn p "alloc t + i"] that by simp
  qed
  ultimately show ?thesis using r
    by (intro exI [of _ l] exI [of _ b1] exI [of _ l1] exI [of _ b2] exI conjI) auto
qed

theorem tx_alloc2_free_space_witness:
  "\<exists>l b1 l1 b2 conn'. flextcp_connection_tx_alloc2 1000
       (connection_init\<lparr>txb_base := 0x1000, txb_len := 4096, txb_head := 4000, txb_sent := 500\<rparr>) =
       Some (l, b1, l1, b2, conn') \<and> unat l = 1000 \<and>
     tx_rel \<lparr>acked = 3500, posted = 4000, sent = 4000, alloc = 5000\<rparr> conn'"
proof -
  let ?c = "connection_init\<lparr>txb_base := 0x1000, txb_len := 4096, txb_head := 4000, txb_sent := 500\<rparr>"
  have "tx_rel \<lparr>acked = 3500, posted = 4000, sent = 4000, alloc = 4000\<rparr> ?c"
    by (simp add: tx_rel_def connection_init_def)
  moreover have "c_flags ?c AND CONN_FLAG_TXEOS \<noteq> CONN_FLAG_TXEOS"
    by (simp add: connection_init_def CONN_FLAG_TXEOS_def)
  ultimately show ?thesis
    using tx_alloc2_free_space [of "\<lparr>acked = 3500, posted = 4000, sent = 4000, alloc = 4000\<rparr>" ?c 1000]
    by (fastforce simp: connection_init_def)
qed

subsection \<open>Flags\<close>

lemma conn_flags_bit:
  "(f :: u8) AND CONN_FLAG_TXEOS = CONN_FLAG_TXEOS \<longleftrightarrow> bit f 0" "f AND CONN_FLAG_TXEOS = 0 \<longleftrightarrow> \<not> bit f 0"
  "f AND CONN_FLAG_TXEOS_ALLOC = CONN_FLAG_TXEOS_ALLOC \<longleftrightarrow> bit f 1" "f AND CONN_FLAG_TXEOS_ALLOC = 0 \<longleftrightarrow> \<not> bit f 1"
  "f AND CONN_FLAG_TXEOS_ACK = 0 \<longleftrightarrow> \<not> bit f 2"
  "bit (f OR CONN_FLAG_TXEOS) i \<longleftrightarrow> i = 0 \<or> bit f i"
  "bit (f OR CONN_FLAG_TXEOS_ALLOC) i \<longleftrightarrow> i = 1 \<or> bit f i"
  "bit (f OR CONN_FLAG_TXEOS_ACK) i \<longleftrightarrow> i = 2 \<or> bit f i"
proof -
  have c: "CONN_FLAG_TXEOS = 2 ^ 0" "CONN_FLAG_TXEOS_ALLOC = 2 ^ 1" "CONN_FLAG_TXEOS_ACK = 2 ^ 2"
    by (simp_all add: conn_flag_defs)
  have e: "(f AND 2 ^ n = 2 ^ n) = bit f n" if "n < 8" for n
    using that by (auto simp: bit_eq_iff [of "f AND 2 ^ n"] bit_and_iff bit_exp_iff)
  have o: "bit (f OR 2 ^ n) i \<longleftrightarrow> i = n \<or> bit f i" if "n < 8" for n
    using that by (auto simp: bit_or_iff bit_exp_iff)
  show "f AND CONN_FLAG_TXEOS = CONN_FLAG_TXEOS \<longleftrightarrow> bit f 0" "f AND CONN_FLAG_TXEOS = 0 \<longleftrightarrow> \<not> bit f 0"
    "f AND CONN_FLAG_TXEOS_ALLOC = CONN_FLAG_TXEOS_ALLOC \<longleftrightarrow> bit f 1" "f AND CONN_FLAG_TXEOS_ALLOC = 0 \<longleftrightarrow> \<not> bit f 1"
    "f AND CONN_FLAG_TXEOS_ACK = 0 \<longleftrightarrow> \<not> bit f 2"
    unfolding c and_exp_eq_0_iff_not_bit by (rule e refl; simp)+
  show "bit (f OR CONN_FLAG_TXEOS) i \<longleftrightarrow> i = 0 \<or> bit f i"
    "bit (f OR CONN_FLAG_TXEOS_ALLOC) i \<longleftrightarrow> i = 1 \<or> bit f i"
    "bit (f OR CONN_FLAG_TXEOS_ACK) i \<longleftrightarrow> i = 2 \<or> bit f i"
    unfolding c by (rule o; simp)+
qed

subsection \<open>The transmit side over any sequence of calls\<close>

text \<open>
  The calls of the application and of polling that concern the transmit buffer of connection \<open>c\<close>;
  posting may post updates of other connections too.
\<close>

datatype tx_op =
    Op_Alloc u64
  | Op_Alloc2 u64
  | Op_Send u64
  | Op_Close
  | Op_Update u32 u32 u32 nat
  | Op_Post

datatype tx_label =
    L_Alloc "addr list"
  | L_Send nat
  | L_Close
  | L_Update nat
  | L_Post "nat option"
  | L_Fail
  | L_Abort

text \<open>The addresses of the bytes an allocation returns.\<close>

definition range2 :: "u64 \<Rightarrow> addr \<Rightarrow> u64 \<Rightarrow> addr option \<Rightarrow> addr list" where
  "range2 l b1 l1 b2 = map (\<lambda>i. if i < unat l1 then b1 + i else the b2 + (i - unat l1)) [0..<unat l]"

fun tx_op_step :: "addr \<Rightarrow> tx_op \<Rightarrow> flextcp_context \<Rightarrow> tx_label \<times> flextcp_context" where
  "tx_op_step c (Op_Alloc len) ctx =
     (case flextcp_connection_tx_alloc len (conns ctx c) of
        None \<Rightarrow> (L_Fail, ctx)
      | Some (l, b, conn) \<Rightarrow> (L_Alloc (range2 l b l None), set_conn c conn ctx))"
| "tx_op_step c (Op_Alloc2 len) ctx =
     (case flextcp_connection_tx_alloc2 len (conns ctx c) of
        None \<Rightarrow> (L_Fail, ctx)
      | Some (l, b1, l1, b2, conn) \<Rightarrow> (L_Alloc (range2 l b1 l1 b2), set_conn c conn ctx))"
| "tx_op_step c (Op_Send len) ctx =
     (let (r, ctx') = flextcp_connection_tx_send c len ctx in (if r = 0 then L_Send (unat len) else L_Fail, ctx'))"
| "tx_op_step c Op_Close ctx =
     (case flextcp_connection_tx_close c ctx of
        Inl e \<Rightarrow> (L_Abort, ctx)
      | Inr (r, ctx') \<Rightarrow> (if r = 0 then L_Close else L_Fail, ctx'))"
| "tx_op_step c (Op_Update rx tx fl outn) ctx =
     (case event_arx_connupdate c rx tx fl outn ctx of
        Inl e \<Rightarrow> (L_Abort, ctx)
      | Inr (None, ctx') \<Rightarrow> (L_Fail, ctx')
      | Inr (Some evs, ctx') \<Rightarrow> (L_Update (unat tx), ctx'))"
| "tx_op_step c Op_Post ctx =
     (case conns_bump ctx of
        Inl e \<Rightarrow> (L_Abort, ctx)
      | Inr ctx' \<Rightarrow>
          (L_Post (if bump_pending (conns ctx c) \<and> \<not> bump_pending (conns ctx' c)
                   then Some (unat (txb_bump (conns ctx c))) else None), ctx'))"

text \<open>
  The environment: the NIC acknowledges no more than it was told to send, and a request for more
  than \<open>2 ^ 63\<close> bytes is not made.
\<close>

definition tx_op_ok :: "addr \<Rightarrow> tx_op \<Rightarrow> flextcp_context \<Rightarrow> bool" where
  "tx_op_ok c op ctx \<longleftrightarrow>
     (case op of
        Op_Update rx tx fl outn \<Rightarrow> unat tx + unat (txb_bump (conns ctx c)) \<le> unat (txb_sent (conns ctx c))
      | _ \<Rightarrow> True)"

text \<open>
  The abstract transmit stream, for a buffer of \<open>L\<close> bytes at \<open>base\<close>: what each label may do to the
  positions. The end of the stream takes a byte of its own, when it is queued at once or after an
  acknowledgement has made room for it.
\<close>

inductive tx_spec :: "addr \<Rightarrow> nat \<Rightarrow> tx_stream \<Rightarrow> tx_label \<Rightarrow> tx_stream \<Rightarrow> bool" for base L where
  alloc: "alloc t + n \<le> acked t + L \<Longrightarrow> ps = map (\<lambda>i. base + (alloc t + i) mod L) [0..<n] \<Longrightarrow>
     tx_spec base L t (L_Alloc ps) (t\<lparr>alloc := alloc t + n\<rparr>)"
| send: "sent t + n \<le> alloc t \<Longrightarrow> tx_spec base L t (L_Send n) (t\<lparr>sent := sent t + n\<rparr>)"
| close_wait: "tx_spec base L t L_Close t"
| close_eos: "alloc t = sent t \<Longrightarrow> sent t < acked t + L \<Longrightarrow>
     tx_spec base L t L_Close (t\<lparr>sent := Suc (sent t), alloc := Suc (sent t)\<rparr>)"
| ack: "acked t + n \<le> posted t \<Longrightarrow> tx_spec base L t (L_Update n) (t\<lparr>acked := acked t + n\<rparr>)"
| ack_eos: "acked t + n \<le> posted t \<Longrightarrow> 0 < n \<Longrightarrow> alloc t = sent t \<Longrightarrow>
     tx_spec base L t (L_Update n) (t\<lparr>acked := acked t + n, sent := Suc (sent t), alloc := Suc (sent t)\<rparr>)"
| post: "tx_spec base L t (L_Post (Some (sent t - posted t))) (t\<lparr>posted := sent t\<rparr>)"
| post_none: "tx_spec base L t (L_Post None) t"
| fail: "tx_spec base L t L_Fail t"

definition tx_state :: "addr \<Rightarrow> addr \<Rightarrow> nat \<Rightarrow> tx_stream \<Rightarrow> flextcp_context \<Rightarrow> bool" where
  "tx_state c base L t ctx \<longleftrightarrow>
     (let conn = conns ctx c
      in tx_rel t conn \<and> txb_base conn = base \<and> unat (txb_len conn) = L \<and> status conn = CONN_OPEN \<and>
         (bit (c_flags conn) 0 \<longrightarrow> alloc t = sent t) \<and> (bit (c_flags conn) 1 \<longrightarrow> bit (c_flags conn) 0) \<and>
         (bit (c_flags conn) 2 \<longrightarrow> acked t = sent t \<and> bit (c_flags conn) 1) \<and>
         (posted t < sent t \<longrightarrow> bump_pending conn) \<and>
         txq_tail ctx < txq_len ctx \<and>
         (\<exists>xs. bump_list ctx xs \<and> list_all (\<lambda>a. status (conns ctx a) = CONN_OPEN) xs))"

lemma tx_rel_more [simp]:
  "tx_rel t (conn\<lparr>bump_next := n\<rparr>) = tx_rel t conn" "tx_rel t (conn\<lparr>bump_prev := n\<rparr>) = tx_rel t conn"
  "tx_rel t (conn\<lparr>bump_pending := b\<rparr>) = tx_rel t conn" "tx_rel t (conn\<lparr>c_flags := f\<rparr>) = tx_rel t conn"
  "tx_rel t (conn\<lparr>rx_closed := r\<rparr>) = tx_rel t conn" "tx_rel t (conn\<lparr>rxb_head := h\<rparr>) = tx_rel t conn"
  "tx_rel t (conn\<lparr>rxb_used := u\<rparr>) = tx_rel t conn" "tx_rel t (conn\<lparr>seq_rx := q\<rparr>) = tx_rel t conn"
  by (simp_all add: tx_rel_def)

text \<open>Marking a connection changes only the links and the mark.\<close>

lemma mark_bump_conn:
  obtains n p b where "conns (conn_mark_bump d ctx) a = (conns ctx a)\<lparr>bump_next := n, bump_prev := p, bump_pending := b\<rparr>"
    "b \<longleftrightarrow> bump_pending (conns ctx a) \<or> a = d"
proof -
  have "\<exists>n p b. conns (conn_mark_bump d ctx) a = (conns ctx a)\<lparr>bump_next := n, bump_prev := p, bump_pending := b\<rparr> \<and>
      (b \<longleftrightarrow> bump_pending (conns ctx a) \<or> a = d)"
  proof (cases "bump_pending (conns ctx d)")
    case True
    then have "conns (conn_mark_bump d ctx) a = (conns ctx a)\<lparr>bump_next := bump_next (conns ctx a),
        bump_prev := bump_prev (conns ctx a), bump_pending := bump_pending (conns ctx a)\<rparr>"
      by (simp add: conn_mark_bump_def)
    then show ?thesis using True by blast
  next
    case False
    let ?c = "conns (conn_mark_bump d ctx) a"
    have "?c = (conns ctx a)\<lparr>bump_next := bump_next ?c, bump_prev := bump_prev ?c, bump_pending := bump_pending ?c\<rparr>"
      "bump_pending ?c \<longleftrightarrow> bump_pending (conns ctx a) \<or> a = d"
      using False by (auto simp: conn_mark_bump_def Let_def split: option.split)
    then show ?thesis by blast
  qed
  then show ?thesis using that by blast
qed

lemma mark_bump_queue [simp]:
  "txq_tail (conn_mark_bump d ctx) = txq_tail ctx" "txq_len (conn_mark_bump d ctx) = txq_len ctx"
  by (simp_all add: conn_mark_bump_def Let_def split: option.split)

text \<open>Replacing the buffer state of a connection keeps the list when it keeps the links.\<close>

lemma bump_list_set_conn:
  assumes "bump_next v = bump_next (conns ctx c)" and "bump_pending v = bump_pending (conns ctx c)"
  shows "bump_list (set_conn c v ctx) xs = bump_list ctx xs"
proof -
  have "(\<lambda>a. bump_next (conns (set_conn c v ctx) a)) = (\<lambda>a. bump_next (conns ctx a))"
    "(\<lambda>a. bump_pending (conns (set_conn c v ctx) a)) = (\<lambda>a. bump_pending (conns ctx a))"
    using assms by auto
  then show ?thesis by (simp add: bump_list_def fun_eq_iff)
qed

text \<open>The list and the queue, apart from the connection's own state.\<close>

definition list_ok :: "flextcp_context \<Rightarrow> bool" where
  "list_ok ctx \<longleftrightarrow> txq_tail ctx < txq_len ctx \<and>
     (\<exists>xs. bump_list ctx xs \<and> list_all (\<lambda>a. status (conns ctx a) = CONN_OPEN) xs)"

lemma list_ok_set_conn:
  assumes "list_ok ctx" and "bump_next v = bump_next (conns ctx c)" "bump_pending v = bump_pending (conns ctx c)"
    and "status v = status (conns ctx c)"
  shows "list_ok (set_conn c v ctx)"
  using assms by (auto simp: list_ok_def bump_list_set_conn list_all_iff)

lemma list_ok_mark:
  assumes "list_ok ctx" and "status (conns ctx c) = CONN_OPEN"
  shows "list_ok (conn_mark_bump c ctx)"
proof -
  from assms(1) obtain xs where xs: "bump_list ctx xs" "list_all (\<lambda>a. status (conns ctx a) = CONN_OPEN) xs"
    by (auto simp: list_ok_def)
  have st: "status (conns (conn_mark_bump c ctx) a) = status (conns ctx a)" for a
    by (rule mark_bump_conn [of c ctx a]) simp
  have "list_all (\<lambda>a. status (conns (conn_mark_bump c ctx) a) = CONN_OPEN) (if c \<in> set xs then xs else xs @ [c])"
    using xs(2) assms(2) by (auto simp: st list_all_iff)
  then show ?thesis using assms(1) mark_bump_list [OF xs(1), of c] by (auto simp: list_ok_def)
qed

definition conn_ok :: "addr \<Rightarrow> nat \<Rightarrow> tx_stream \<Rightarrow> flextcp_connection \<Rightarrow> bool" where
  "conn_ok base L t conn \<longleftrightarrow>
     tx_rel t conn \<and> txb_base conn = base \<and> unat (txb_len conn) = L \<and> status conn = CONN_OPEN \<and>
     (bit (c_flags conn) 0 \<longrightarrow> alloc t = sent t) \<and> (bit (c_flags conn) 1 \<longrightarrow> bit (c_flags conn) 0) \<and>
     (bit (c_flags conn) 2 \<longrightarrow> acked t = sent t \<and> bit (c_flags conn) 1)"

lemma tx_state_iff:
  "tx_state c base L t ctx \<longleftrightarrow> conn_ok base L t (conns ctx c) \<and> list_ok ctx \<and>
     (posted t < sent t \<longrightarrow> bump_pending (conns ctx c))"
  by (auto simp: tx_state_def conn_ok_def list_ok_def Let_def)

lemma conn_ok_more [simp]:
  "conn_ok base L t (conn\<lparr>bump_next := n\<rparr>) = conn_ok base L t conn"
  "conn_ok base L t (conn\<lparr>bump_prev := n\<rparr>) = conn_ok base L t conn"
  "conn_ok base L t (conn\<lparr>bump_pending := b\<rparr>) = conn_ok base L t conn"
  "conn_ok base L t (conn\<lparr>rx_closed := r\<rparr>) = conn_ok base L t conn"
  "conn_ok base L t (conn\<lparr>rxb_head := h\<rparr>) = conn_ok base L t conn"
  "conn_ok base L t (conn\<lparr>rxb_used := u\<rparr>) = conn_ok base L t conn"
  "conn_ok base L t (conn\<lparr>seq_rx := q\<rparr>) = conn_ok base L t conn"
  by (simp_all add: conn_ok_def)

text \<open>An operation that replaces the buffer state and marks the connection.\<close>

lemma tx_state_mark:
  assumes "tx_state c base L t ctx" and "conn_ok base L t' v"
    and "bump_next v = bump_next (conns ctx c)" "bump_pending v = bump_pending (conns ctx c)"
  shows "tx_state c base L t' (conn_mark_bump c (set_conn c v ctx))"
proof -
  have l: "list_ok (conn_mark_bump c (set_conn c v ctx))"
    using assms by (intro list_ok_mark list_ok_set_conn) (auto simp: tx_state_iff conn_ok_def)
  have "conns (set_conn c v ctx) c = v" by simp
  with mark_bump_conn [of c "set_conn c v ctx" c] obtain n p where
    "conns (conn_mark_bump c (set_conn c v ctx)) c = v\<lparr>bump_next := n, bump_prev := p, bump_pending := True\<rparr>"
    by metis
  with l assms(2) show ?thesis by (simp add: tx_state_iff)
qed

lemma tx_state_set:
  assumes "tx_state c base L t ctx" and "conn_ok base L t' v"
    and "bump_next v = bump_next (conns ctx c)" "bump_pending v = bump_pending (conns ctx c)"
    and "posted t' < sent t' \<longrightarrow> posted t < sent t"
  shows "tx_state c base L t' (set_conn c v ctx)"
proof -
  have "list_ok (set_conn c v ctx)"
    using assms by (intro list_ok_set_conn) (auto simp: tx_state_iff conn_ok_def)
  with assms show ?thesis by (auto simp: tx_state_iff)
qed

lemma tx_alloc_alloc2:
  "flextcp_connection_tx_alloc len conn =
     (case flextcp_connection_tx_alloc2 len conn of
        None \<Rightarrow> None
      | Some (l, b1, l1, b2, _) \<Rightarrow> Some (l1, b1, conn\<lparr>txb_allocated := txb_allocated conn + ucast l1\<rparr>))"
  by (simp add: flextcp_connection_tx_alloc_def flextcp_connection_tx_alloc2_def Let_def)

lemma tx_alloc_None:
  "bit (c_flags conn) 0 \<Longrightarrow> flextcp_connection_tx_alloc2 len conn = None"
  by (simp add: flextcp_connection_tx_alloc2_def conn_flags_bit)

lemma conn_ok_alloc:
  assumes "conn_ok base L t conn" and "\<not> bit (c_flags conn) 0" and "unat (m :: u64) \<le> acked t + L - alloc t"
  shows "conn_ok base L (t\<lparr>alloc := alloc t + unat m\<rparr>) (conn\<lparr>txb_allocated := txb_allocated conn + ucast m\<rparr>)"
  using assms tx_rel_alloc [of t conn m] by (auto simp: conn_ok_def)

lemma sim_alloc:
  assumes "tx_state c base L t ctx" and op: "op \<in> {Op_Alloc len, Op_Alloc2 len}"
  shows "\<exists>t'. tx_spec base L t (fst (tx_op_step c op ctx)) t' \<and> tx_state c base L t' (snd (tx_op_step c op ctx))"
proof -
  let ?conn = "conns ctx c"
  have ok: "conn_ok base L t ?conn" using assms(1) by (simp add: tx_state_iff)
  show ?thesis
  proof (cases "bit (c_flags ?conn) 0")
    case True
    then have "tx_op_step c op ctx = (L_Fail, ctx)"
      using op by (auto simp: tx_alloc_None tx_alloc_alloc2)
    then show ?thesis using assms(1) by (auto intro: tx_spec.fail)
  next
    case False
    have tr: "tx_rel t ?conn" "c_flags ?conn AND CONN_FLAG_TXEOS \<noteq> CONN_FLAG_TXEOS" "unat (txb_len ?conn) = L" "txb_base ?conn = base"
      using ok False by (auto simp: conn_ok_def conn_flags_bit)
    let ?n = "min (unat len) (acked t + L - alloc t)"
    obtain l b1 l1 b2 where a: "flextcp_connection_tx_alloc2 len ?conn =
       Some (l, b1, l1, b2, ?conn\<lparr>txb_allocated := txb_allocated ?conn + ucast l\<rparr>)" "unat l = ?n" "unat l1 \<le> ?n"
      "\<And>i. i < ?n \<Longrightarrow> (if i < unat l1 then b1 + i else the b2 + (i - unat l1)) = tx_place ?conn (alloc t + i)"
      using tx_alloc2_result [OF tr(1,2), of len] unfolding tr(3) by blast
    have fin: "\<exists>t'. tx_spec base L t (L_Alloc (map (\<lambda>i. tx_place ?conn (alloc t + i)) [0..<unat m])) t' \<and>
        tx_state c base L t' (set_conn c (?conn\<lparr>txb_allocated := txb_allocated ?conn + ucast m\<rparr>) ctx)"
      if m: "unat (m :: u64) \<le> ?n" for m
    proof (intro exI conjI)
      show "tx_spec base L t (L_Alloc (map (\<lambda>i. tx_place ?conn (alloc t + i)) [0..<unat m])) (t\<lparr>alloc := alloc t + unat m\<rparr>)"
        using m tr(3,4) tr(1) by (intro tx_spec.alloc) (auto simp: tx_place_def tx_rel_def)
      show "tx_state c base L (t\<lparr>alloc := alloc t + unat m\<rparr>)
          (set_conn c (?conn\<lparr>txb_allocated := txb_allocated ?conn + ucast m\<rparr>) ctx)"
        using conn_ok_alloc [OF ok False, of m] m by (intro tx_state_set [OF assms(1)]) auto
    qed
    have r2: "range2 l b1 l1 b2 = map (\<lambda>i. tx_place ?conn (alloc t + i)) [0..<unat l]"
      using a(2,4) by (simp add: range2_def)
    have r1: "range2 l1 b1 l1 None = map (\<lambda>i. tx_place ?conn (alloc t + i)) [0..<unat l1]"
      unfolding range2_def
    proof (rule map_cong [OF refl])
      fix x assume "x \<in> set [0..<unat l1]"
      then show "(if x < unat l1 then b1 + x else the None + (x - unat l1)) = tx_place ?conn (alloc t + x)"
        using a(3) a(4) [of x] by simp
    qed
    show ?thesis using op fin [of l] fin [of l1] a(2,3)
      by (auto simp: a(1) tx_alloc_alloc2 r1 r2)
  qed
qed

lemma tx_rel_send:
  fixes m :: u32
  assumes "tx_rel t conn" and "unat m \<le> alloc t - sent t"
  shows "tx_rel (t\<lparr>sent := sent t + unat m\<rparr>)
    (conn\<lparr>txb_allocated := txb_allocated conn - m, txb_sent := txb_sent conn + m,
          txb_head := (if txb_len conn \<le> txb_head conn + m then txb_head conn + m - txb_len conn else txb_head conn + m),
          txb_bump := txb_bump conn + m\<rparr>)"
proof -
  note r = assms(1) [unfolded tx_rel_def]
  have m: "unat m \<le> unat (txb_len conn)" using assms(2) r by linarith
  have 1: "unat (txb_allocated conn - m) = unat (txb_allocated conn) - unat m"
    using assms(2) r by (intro unat_sub) (simp add: word_nat)
  have 2: "unat (txb_sent conn + m) = unat (txb_sent conn) + unat m"
    using assms(2) r by (intro unat_add_le [of _ _ "txb_len conn"]) auto
  have 3: "unat (txb_bump conn + m) = unat (txb_bump conn) + unat m"
    using assms(2) r by (intro unat_add_le [of _ _ "txb_len conn"]) auto
  have 4: "unat (if txb_len conn \<le> txb_head conn + m then txb_head conn + m - txb_len conn else txb_head conn + m) =
      (sent t + unat m) mod unat (txb_len conn)"
    using r m by (intro advance_pos) auto
  show ?thesis using r assms(2) by (auto simp: tx_rel_def 1 2 3 4)
qed

lemma sim_send:
  assumes "tx_state c base L t ctx"
  shows "\<exists>t'. tx_spec base L t (fst (tx_op_step c (Op_Send len) ctx)) t' \<and>
    tx_state c base L t' (snd (tx_op_step c (Op_Send len) ctx))"
proof (cases "ucast (conn_tx_sendbytes (conns ctx c)) < len")
  case True
  then have "tx_op_step c (Op_Send len) ctx = (L_Fail, ctx)" by (simp add: flextcp_connection_tx_send_def Let_def)
  then show ?thesis using assms by (auto intro: tx_spec.fail)
next
  case False
  let ?conn = "conns ctx c" and ?m = "ucast len :: u32"
  have ok: "conn_ok base L t ?conn" using assms by (simp add: tx_state_iff)
  then have r: "tx_rel t ?conn" by (simp add: conn_ok_def)
  have n: "unat len \<le> alloc t - sent t"
    using False r by (simp add: conn_tx_sendbytes_def word_nat tx_rel_def)
  then have "unat len \<le> unat (txb_len ?conn)" using r [unfolded tx_rel_def] by linarith
  then have m: "unat ?m = unat len"
    using le_less_trans [OF _ unat_u32_less [of "txb_len ?conn"]] by (intro unat_ucast_64_32) simp
  have nh: "(ucast (ucast (txb_head ?conn) + len :: u64) :: u32) = txb_head ?conn + ?m"
    by (simp add: word_unat_eq_iff unsigned_ucast_eq unat_word_ariths take_bit_eq_mod mod_simps mod_mod_cancel)
  let ?v = "?conn\<lparr>txb_allocated := txb_allocated ?conn - ?m, txb_sent := txb_sent ?conn + ?m,
      txb_head := (if txb_len ?conn \<le> txb_head ?conn + ?m then txb_head ?conn + ?m - txb_len ?conn else txb_head ?conn + ?m),
      txb_bump := txb_bump ?conn + ?m\<rparr>"
  let ?t = "t\<lparr>sent := sent t + unat len\<rparr>"
  have step: "tx_op_step c (Op_Send len) ctx = (L_Send (unat len), conn_mark_bump c (set_conn c ?v ctx))"
    using False by (simp add: flextcp_connection_tx_send_def Let_def nh)
  have "conn_ok base L ?t ?v"
    using ok tx_rel_send [OF r, of ?m] n m by (auto simp: conn_ok_def tx_rel_def)
  then have "tx_state c base L ?t (conn_mark_bump c (set_conn c ?v ctx))"
    by (intro tx_state_mark [OF assms]) auto
  moreover have "tx_spec base L t (L_Send (unat len)) ?t" using n r by (intro tx_spec.send) (auto simp: tx_rel_def)
  ultimately show ?thesis unfolding step by auto
qed

text \<open>Queueing the end of the stream.\<close>

lemma pushtxeos_cases:
  assumes "tx_state c base L t ctx" and "bit (c_flags (conns ctx c)) 0"
  obtains (full) "flextcp_conn_pushtxeos c ctx = Inr (-1, ctx)" "acked t + L = sent t"
    | (eos) ctx' where "flextcp_conn_pushtxeos c ctx = Inr (0, ctx')" "sent t < acked t + L" "alloc t = sent t"
        "\<not> bit (c_flags (conns ctx c)) 2 \<Longrightarrow> tx_state c base L (t\<lparr>sent := Suc (sent t), alloc := Suc (sent t)\<rparr>) ctx'"
proof -
  let ?conn = "conns ctx c"
  have ok: "conn_ok base L t ?conn" using assms(1) by (simp add: tx_state_iff)
  then have r: "tx_rel t ?conn" and L: "unat (txb_len ?conn) = L" and eq: "alloc t = sent t"
    using assms(2) by (auto simp: conn_ok_def)
  have z: "conn_tx_sendbytes ?conn = 0" using r eq by (simp add: conn_tx_sendbytes_def tx_rel_def unat_eq_0)
  note free = tx_rel_facts(1) [OF r, unfolded L]
  show ?thesis
  proof (cases "conn_tx_allocbytes ?conn = 0")
    case True
    then have "flextcp_conn_pushtxeos c ctx = Inr (-1, ctx)"
      using z assms(2) by (simp add: flextcp_conn_pushtxeos_def conn_flags_bit Let_def)
    moreover have "acked t + L = sent t"
      using True free eq r by (simp add: unat_eq_0 [symmetric] tx_rel_def L)
    ultimately show ?thesis by (rule full)
  next
    case False
    then have pos: "sent t < acked t + L" using free eq by (simp add: unat_eq_0 [symmetric])
    let ?v = "?conn\<lparr>txb_sent := txb_sent ?conn + 1,
        txb_head := (if txb_len ?conn \<le> txb_head ?conn + 1 then txb_head ?conn + 1 - txb_len ?conn else txb_head ?conn + 1),
        c_flags := c_flags ?conn OR CONN_FLAG_TXEOS_ALLOC, txb_bump := txb_bump ?conn + 1\<rparr>"
    let ?t = "t\<lparr>sent := Suc (sent t), alloc := Suc (sent t)\<rparr>"
    have call: "flextcp_conn_pushtxeos c ctx = Inr (0, conn_mark_bump c (set_conn c ?v ctx))"
      using z False assms(2) by (simp add: flextcp_conn_pushtxeos_def conn_flags_bit Let_def)
    have "tx_rel (t\<lparr>alloc := Suc (sent t)\<rparr>) (?conn\<lparr>txb_allocated := 1\<rparr>)"
      using r eq pos L by (auto simp: tx_rel_def)
    from tx_rel_send [OF this, of 1]
    have rel: "tx_rel ?t ?v" using r eq by (auto simp: tx_rel_def split: if_splits)
    have "conn_ok base L ?t ?v" if "\<not> bit (c_flags ?conn) 2"
      using rel ok that assms(2) by (simp add: conn_ok_def conn_flags_bit)
    then have "tx_state c base L ?t (conn_mark_bump c (set_conn c ?v ctx))" if "\<not> bit (c_flags ?conn) 2"
      using that by (intro tx_state_mark [OF assms(1)]) auto
    then show ?thesis using eos [OF call pos eq] by blast
  qed
qed

lemma sim_close:
  assumes "tx_state c base L t ctx"
  shows "\<exists>t'. tx_spec base L t (fst (tx_op_step c Op_Close ctx)) t' \<and> tx_state c base L t' (snd (tx_op_step c Op_Close ctx))"
proof (cases "0 < conn_tx_sendbytes (conns ctx c) \<or> bit (c_flags (conns ctx c)) 0")
  case True
  then have "tx_op_step c Op_Close ctx = (L_Fail, ctx)"
    by (auto simp: flextcp_connection_tx_close_def Let_def conn_flags_bit)
  then show ?thesis using assms by (auto intro: tx_spec.fail)
next
  case False
  let ?v = "(conns ctx c)\<lparr>c_flags := c_flags (conns ctx c) OR CONN_FLAG_TXEOS\<rparr>"
  let ?ctx = "set_conn c ?v ctx"
  have ok: "conn_ok base L t (conns ctx c)" using assms by (simp add: tx_state_iff)
  have "conn_tx_sendbytes (conns ctx c) = 0" using False by (simp add: word_nat unat_eq_0)
  then have "alloc t = sent t" using ok by (simp add: conn_ok_def tx_rel_def conn_tx_sendbytes_def)
  then have "conn_ok base L t ?v" using ok False by (auto simp: conn_ok_def conn_flags_bit)
  then have st: "tx_state c base L t ?ctx" by (intro tx_state_set [OF assms]) auto
  have b: "bit (c_flags (conns ?ctx c)) 0" "\<not> bit (c_flags (conns ?ctx c)) 2"
    using ok False by (auto simp: conn_flags_bit conn_ok_def)
  have step: "tx_op_step c Op_Close ctx = (case flextcp_conn_pushtxeos c ?ctx of
      Inl e \<Rightarrow> (L_Abort, ctx) | Inr (_, ctx1) \<Rightarrow> (L_Close, ctx1))"
    using False by (simp add: flextcp_connection_tx_close_def Let_def conn_flags_bit split: sum.split)
  from st b(1) show ?thesis
  proof (cases rule: pushtxeos_cases)
    case full
    then show ?thesis unfolding step using st by (auto intro: tx_spec.close_wait)
  next
    case (eos ctx')
    then show ?thesis unfolding step using b(2) by (auto intro: tx_spec.close_eos)
  qed
qed

lemma tx_rel_ack:
  assumes "tx_rel t conn" and "unat tx + unat (txb_bump conn) \<le> unat (txb_sent conn)"
  shows "tx_rel (t\<lparr>acked := acked t + unat tx\<rparr>) (conn\<lparr>txb_sent := txb_sent conn - tx\<rparr>)"
    "acked t + unat tx \<le> posted t"
proof -
  note r = assms(1) [unfolded tx_rel_def]
  show p: "acked t + unat tx \<le> posted t" using r assms(2) by linarith
  have "unat (txb_sent conn - tx) = unat (txb_sent conn) - unat tx"
    using assms(2) by (intro unat_sub) (simp add: word_nat)
  then show "tx_rel (t\<lparr>acked := acked t + unat tx\<rparr>) (conn\<lparr>txb_sent := txb_sent conn - tx\<rparr>)"
    using r p by (auto simp: tx_rel_def)
qed

lemma sim_update_tx:
  assumes st: "tx_state c base L t ctx" and tx: "unat tx + unat (txb_bump (conns ctx c)) \<le> unat (txb_sent (conns ctx c))"
  shows "\<exists>evs ctx' t'. update_tx c tx ev ctx = Inr (evs, ctx') \<and> tx_spec base L t (L_Update (unat tx)) t' \<and>
    tx_state c base L t' ctx'"
proof (cases "tx = 0")
  case True
  then show ?thesis using st tx_spec.ack [of t 0 base L] by (auto simp: update_tx_def tx_state_iff conn_ok_def tx_rel_def)
next
  case False
  then have pos: "0 < tx" "0 < unat tx" by (simp_all add: word_neq_0_conv unat_gt_0)
  let ?conn = "conns ctx c" and ?t = "t\<lparr>acked := acked t + unat tx\<rparr>"
  let ?v = "?conn\<lparr>txb_sent := txb_sent ?conn - tx\<rparr>" and ?evs = "if ev then [FLEXTCP_EV_CONN_SENDBUF c] else []"
  let ?ctx = "set_conn c ?v ctx"
  have ok: "conn_ok base L t ?conn" using st by (simp add: tx_state_iff)
  then have rt: "tx_rel t ?conn" by (simp add: conn_ok_def)
  note r = tx_rel_ack [OF rt tx]
  have b2: "\<not> bit (c_flags ?conn) 2" using ok r(2) pos rt by (auto simp: conn_ok_def tx_rel_def)
  then have "conn_ok base L ?t ?v" using ok r(1) by (simp add: conn_ok_def)
  then have st1: "tx_state c base L ?t ?ctx" by (intro tx_state_set [OF st]) auto
  note ack = tx_spec.ack [OF r(2), of base L]
  show ?thesis
  proof (cases "bit (c_flags ?conn) 0 \<and> \<not> bit (c_flags ?conn) 1")
    case True
    then have b0: "bit (c_flags (conns ?ctx c)) 0" by simp
    have u: "update_tx c tx ev ctx = (case flextcp_conn_pushtxeos c ?ctx of
        Inl e \<Rightarrow> Inl e | Inr (q, ctx1) \<Rightarrow> if q \<noteq> 0 then Inl Txeos_Failed else Inr (?evs, ctx1))"
      using True pos by (simp add: update_tx_def Let_def conn_flags_bit)
    from st1 b0 show ?thesis
    proof (cases rule: pushtxeos_cases)
      case full
      then show ?thesis using rt ok pos by (auto simp: tx_rel_def conn_ok_def)
    next
      case (eos ctx')
      then show ?thesis using b2 u tx_spec.ack_eos [OF r(2) pos(2), of base L] by auto
    qed
  next
    case False
    show ?thesis
    proof (cases "bit (c_flags ?conn) 1 \<and> txb_sent ?conn - tx = 0")
      case True
      let ?w = "?v\<lparr>c_flags := c_flags ?conn OR CONN_FLAG_TXEOS_ACK\<rparr>"
      have u: "update_tx c tx ev ctx = Inr (?evs @ [FLEXTCP_EV_CONN_TXCLOSED c], set_conn c ?w ?ctx)"
        using True False pos b2 by (simp add: update_tx_def Let_def conn_flags_bit)
      have "acked t + unat tx = sent t" using r(1) True by (simp add: tx_rel_def)
      then have "conn_ok base L ?t ?w" using \<open>conn_ok base L ?t ?v\<close> True by (auto simp: conn_ok_def conn_flags_bit)
      then have "tx_state c base L ?t (set_conn c ?w ?ctx)" by (intro tx_state_set [OF st1]) auto
      then show ?thesis using u ack by blast
    next
      case nt: False
      then have "update_tx c tx ev ctx = Inr (?evs, ?ctx)"
        using False pos b2 by (auto simp: update_tx_def Let_def conn_flags_bit)
      then show ?thesis using st1 ack by blast
    qed
  qed
qed

lemma sim_update:
  assumes st: "tx_state c base L t ctx" and ok: "tx_op_ok c (Op_Update rx tx fl outn) ctx"
  shows "\<exists>t'. tx_spec base L t (fst (tx_op_step c (Op_Update rx tx fl outn) ctx)) t' \<and>
    tx_state c base L t' (snd (tx_op_step c (Op_Update rx tx fl outn) ctx))"
proof -
  let ?conn = "conns ctx c"
  define eos where "eos = (fl AND ARX_FLRXDONE = ARX_FLRXDONE)"
  have cok: "conn_ok base L t ?conn" using st by (simp add: tx_state_iff)
  then have open_st: "status ?conn = CONN_OPEN" by (simp add: conn_ok_def)
  show ?thesis
  proof (cases "outn < evs_needed rx tx eos ?conn")
    case True
    then have "tx_op_step c (Op_Update rx tx fl outn) ctx = (L_Fail, ctx)"
      using open_st by (simp add: event_arx_connupdate_def Let_def eos_def)
    then show ?thesis using st by (auto intro: tx_spec.fail)
  next
    case False
    obtain evs1 conn1 where rxu: "update_rx c rx ?conn = (evs1, conn1)" by fastforce
    have c1: "conn_ok base L t conn1" "bump_next conn1 = bump_next ?conn" "bump_pending conn1 = bump_pending ?conn"
      "txb_sent conn1 = txb_sent ?conn" "txb_bump conn1 = txb_bump ?conn"
      using rxu cok by (auto simp: update_rx_def Let_def split: if_splits)
    let ?ctx1 = "set_conn c conn1 ctx"
    have st1: "tx_state c base L t ?ctx1" using c1 by (intro tx_state_set [OF st]) auto
    have tx1: "unat tx + unat (txb_bump (conns ?ctx1 c)) \<le> unat (txb_sent (conns ?ctx1 c))"
      using ok c1 by (simp add: tx_op_ok_def)
    obtain evs2 ctx2 t' where u: "update_tx c tx (0 < tx \<and> flextcp_conn_txbuf_available ?conn = 0) ?ctx1 = Inr (evs2, ctx2)"
      "tx_spec base L t (L_Update (unat tx)) t'" "tx_state c base L t' ctx2"
      using sim_update_tx [OF st1 tx1, of "0 < tx \<and> flextcp_conn_txbuf_available ?conn = 0"] by blast
    have "tx_state c base L t' (set_conn c ((conns ctx2 c)\<lparr>rx_closed := True\<rparr>) ctx2)"
      using u(3) by (intro tx_state_set [OF u(3)]) (auto simp: tx_state_iff)
    moreover have "tx_op_step c (Op_Update rx tx fl outn) ctx =
        (L_Update (unat tx), if eos then set_conn c ((conns ctx2 c)\<lparr>rx_closed := True\<rparr>) ctx2 else ctx2)"
      using False open_st u(1) rxu by (simp add: event_arx_connupdate_def Let_def eos_def)
    ultimately show ?thesis using u(2,3) by auto
  qed
qed

lemma sim_post:
  assumes st: "tx_state c base L t ctx"
  shows "\<exists>t'. tx_spec base L t (fst (tx_op_step c Op_Post ctx)) t' \<and> tx_state c base L t' (snd (tx_op_step c Op_Post ctx))"
proof -
  from st obtain xs where xs: "bump_list ctx xs" "list_all (\<lambda>a. status (conns ctx a) = CONN_OPEN) xs" "txq_tail ctx < txq_len ctx"
    by (auto simp: tx_state_iff list_ok_def)
  let ?k = "min (unat (txq_avail ctx)) (length xs)"
  obtain ctx' where b: "bump_loop 0 ctx = Inr (?k, ctx')" "bump_list ctx' (drop ?k xs)"
    "conns ctx' = (\<lambda>a. if a \<in> set (take ?k xs) then bumped (conns ctx a) else conns ctx a)"
    "unat (txq_tail ctx') = (unat (txq_tail ctx) + ?k) mod unat (txq_len ctx)" "txq_len ctx' = txq_len ctx"
    using bump_loop_list [OF xs, of 0] by auto
  define ctx2 where "ctx2 = (if 0 < ?k then flextcp_context_tx_done ctx' else ctx')"
  have c2: "conns_bump ctx = Inr ctx2" "conns ctx2 = conns ctx'" "bump_list ctx2 ys = bump_list ctx' ys" for ys
    using b(1) by (auto simp: conns_bump_def ctx2_def flextcp_context_tx_done_def)
  have "0 < unat (txq_len ctx)" using xs(3) by (simp add: word_nat)
  then have "txq_tail ctx2 < txq_len ctx2"
    using b(4,5) by (simp add: ctx2_def flextcp_context_tx_done_def word_nat)
  moreover have "list_all (\<lambda>a. status (conns ctx2 a) = CONN_OPEN) (drop ?k xs)"
    using xs(2) by (auto simp: c2 b(3) bumped_def list_all_iff dest: in_set_dropD)
  ultimately have l: "list_ok ctx2" using b(2) c2(3) by (auto simp: list_ok_def)
  have ok: "conn_ok base L t (conns ctx c)" "posted t < sent t \<longrightarrow> bump_pending (conns ctx c)"
    using st by (auto simp: tx_state_iff)
  have pend: "bump_pending (conns ctx c) \<longleftrightarrow> c \<in> set xs" using xs(1) by (simp add: bump_list_def)
  show ?thesis
  proof (cases "c \<in> set (take ?k xs)")
    case True
    have "conn_ok base L (t\<lparr>posted := sent t\<rparr>) (bumped (conns ctx c))"
      using ok(1) by (auto simp: conn_ok_def tx_rel_def bumped_def)
    moreover have "unat (txb_bump (conns ctx c)) = sent t - posted t" using ok(1) by (simp add: conn_ok_def tx_rel_def)
    moreover have "c \<in> set xs" using True by (rule in_set_takeD)
    moreover have "\<not> bump_pending (bumped (conns ctx c))" by (simp add: bumped_def)
    ultimately show ?thesis using True l pend tx_spec.post [of base L t]
      by (auto simp: c2 b(3) tx_state_iff)
  next
    case False
    then show ?thesis using ok l tx_spec.post_none [of base L t] by (auto simp: c2 b(3) tx_state_iff)
  qed
qed

text \<open>
  The calls implement the abstract stream: the contract of a simulation, for a connection \<open>c\<close> whose
  buffer of \<open>L\<close> bytes is at \<open>base\<close>.
\<close>

interpretation lib_tx: simulation "\<lambda>op ctx. snd (tx_op_step c op ctx)" "tx_op_ok c"
  "\<lambda>op ctx. fst (tx_op_step c op ctx)" "tx_spec base L" "tx_state c base L" for c base L
proof
  fix t ctx op
  assume st: "tx_state c base L t ctx" and ok: "tx_op_ok c op ctx"
  show "\<exists>t'. tx_spec base L t (fst (tx_op_step c op ctx)) t' \<and> tx_state c base L t' (snd (tx_op_step c op ctx))"
  proof (cases op)
    case (Op_Alloc len)
    then show ?thesis using sim_alloc [OF st, of op len] by simp
  next
    case (Op_Alloc2 len)
    then show ?thesis using sim_alloc [OF st, of op len] by simp
  next
    case (Op_Send len)
    then show ?thesis using sim_send [OF st] by simp
  next
    case Op_Close
    then show ?thesis using sim_close [OF st] by simp
  next
    case (Op_Update rx tx fl outn)
    then show ?thesis using sim_update [OF st] ok by simp
  next
    case Op_Post
    then show ?thesis using sim_post [OF st] by simp
  qed
qed

text \<open>
  C27. The transmit side of the library over any sequence of calls: allocations, sends, closing,
  updates from the NIC and posting of updates to it, with any arguments, as long as the NIC
  acknowledges no more than it was told to send. The labels of the calls, with the addresses
  returned and the byte counts posted, are a run of the abstract stream; in particular no call
  aborts. At the end the connection's fields are those of the stream's positions, with
  \<open>acked \<le> posted \<le> sent \<le> alloc \<le> acked + L\<close>, and whenever bytes sent are not yet posted the
  connection is in the list of pending updates.
\<close>

theorem lib_tx_refines:
  assumes "tx_state c base L t ctx" and "run_ok (\<lambda>op ctx. snd (tx_op_step c op ctx)) (tx_op_ok c) ops ctx"
  shows "\<exists>t'. steps (tx_spec base L) t
      (run_obs (\<lambda>op ctx. snd (tx_op_step c op ctx)) (\<lambda>op ctx. fst (tx_op_step c op ctx)) ops ctx) t' \<and>
    tx_state c base L t' (run (\<lambda>op ctx. snd (tx_op_step c op ctx)) ops ctx)"
  by (rule lib_tx.run_sim [OF assms])

text \<open>A connection that sends 3000 of 4096 bytes, posts, and gets 1000 of them acknowledged.\<close>

definition fresh_conn :: flextcp_context where
  "fresh_conn = two_conns\<lparr>bump_pending_first := None, bump_pending_last := None,
     conns := \<lambda>a. connection_init\<lparr>status := CONN_OPEN, txb_base := 0x1000, txb_len := 4096\<rparr>\<rparr>"

lemma fresh_conn_state: "tx_state 1 0x1000 4096 \<lparr>acked = 0, posted = 0, sent = 0, alloc = 0\<rparr> fresh_conn"
proof -
  have "bump_list fresh_conn []" by (simp add: bump_list_def fresh_conn_def last_opt_def connection_init_def)
  then show ?thesis
    by (auto simp: tx_state_iff list_ok_def conn_ok_def tx_rel_def fresh_conn_def two_conns_def connection_init_def)
qed

theorem lib_tx_refines_witness:
  "\<exists>t'. steps (tx_spec 0x1000 4096) \<lparr>acked = 0, posted = 0, sent = 0, alloc = 0\<rparr>
      (run_obs (\<lambda>op ctx. snd (tx_op_step 1 op ctx)) (\<lambda>op ctx. fst (tx_op_step 1 op ctx))
         [Op_Alloc2 3000, Op_Send 3000, Op_Post] fresh_conn) t'"
  using lib_tx_refines [OF fresh_conn_state, of "[Op_Alloc2 3000, Op_Send 3000, Op_Post]"]
  by (auto simp: tx_op_ok_def)

subsection \<open>The receive buffer\<close>

text \<open>
  \<open>freed \<le> rcvd \<le> freed + len\<close> are the positions of the receive stream up to which the application
  has freed the bytes and the NIC has reported them.
\<close>

definition rx_buf_rel :: "nat \<Rightarrow> nat \<Rightarrow> flextcp_connection \<Rightarrow> bool" where
  "rx_buf_rel freed rcvd conn \<longleftrightarrow>
     0 < unat (rxb_len conn) \<and> unat (rxb_len conn) \<le> 2 ^ 31 \<and> freed \<le> rcvd \<and> rcvd \<le> freed + unat (rxb_len conn) \<and>
     unat (rxb_used conn) = rcvd - freed \<and> unat (rxb_head conn) = rcvd mod unat (rxb_len conn)"

definition rx_buf_place :: "flextcp_connection \<Rightarrow> nat \<Rightarrow> addr" where
  "rx_buf_place conn p = rxb_base conn + p mod unat (rxb_len conn)"

text \<open>The addresses of the bytes that events report as received.\<close>

fun event_bytes :: "flextcp_event \<Rightarrow> addr list" where
  "event_bytes (FLEXTCP_EV_CONN_RECEIVED c b l) = map (\<lambda>i. b + i) [0..<unat l]"
| "event_bytes _ = []"

definition received_bytes :: "flextcp_event list \<Rightarrow> addr list" where
  "received_bytes evs = concat (map event_bytes evs)"

lemma received_bytes_simps [simp]:
  "received_bytes [] = []" "received_bytes (e # evs) = event_bytes e @ received_bytes evs"
  "received_bytes (evs @ evs') = received_bytes evs @ received_bytes evs'"
  by (simp_all add: received_bytes_def)

lemma rx_buf_rel_more [simp]:
  "rx_buf_rel fr rc (conn\<lparr>bump_next := n\<rparr>) = rx_buf_rel fr rc conn"
  "rx_buf_rel fr rc (conn\<lparr>bump_prev := n\<rparr>) = rx_buf_rel fr rc conn"
  "rx_buf_rel fr rc (conn\<lparr>bump_pending := b\<rparr>) = rx_buf_rel fr rc conn"
  "rx_buf_rel fr rc (conn\<lparr>c_flags := f\<rparr>) = rx_buf_rel fr rc conn"
  "rx_buf_rel fr rc (conn\<lparr>rx_closed := r\<rparr>) = rx_buf_rel fr rc conn"
  "rx_buf_rel fr rc (conn\<lparr>txb_sent := s\<rparr>) = rx_buf_rel fr rc conn"
  "rx_buf_rel fr rc (conn\<lparr>txb_head := h\<rparr>) = rx_buf_rel fr rc conn"
  "rx_buf_rel fr rc (conn\<lparr>txb_bump := h\<rparr>) = rx_buf_rel fr rc conn"
  "rx_buf_rel fr rc (conn\<lparr>rxb_bump := h\<rparr>) = rx_buf_rel fr rc conn"
  by (simp_all add: rx_buf_rel_def)

lemma rx_rel_mark [simp]: "rx_buf_rel fr rc (conns (conn_mark_bump d ctx) a) = rx_buf_rel fr rc (conns ctx a)"
  by (rule mark_bump_conn [of d ctx a]) simp

lemma pushtxeos_rx:
  "flextcp_conn_pushtxeos c ctx = Inr (r, ctx') \<Longrightarrow> rx_buf_rel fr rc (conns ctx' c) = rx_buf_rel fr rc (conns ctx c)"
  by (auto simp: flextcp_conn_pushtxeos_def Let_def split: if_splits)

lemma update_tx_events:
  assumes "update_tx c tx ev ctx = Inr (evs, ctx')"
  shows "received_bytes evs = []" "rx_buf_rel fr rc (conns ctx' c) = rx_buf_rel fr rc (conns ctx c)"
    "length evs \<le> (if 0 < tx \<and> ev then 1 else 0) +
       (if bit (c_flags (conns ctx c)) 1 \<and> txb_sent (conns ctx c) - tx = 0 then 1 else 0)"
  using assms
  by (auto simp: update_tx_def Let_def conn_flags_bit pushtxeos_rx split: if_splits sum.splits)

lemma update_rx_events:
  assumes "rx_buf_rel fr rc conn" and "rc + unat rx \<le> fr + unat (rxb_len conn)"
  shows "received_bytes (fst (update_rx c rx conn)) = map (rx_buf_place conn) [rc..<rc + unat rx]"
    "rx_buf_rel fr (rc + unat rx) (snd (update_rx c rx conn))"
    "length (fst (update_rx c rx conn)) = (if 0 < rx then if rxb_len conn < rxb_head conn + rx then 2 else 1 else 0)"
proof -
  let ?L = "unat (rxb_len conn)" and ?h = "unat (rxb_head conn)"
  note r = assms(1) [unfolded rx_buf_rel_def]
  have n: "unat rx \<le> ?L" using assms(2) r by linarith
  note adv = advance_pos [of "rxb_head conn" rc "rxb_len conn" rx]
  have hd: "unat (rxb_head conn + rx) = ?h + unat rx" using adv(1) r n by simp
  have used: "unat (rxb_used conn + rx) = rc - fr + unat rx"
    using r assms(2) by (subst unat_add_le [of _ _ "rxb_len conn"]) auto
  have lt: "?h < ?L" using r by simp
  have place: "rx_buf_place conn (rc + i) = rxb_base conn + (if ?L \<le> ?h + i then ?h + i - ?L else ?h + i)"
    if "i < unat rx" for i
  proof -
    have "(rc + i) mod ?L = (if ?L \<le> rc mod ?L + i then rc mod ?L + i - ?L else rc mod ?L + i)"
      by (rule wrap_mod [symmetric]) (use that n r in auto)
    then show ?thesis using r by (simp add: rx_buf_place_def)
  qed
  have places: "map (rx_buf_place conn) [rc..<rc + unat rx] =
      map (\<lambda>i. rxb_base conn + (if ?L \<le> ?h + i then ?h + i - ?L else ?h + i)) [0..<unat rx]"
    by (rule nth_equalityI) (simp_all add: place)
  have sub: "unat (rxb_len conn - rxb_head conn) = ?L - ?h" using lt by (intro unat_sub) (simp add: word_nat)
  have sub2: "unat (rx - (rxb_len conn - rxb_head conn)) = unat rx - (?L - ?h)" if "?L < ?h + unat rx"
    using that sub by (subst unat_sub) (simp_all add: word_nat)
  show "received_bytes (fst (update_rx c rx conn)) = map (rx_buf_place conn) [rc..<rc + unat rx]"
  proof (cases "?L < ?h + unat rx")
    case True
    then have len: "0 < rx" "?L - ?h + (unat rx - (?L - ?h)) = unat rx" using lt n by (auto simp: word_nat)
    have "received_bytes (fst (update_rx c rx conn)) =
        map (\<lambda>i. rxb_base conn + ?h + i) [0..<?L - ?h] @ map (\<lambda>i. rxb_base conn + i) [0..<unat rx - (?L - ?h)]"
      using True len(1) by (simp add: update_rx_def word_nat hd Let_def sub sub2)
    also have "\<dots> = map (\<lambda>i. rxb_base conn + (if ?L \<le> ?h + i then ?h + i - ?L else ?h + i)) [0..<unat rx]"
      using lt len(2) by (intro nth_equalityI) (auto simp: nth_append)
    finally show ?thesis by (simp only: places)
  next
    case False
    then have "received_bytes (fst (update_rx c rx conn)) = map (\<lambda>i. rxb_base conn + ?h + i) [0..<unat rx]"
      by (auto simp: update_rx_def word_nat hd Let_def)
    then show ?thesis using False by (auto simp: places)
  qed
  show "rx_buf_rel fr (rc + unat rx) (snd (update_rx c rx conn))"
    using adv(2) r n assms(2) used by (auto simp: update_rx_def Let_def rx_buf_rel_def word_nat)
  show "length (fst (update_rx c rx conn)) = (if 0 < rx then if rxb_len conn < rxb_head conn + rx then 2 else 1 else 0)"
    by (simp add: update_rx_def Let_def)
qed

text \<open>
  C28. An update from the NIC on an open connection. Its events never exceed the room the caller
  has for them; when they do not fit, nothing changes. Otherwise the events report exactly the bytes
  that follow those reported before, in stream order, at their places in the receive buffer, in two
  pieces if they wrap; and the receive positions advance by the bytes reported.
\<close>

theorem connupdate_reports_received:
  assumes "rx_buf_rel freed rcvd (conns ctx c)" and "rcvd + unat rx \<le> freed + unat (rxb_len (conns ctx c))"
    and "status (conns ctx c) = CONN_OPEN"
    and "event_arx_connupdate c rx tx fl outn ctx = Inr (res, ctx')"
  shows "case res of
      None \<Rightarrow> ctx' = ctx
    | Some evs \<Rightarrow> length evs \<le> outn \<and>
        received_bytes evs = map (rx_buf_place (conns ctx c)) [rcvd..<rcvd + unat rx] \<and>
        rx_buf_rel freed (rcvd + unat rx) (conns ctx' c)"
proof -
  let ?conn = "conns ctx c"
  define eos where "eos = (fl AND ARX_FLRXDONE = ARX_FLRXDONE)"
  let ?ev = "0 < tx \<and> flextcp_conn_txbuf_available ?conn = 0"
  show ?thesis
  proof (cases "outn < evs_needed rx tx eos ?conn")
    case True
    then show ?thesis using assms(3,4) by (auto simp: event_arx_connupdate_def Let_def eos_def)
  next
    case False
    obtain evs1 conn1 where rxu: "update_rx c rx ?conn = (evs1, conn1)" by fastforce
    note e1 = update_rx_events [OF assms(1,2), of c, unfolded rxu fst_conv snd_conv]
    have c1: "c_flags conn1 = c_flags ?conn" "txb_sent conn1 = txb_sent ?conn"
      using rxu by (auto simp: update_rx_def Let_def split: if_splits)
    obtain evs2 ctx2 where u: "update_tx c tx ?ev (set_conn c conn1 ctx) = Inr (evs2, ctx2)"
      "res = Some (evs1 @ evs2 @ (if eos then [FLEXTCP_EV_CONN_RXCLOSED c] else []))"
      "ctx' = (if eos then set_conn c ((conns ctx2 c)\<lparr>rx_closed := True\<rparr>) ctx2 else ctx2)"
      using assms(3,4) False rxu
      by (auto simp: event_arx_connupdate_def Let_def eos_def split: sum.splits if_splits)
    note e2 = update_tx_events [OF u(1)]
    have "length evs1 + length evs2 + (if eos then 1 else 0) \<le> evs_needed rx tx eos ?conn"
      using e1(3) e2(3) c1 by (auto simp: evs_needed_def conn_flags_bit split: if_splits)
    then have "length (evs1 @ evs2 @ (if eos then [FLEXTCP_EV_CONN_RXCLOSED c] else [])) \<le> outn"
      using False by (cases eos) simp_all
    then show ?thesis using e1(1,2) e2(1,2) u(2,3) by (cases eos) simp_all
  qed
qed

theorem connupdate_reports_received_witness:
  "\<exists>evs ctx'. event_arx_connupdate 1 300 0 0 8
       (fresh_conn\<lparr>conns := \<lambda>a. connection_init\<lparr>status := CONN_OPEN, rxb_base := 0x8000, rxb_len := 1024, rxb_head := 1000\<rparr>\<rparr>) =
       Inr (Some evs, ctx') \<and> length evs = 2 \<and> received_bytes evs ! 24 = 0x8000 \<and> length (received_bytes evs) = 300"
proof -
  let ?conn = "connection_init\<lparr>status := CONN_OPEN, rxb_base := 0x8000, rxb_len := 1024, rxb_head := 1000\<rparr>"
  let ?ctx = "fresh_conn\<lparr>conns := \<lambda>a. ?conn\<rparr>"
  have r: "rx_buf_rel 1000 1000 (conns ?ctx 1)" "1000 + unat (300 :: u32) \<le> 1000 + unat (rxb_len (conns ?ctx 1))"
    "status (conns ?ctx 1) = CONN_OPEN" by (simp_all add: rx_buf_rel_def connection_init_def)
  obtain evs ctx' where e: "event_arx_connupdate 1 300 0 0 8 ?ctx = Inr (Some evs, ctx')" "length evs = 2"
    by (auto simp: event_arx_connupdate_def evs_needed_def update_rx_def update_tx_def ARX_FLRXDONE_def
        connection_init_def CONN_FLAG_TXEOS_ALLOC_def flextcp_conn_txbuf_available_def conn_tx_allocbytes_def)
  from connupdate_reports_received [OF r e(1)]
  have "received_bytes evs = map (rx_buf_place ?conn) [1000..<1300]" by simp
  then show ?thesis using e by (auto simp: rx_buf_place_def connection_init_def)
qed

end
