(* ===== verification/Qman.thy ===== *)
theory Qman
  imports Postprocess Tcp_Flows
begin

unbundle bit_operations_syntax

text \<open>
  The queue manager, \<open>firmware/qman.c\<close>: it decides when a flow with data may send its next
  segment. Eight contexts of one micro-engine share its local memory. Context 0 takes the flows
  that postprocessing announces and puts each into a queue: the ring of uncongested flows, the
  local queue of flows with at least a segment of data, or one of the 512 rings of the timing wheel
  for flows with a rate limit. The other contexts take flows out of the queues, schedule one segment
  and put the flow back while it has data; context 1 turns the wheel.

  A context runs until it waits for memory, sleeps or spins, so a step of the model is what one
  context does between two such points, and its program counter \<open>th_pc\<close> says where it waits. The
  shared memory is that of postprocessing: \<open>qm_cc\<close> is \<open>fp_state.flows_cc_info\<close>, \<open>qm_avail_credits\<close>
  the counter \<open>qm_credits\<close>. Rings are lists, the oldest entry first; an entry that the hardware has
  handed to a waiting context but that the context has not read is still at the head of the list.
\<close>

subsection \<open>State\<close>

definition QM_LOCAL_FIFO :: u32 where "QM_LOCAL_FIFO = 256"
definition QM_NUM_SLOTS :: u32 where "QM_NUM_SLOTS = 512"
definition QM_SLOT_RESOLUTION_TS_CYC_SHIFT :: nat where "QM_SLOT_RESOLUTION_TS_CYC_SHIFT = 8"
definition QM_SLOT_RESOLUTION_TS_CLK_CNT :: u32 where "QM_SLOT_RESOLUTION_TS_CLK_CNT = 16"
definition QM_FIFO_LEN :: nat where "QM_FIFO_LEN = 16384"
definition QM_SLOT_LEN :: nat where "QM_SLOT_LEN = 512"
definition FLOW_QM_CREDITS :: u32 where "FLOW_QM_CREDITS = 1024"
definition MIN_SLOT_CYCLES :: u32 where "MIN_SLOT_CYCLES = 8"

lemmas qm_params = QM_LOCAL_FIFO_def QM_NUM_SLOTS_def QM_SLOT_RESOLUTION_TS_CYC_SHIFT_def
  QM_SLOT_RESOLUTION_TS_CLK_CNT_def QM_FIFO_LEN_def QM_SLOT_LEN_def FLOW_QM_CREDITS_def
  NUM_FLOW_GROUPS_def MIN_SLOT_CYCLES_def TCP_MSS_def

text \<open>
  Where a context is. \<open>Top\<close> is the head of its loop, \<open>Ready\<close> the point after the first test,
  \<open>Get\<close> the wait for a ring read (of the ring of a slot), \<open>Flows\<close> the inner loop over the entries
  read. A context with a flow \<open>g\<close> in hand waits for credits (\<open>Credit\<close>), for the memory operation
  on the available bytes (\<open>Sub\<close>), for the rate (\<open>Rate\<close>), or is about to queue the flow again
  (\<open>Add\<close>). \<open>Read\<close> is the wait of context 0; \<open>Refresh\<close> and \<open>Refreshed\<close> are the two halves of
  \<open>refresh_credits\<close>, which returns to the given point.
\<close>

datatype loop_at = Top | Ready | Get u32 | Flows "u32 list"

datatype pc =
    At loop_at
  | Read u32
  | Credit u32 loop_at
  | Sub u32 loop_at
  | Rate u32 u32 loop_at
  | Add u32 u32 u32 loop_at
  | Refresh pc
  | Refreshed u32 pc

record qman =
  queue_status :: "u32 \<Rightarrow> u32"
  queue_local_fifo :: "u32 \<Rightarrow> u32 \<times> u32"
  queue_status_fifo :: u32
  credits :: u32
  current_slot :: u32
  skip_slot :: u32
  q_head :: u32
  q_tail :: u32
  qm_fifo_ring :: "u32 list"
  qm_slot_ring :: "u32 \<Rightarrow> u32 list"
  qm_bump_ring :: "u32 list"
  qm_sched_ring :: "u32 \<Rightarrow> u32 list"
  qm_cc :: "u32 \<Rightarrow> flowst_cc_t"
  qm_avail_credits :: u32
  th_pc :: "nat \<Rightarrow> pc"
  sel_next_ts :: u32
  sel_cyc :: u32

subsection \<open>Hardware rings\<close>

text \<open>
  \<open>mem_ring_journal_fast\<close> adds at the tail and overwrites the oldest entry of a full ring;
  \<open>mem_ring_get_freely\<close> takes entries from the head and pads with zeros.
\<close>

definition ring_journal :: "nat \<Rightarrow> u32 \<Rightarrow> u32 list \<Rightarrow> u32 list" where
  "ring_journal cap x xs = (if length xs < cap then xs @ [x] else tl xs @ [x])"

definition ring_get_freely :: "nat \<Rightarrow> u32 list \<Rightarrow> u32 list \<times> u32 list" where
  "ring_get_freely n xs = (take n xs @ replicate (n - length xs) 0, drop n xs)"

subsection \<open>Operations\<close>

definition goto :: "nat \<Rightarrow> pc \<Rightarrow> qman \<Rightarrow> qman" where
  "goto t p q = q\<lparr>th_pc := (th_pc q)(t := p)\<rparr>"

definition flow_add_to_queue :: "u32 \<Rightarrow> u32 \<Rightarrow> u32 \<Rightarrow> qman \<Rightarrow> qman" where
  "flow_add_to_queue flow_id avail rate q =
     (if rate = 0 then
        let new_qtail = (q_tail q + 1) AND (QM_LOCAL_FIFO - 1)
        in if avail < TCP_MSS \<or> q_head q = new_qtail then
             q\<lparr>queue_status_fifo := queue_status_fifo q + 1,
               qm_fifo_ring := ring_journal QM_FIFO_LEN flow_id (qm_fifo_ring q)\<rparr>
           else
             q\<lparr>queue_local_fifo := (queue_local_fifo q)(q_tail q := (flow_id, min avail 0x4000)),
               q_tail := new_qtail\<rparr>
      else
        let chunk = min TCP_MSS avail;
            ts = drop_bit 10 (rate * chunk);
            slot = drop_bit QM_SLOT_RESOLUTION_TS_CYC_SHIFT ts + skip_slot q;
            slot = (if QM_NUM_SLOTS \<le> slot then QM_NUM_SLOTS - 1 else slot);
            slot = (current_slot q + slot) AND (QM_NUM_SLOTS - 1)
        in q\<lparr>queue_status := (queue_status q)(slot := queue_status q slot + 1),
             qm_slot_ring := (qm_slot_ring q)(slot := ring_journal QM_SLOT_LEN flow_id (qm_slot_ring q slot))\<rparr>)"

text \<open>Context 0.\<close>

definition queue_postproc_poll :: "qman \<Rightarrow> qman" where
  "queue_postproc_poll q =
     (case th_pc q 0 of
        At _ \<Rightarrow>
          (case qm_bump_ring q of
             [] \<Rightarrow> q
           | g # gs \<Rightarrow> goto 0 (Read g) (q\<lparr>qm_bump_ring := gs\<rparr>))
      | Read g \<Rightarrow>
          let cc = qm_cc q (g AND 0xFFFF)
          in goto 0 (Add g (cc_tx_avail cc) (cc_tx_rate cc) Top) q
      | Add g avail rate k \<Rightarrow> goto 0 (At k) (flow_add_to_queue g avail rate q)
      | _ \<Rightarrow> q)"

text \<open>
  \<open>refresh_credits\<close>: the memory operation returns the contents of the counter before it, and that
  value is added.
\<close>

definition refresh_issue :: "nat \<Rightarrow> pc \<Rightarrow> qman \<Rightarrow> qman" where
  "refresh_issue t p q =
     goto t (Refreshed (qm_avail_credits q) p)
       (q\<lparr>qm_avail_credits := subsat (qm_avail_credits q) (min (FLOW_QM_CREDITS div 8) 128)\<rparr>)"

definition refresh_credits :: "nat \<Rightarrow> u32 \<Rightarrow> pc \<Rightarrow> qman \<Rightarrow> qman" where
  "refresh_credits t update_credits p q = goto t p (q\<lparr>credits := credits q + update_credits\<rparr>)"

text \<open>The end of a scheduling round: go on at \<open>k\<close>, after a refresh when credits are low.\<close>

definition round_done :: "nat \<Rightarrow> loop_at \<Rightarrow> qman \<Rightarrow> qman" where
  "round_done t k q =
     (if credits q < FLOW_QM_CREDITS div 4 then goto t (Refresh (At k)) q else goto t (At k) q)"

text \<open>Hand one segment of a flow to the preprocessing island of its flow group.\<close>

definition schedule :: "u32 \<Rightarrow> qman \<Rightarrow> qman" where
  "schedule flow_id_grp q =
     (let flow_id = flow_id_grp AND 0xFFFF;
          flow_grp = drop_bit 16 flow_id_grp AND (NUM_FLOW_GROUPS - 1)
      in q\<lparr>credits := credits q - 1,
           qm_sched_ring := (qm_sched_ring q)(flow_grp := qm_sched_ring q flow_grp @ [flow_id])\<rparr>)"

definition sub_avail :: "u32 \<Rightarrow> qman \<Rightarrow> qman" where
  "sub_avail flow_id q =
     (let cc = qm_cc q flow_id
      in q\<lparr>qm_cc := (qm_cc q)(flow_id := cc\<lparr>cc_tx_avail := subsat (cc_tx_avail cc) TCP_MSS\<rparr>)\<rparr>)"

text \<open>
  Context 1, which turns the wheel. \<open>At Top\<close> is its sleep of \<open>sel_cyc\<close> time units, \<open>At Ready\<close> the
  wait until the current slot is drained; \<open>now\<close> is the time stamp it reads.
\<close>

definition select_slot_start :: "u32 \<Rightarrow> qman \<Rightarrow> qman" where
  "select_slot_start now q =
     q\<lparr>sel_cyc := QM_SLOT_RESOLUTION_TS_CLK_CNT,
       sel_next_ts := now + QM_SLOT_RESOLUTION_TS_CLK_CNT, skip_slot := 0\<rparr>"

definition select_slot :: "u32 \<Rightarrow> qman \<Rightarrow> qman" where
  "select_slot now q =
     (if th_pc q 1 = At Top then goto 1 (At Ready) (q\<lparr>skip_slot := 1\<rparr>)
      else if queue_status q (current_slot q) \<noteq> 0 then q
      else
        let deficit = now - sel_next_ts q;
            deficit = (if QM_SLOT_RESOLUTION_TS_CLK_CNT \<le> deficit
                       then QM_SLOT_RESOLUTION_TS_CLK_CNT - MIN_SLOT_CYCLES else deficit);
            cyc = QM_SLOT_RESOLUTION_TS_CLK_CNT - deficit
        in goto 1 (At Top)
             (q\<lparr>current_slot := (current_slot q + 1) AND (QM_NUM_SLOTS - 1),
                sel_cyc := cyc, sel_next_ts := now + cyc, skip_slot := 0\<rparr>))"

text \<open>Context 2, the local queue.\<close>

definition queue_localfifo_poll :: "qman \<Rightarrow> qman" where
  "queue_localfifo_poll q =
     (case th_pc q 2 of
        At Top \<Rightarrow> if q_head q = q_tail q then q else goto 2 (At Ready) q
      | At Ready \<Rightarrow>
          if credits q = 0 then goto 2 (Refresh (At Ready)) q
          else
            let (flow_id_grp, local_avail) = queue_local_fifo q (q_head q);
                q1 = q\<lparr>q_head := (q_head q + 1) AND (QM_LOCAL_FIFO - 1)\<rparr>;
                flow_id = flow_id_grp AND 0xFFFF;
                q2 = sub_avail flow_id (schedule flow_id_grp q1)
            in round_done 2 Top (flow_add_to_queue flow_id (local_avail - TCP_MSS) 0 q2)
      | Refresh p \<Rightarrow> refresh_issue 2 p q
      | Refreshed v p \<Rightarrow> refresh_credits 2 v p q
      | _ \<Rightarrow> q)"

text \<open>
  A flow in hand, in contexts 3 to 7: wait for a credit, schedule, take a segment off the available
  bytes (the operation returns what was there), and queue the flow again if more than a segment was
  available. \<open>dec\<close> is what context 3 takes off its counter when it schedules.
\<close>

definition serve :: "nat \<Rightarrow> u32 \<Rightarrow> qman \<Rightarrow> qman" where
  "serve t dec q =
     (case th_pc q t of
        Credit g k \<Rightarrow>
          if credits q = 0 then goto t (Refresh (Credit g k)) q
          else goto t (Sub g k) (schedule g (q\<lparr>queue_status_fifo := queue_status_fifo q - dec\<rparr>))
      | Sub g k \<Rightarrow>
          goto t (Rate g (cc_tx_avail (qm_cc q (g AND 0xFFFF))) k) (sub_avail (g AND 0xFFFF) q)
      | Rate g avail k \<Rightarrow>
          if TCP_MSS < avail
          then goto t (Add g (avail - TCP_MSS) (cc_tx_rate (qm_cc q (g AND 0xFFFF))) k) q
          else round_done t k q
      | Add g avail rate k \<Rightarrow> round_done t k (flow_add_to_queue g avail rate q)
      | Refresh p \<Rightarrow> refresh_issue t p q
      | Refreshed v p \<Rightarrow> refresh_credits t v p q
      | _ \<Rightarrow> q)"

text \<open>Context 3, the ring of uncongested flows, read four entries at a time.\<close>

definition queue_fifo_poll :: "qman \<Rightarrow> qman" where
  "queue_fifo_poll q =
     (case th_pc q 3 of
        At Top \<Rightarrow> if queue_status_fifo q = 0 then q else goto 3 (At (Get 0)) q
      | At (Get _) \<Rightarrow>
          let (ws, rest) = ring_get_freely 4 (qm_fifo_ring q)
          in goto 3 (At (Flows ws)) (q\<lparr>qm_fifo_ring := rest\<rparr>)
      | At (Flows ws) \<Rightarrow>
          (case ws of
             [] \<Rightarrow> goto 3 (At Top) q
           | w # ws' \<Rightarrow> if w = 0 then goto 3 (At Top) q else goto 3 (Credit w (Flows ws')) q)
      | _ \<Rightarrow> serve 3 1 q)"

text \<open>Contexts 4 to 7, the current slot of the wheel.\<close>

definition queue_slot_poll :: "nat \<Rightarrow> qman \<Rightarrow> qman" where
  "queue_slot_poll t q =
     (case th_pc q t of
        At Top \<Rightarrow>
          let s = current_slot q
          in if queue_status q s = 0 then q
             else goto t (At (Get s)) (q\<lparr>queue_status := (queue_status q)(s := queue_status q s - 1)\<rparr>)
      | At (Get s) \<Rightarrow>
          let (ws, rest) = ring_get_freely 1 (qm_slot_ring q s);
              q1 = q\<lparr>qm_slot_ring := (qm_slot_ring q)(s := rest)\<rparr>
          in if hd ws = 0 then goto t (At Top) q1 else goto t (Credit (hd ws) Top) q1
      | _ \<Rightarrow> serve t 0 q)"

text \<open>\<open>main\<close>: the start state, and the context that runs next.\<close>

definition qm_start :: "u32 \<Rightarrow> (u32 \<Rightarrow> flowst_cc_t) \<Rightarrow> qman" where
  "qm_start now cc = select_slot_start now
     \<lparr>queue_status = \<lambda>_. 0, queue_local_fifo = \<lambda>_. (0, 0), queue_status_fifo = 0,
      credits = 3 * FLOW_QM_CREDITS div 4 - 1, current_slot = 0, skip_slot = 0, q_head = 0, q_tail = 0,
      qm_fifo_ring = [], qm_slot_ring = \<lambda>_. [], qm_bump_ring = [], qm_sched_ring = \<lambda>_. [],
      qm_cc = cc, qm_avail_credits = 0, th_pc = \<lambda>_. At Top, sel_next_ts = 0, sel_cyc = 0\<rparr>"

definition qm_thread :: "nat \<Rightarrow> u32 \<Rightarrow> qman \<Rightarrow> qman" where
  "qm_thread t now q =
     (if t = 0 then queue_postproc_poll q
      else if t = 1 then select_slot now q
      else if t = 2 then queue_localfifo_poll q
      else if t = 3 then queue_fifo_poll q
      else queue_slot_poll t q)"

subsection \<open>The queue manager and postprocessing\<close>

text \<open>
  The postprocessing threads of all islands work on the same flows. One of their handlers is a
  step on the shared part of the state: the private part \<open>pp\<close> (caches, flow group, descriptors) is
  arbitrary. Its bumps go to the bump ring, its credits and its counters to the shared memory.
\<close>

datatype pp_work =
    Pp_Ac work_result_t
  | Pp_Retx work_result_t
  | Pp_Tx work_result_t u32 nat dma_pkt_cmd_t
  | Pp_Rx work_result_t u32 u32 nat dma_pkt_cmd_t u32 flextcp_pl_arx_t

fun pp_result :: "pp_work \<Rightarrow> work_result_t" where
  "pp_result (Pp_Ac r) = r"
| "pp_result (Pp_Retx r) = r"
| "pp_result (Pp_Tx r _ _ _) = r"
| "pp_result (Pp_Rx r _ _ _ _ _ _) = r"

text \<open>Without a free descriptor \<open>postprocess_rx\<close> keeps trying: no step of its own is complete.\<close>

fun pp_handle :: "pp_work \<Rightarrow> pp_state \<Rightarrow> pp_state option" where
  "pp_handle (Pp_Ac r) s = Some (postprocess_ac r s)"
| "pp_handle (Pp_Retx r) s = Some (postprocess_retx r s)"
| "pp_handle (Pp_Tx r now lru dma) s = Some (postprocess_tx r now lru dma s)"
| "pp_handle (Pp_Rx r now now_rtt lru dma ret arx) s = postprocess_rx r now now_rtt lru dma ret arx s"

fun qm_bumps :: "pp_out list \<Rightarrow> u32 list" where
  "qm_bumps [] = []"
| "qm_bumps (Qm_Bump g # outs) = g # qm_bumps outs"
| "qm_bumps (_ # outs) = qm_bumps outs"

definition pp_step :: "pp_work \<Rightarrow> pp_state \<Rightarrow> qman \<Rightarrow> qman" where
  "pp_step w pp q =
     (case pp_handle w (pp\<lparr>flows_cc_info := qm_cc q, qm_credits := qm_avail_credits q, pp_outs := []\<rparr>) of
        None \<Rightarrow> q
      | Some s \<Rightarrow> q\<lparr>qm_cc := flows_cc_info s, qm_avail_credits := qm_credits s,
                   qm_bump_ring := qm_bump_ring q @ qm_bumps (pp_outs s)\<rparr>)"

text \<open>The slow path clears the counters of a new flow and sets the rate of a flow.\<close>

datatype qm_event = Thread nat u32 | Post pp_work pp_state | Flow_Init u32 u32 | Set_Rate u32 u32

fun qm_step :: "qm_event \<Rightarrow> qman \<Rightarrow> qman" where
  "qm_step (Thread t now) q = qm_thread t now q"
| "qm_step (Post w pp) q = pp_step w pp q"
| "qm_step (Flow_Init f rtt) q =
     q\<lparr>qm_cc := (qm_cc q)(f := \<lparr>cc_tx_avail = 0, cc_tx_rate = 0, cc_rtt_est = rtt, cc_txp = 0,
       cc_cnt_tx_drops = 0, cc_cnt_rx_acks = 0, cc_cnt_rx_ack_bytes = 0, cc_cnt_rx_ecn_bytes = 0\<rparr>)\<rparr>"
| "qm_step (Set_Rate f r) q = q\<lparr>qm_cc := (qm_cc q)(f := (qm_cc q f)\<lparr>cc_tx_rate := r\<rparr>)\<rparr>"

subsection \<open>Where a flow is queued\<close>

abbreviation low :: "u32 \<Rightarrow> u32" where "low g \<equiv> g AND 0xFFFF"

fun kheld :: "loop_at \<Rightarrow> u32 list" where
  "kheld (Flows ws) = takeWhile (\<lambda>w. w \<noteq> 0) ws"
| "kheld _ = []"

text \<open>
  The flows a context has in hand and will queue again. Once more than a segment is known not to be
  available the flow is dropped; its available bytes are then zero.
\<close>

fun held :: "pc \<Rightarrow> u32 list" where
  "held (At k) = kheld k"
| "held (Read g) = [g]"
| "held (Credit g k) = g # kheld k"
| "held (Sub g k) = g # kheld k"
| "held (Rate g a k) = (if TCP_MSS < a then [g] else []) @ kheld k"
| "held (Add g a r k) = g # kheld k"
| "held (Refresh p) = held p"
| "held (Refreshed v p) = held p"

text \<open>The entries of context 3 that are still on its counter.\<close>

fun todo :: "pc \<Rightarrow> nat" where
  "todo (At k) = length (kheld k)"
| "todo (Read g) = 0"
| "todo (Credit g k) = Suc (length (kheld k))"
| "todo (Sub g k) = length (kheld k)"
| "todo (Rate g a k) = length (kheld k)"
| "todo (Add g a r k) = length (kheld k)"
| "todo (Refresh p) = todo p"
| "todo (Refreshed v p) = todo p"

definition lf_len :: "qman \<Rightarrow> nat" where
  "lf_len q = (unat (q_tail q) + 256 - unat (q_head q)) mod 256"

definition lf_at :: "qman \<Rightarrow> nat \<Rightarrow> u32 \<times> u32" where
  "lf_at q i = queue_local_fifo q (of_nat ((unat (q_head q) + i) mod 256))"

definition lf_flows :: "qman \<Rightarrow> u32 list" where
  "lf_flows q = map (\<lambda>i. fst (lf_at q i)) [0..<lf_len q]"

definition queued :: "qman \<Rightarrow> u32 \<Rightarrow> bool" where
  "queued q f \<longleftrightarrow>
     f \<in> low ` set (qm_bump_ring q) \<or> f \<in> low ` set (qm_fifo_ring q) \<or>
     (\<exists>s. f \<in> low ` set (qm_slot_ring q s)) \<or> f \<in> low ` set (lf_flows q) \<or>
     (\<exists>t < 8. f \<in> low ` set (held (th_pc q t)))"

definition waiting :: "qman \<Rightarrow> u32 \<Rightarrow> nat" where
  "waiting q s = length (filter (\<lambda>t. th_pc q t = At (Get s)) [4..<8])"

subsection \<open>The local queue\<close>

lemma unat_and_255: "unat ((x :: u32) AND 255) = unat x mod 256"
  using and_mask_nat [of 8 x] by simp

lemma unat_and_511: "unat ((x :: u32) AND 511) = unat x mod 512"
  using and_mask_nat [of 9 x] by simp

lemma lf_push:
  assumes "q_head q < 256" and "q_tail q < 256" and "q_head q \<noteq> (q_tail q + 1) AND 255"
    and q': "q' = q\<lparr>queue_local_fifo := (queue_local_fifo q)(q_tail q := e), q_tail := (q_tail q + 1) AND 255\<rparr>"
  shows "lf_len q' = Suc (lf_len q)" and "lf_at q' (lf_len q) = e"
    and "i < lf_len q \<Longrightarrow> lf_at q' i = lf_at q i" and "q_tail q' < 256"
proof -
  define h t where "h = unat (q_head q)" and "t = unat (q_tail q)"
  have ht: "h < 256" "t < 256" using assms(1,2) by (simp_all add: word_nat h_def t_def)
  have t1: "unat (q_tail q + 1) = t + 1" using ht by (simp add: unat_word_ariths t_def)
  then have nt: "unat ((q_tail q + 1) AND 255) = (t + 1) mod 256" by (simp add: unat_and_255)
  have "unat (q_head q) \<noteq> unat ((q_tail q + 1) AND 255)" using assms(3) by (metis word_unat_eq_iff)
  then have ne: "h \<noteq> (t + 1) mod 256" by (simp add: nt h_def)
  have len: "lf_len q = (t + 256 - h) mod 256" "lf_len q' = ((t + 1) mod 256 + 256 - h) mod 256"
    by (simp_all add: lf_len_def q' h_def t_def nt)
  show l: "lf_len q' = Suc (lf_len q)" unfolding len using ne ht by (cases "t + 1 < 256"; cases "h \<le> t") (auto simp: mod_if)
  have at: "(h + lf_len q) mod 256 = t" unfolding len using ht by (auto simp: mod_if)
  have tt: "of_nat t = q_tail q" by (simp add: t_def)
  show "lf_at q' (lf_len q) = e" using at by (simp add: lf_at_def q' tt flip: h_def)
  show "lf_at q' i = lf_at q i" if "i < lf_len q"
  proof -
    have "lf_len q < 256" by (simp add: lf_len_def)
    then have "(h + i) mod 256 \<noteq> t" using that at mod_add_inj [of i 256 "lf_len q" h] by auto
    moreover have "unat (of_nat ((h + i) mod 256) :: u32) = (h + i) mod 256"
      by (rule unat_of_nat_small [of _ 255]) (use mod_less_divisor [of 256 "h + i"] in simp)
    ultimately have "(of_nat ((h + i) mod 256) :: u32) \<noteq> q_tail q" by (auto simp: t_def)
    then show ?thesis by (simp add: lf_at_def q' flip: h_def)
  qed
  show "q_tail q' < 256" by (simp add: q' word_nat nt)
qed

lemma lf_pop:
  assumes "q_head q < 256" and "q_tail q < 256" and "q_head q \<noteq> q_tail q"
    and q': "q' = q\<lparr>q_head := (q_head q + 1) AND 255\<rparr>"
  shows "lf_len q = Suc (lf_len q')" and "lf_at q' i = lf_at q (Suc i)"
    and "lf_at q 0 = queue_local_fifo q (q_head q)" and "q_head q' < 256"
proof -
  define h t where "h = unat (q_head q)" and "t = unat (q_tail q)"
  have ht: "h < 256" "t < 256" using assms(1,2) by (simp_all add: word_nat h_def t_def)
  have ne: "h \<noteq> t" using assms(3) unfolding h_def t_def by (metis word_unat_eq_iff)
  have "unat (q_head q + 1) = h + 1" using ht by (simp add: unat_word_ariths h_def)
  then have nh: "unat ((q_head q + 1) AND 255) = (h + 1) mod 256" by (simp add: unat_and_255)
  have len: "lf_len q = (t + 256 - h) mod 256" "lf_len q' = (t + 256 - (h + 1) mod 256) mod 256"
    by (simp_all add: lf_len_def q' h_def t_def nh)
  show "lf_len q = Suc (lf_len q')" unfolding len using ne ht by (cases "h + 1 < 256"; cases "h \<le> t") (auto simp: mod_if)
  show "lf_at q' i = lf_at q (Suc i)"
    by (simp add: lf_at_def q' nh flip: h_def) (metis add_Suc mod_add_left_eq plus_1_eq_Suc add.commute)
  show "lf_at q 0 = queue_local_fifo q (q_head q)" using ht by (simp add: lf_at_def flip: h_def) (simp add: h_def)
  show "q_head q' < 256" by (simp add: q' word_nat nh)
qed

lemma lf_flows_push:
  assumes "q_head q < 256" and "q_tail q < 256" and "q_head q \<noteq> (q_tail q + 1) AND 255"
  shows "lf_flows (q\<lparr>queue_local_fifo := (queue_local_fifo q)(q_tail q := e),
           q_tail := (q_tail q + 1) AND 255\<rparr>) = lf_flows q @ [fst e]"
  using lf_push [OF assms refl, where e = e] by (simp add: lf_flows_def)

lemma lf_flows_pop:
  assumes "q_head q < 256" and "q_tail q < 256" and "q_head q \<noteq> q_tail q"
  shows "lf_flows q = fst (queue_local_fifo q (q_head q)) # lf_flows (q\<lparr>q_head := (q_head q + 1) AND 255\<rparr>)"
proof -
  note p = lf_pop [OF assms refl]
  show ?thesis unfolding lf_flows_def p(1) p(2)
    by (simp add: upt_conv_Cons map_Suc_upt [symmetric] p(3) del: upt_Suc)
qed

lemma lf_empty: "q_head q < 256 \<Longrightarrow> q_tail q < 256 \<Longrightarrow> lf_len q = 0 \<longleftrightarrow> q_head q = q_tail q"
  using lf_pop(1) [OF _ _ _ refl, of q] by (cases "q_head q = q_tail q") (auto simp: lf_len_def)

subsection \<open>What postprocessing does to the queue manager\<close>

lemma qm_bumps_append [simp]: "qm_bumps (xs @ ys) = qm_bumps xs @ qm_bumps ys"
  by (induction xs rule: qm_bumps.induct) auto

text \<open>A handler changes the available bytes of its own flow only, and announces it when they were zero.\<close>

definition bump_spec :: "u32 \<Rightarrow> pp_state \<Rightarrow> pp_state \<Rightarrow> bool" where
  "bump_spec f0 s s' \<longleftrightarrow>
     (\<forall>f. f \<noteq> f0 \<longrightarrow> cc_tx_avail (flows_cc_info s' f) = cc_tx_avail (flows_cc_info s f)) \<and>
     (\<exists>gs. qm_bumps (pp_outs s') = qm_bumps (pp_outs s) @ gs \<and> set gs \<subseteq> {flow_grp_mask s OR f0} \<and>
        (cc_tx_avail (flows_cc_info s' f0) \<noteq> 0 \<longrightarrow> cc_tx_avail (flows_cc_info s f0) \<noteq> 0 \<or> gs \<noteq> []))"

lemma bump_spec_frame:
  assumes "bump_spec f0 s s'"
    and "\<And>f. cc_tx_avail (flows_cc_info s'' f) = cc_tx_avail (flows_cc_info s' f)"
    and "qm_bumps (pp_outs s'') = qm_bumps (pp_outs s')"
  shows "bump_spec f0 s s''"
  using assms by (simp add: bump_spec_def)

lemma bump_spec_push: "bump_spec (work_flow_id (res_work r)) s (push_qm_bump r s)"
  by (auto simp: bump_spec_def push_qm_bump_def upd_cc_def emit_def Let_def)

lemma bump_spec_before:
  assumes "bump_spec f0 s1 s'" and "flows_cc_info s1 = flows_cc_info s"
    and "qm_bumps (pp_outs s1) = qm_bumps (pp_outs s)" and "flow_grp_mask s1 = flow_grp_mask s"
  shows "bump_spec f0 s s'"
  using assms by (simp add: bump_spec_def)

lemma cc_stats_avail [simp]: "cc_tx_avail (cc_stats r now cc) = cc_tx_avail cc"
  by (simp add: cc_stats_def update_rtt_def Let_def)

lemma fetch_mem_info_shared [simp]:
  "flows_cc_info (snd (fetch_mem_info f lru s)) = flows_cc_info s"
  "pp_outs (snd (fetch_mem_info f lru s)) = pp_outs s"
  by (simp_all add: fetch_mem_info_def handle_mem_cache_miss_def Let_def case_prod_beta)

lemma allocate_arx_desc_shared:
  assumes "allocate_arx_desc r s = Some (d, s')"
  shows "flows_cc_info s' = flows_cc_info s" "pp_outs s' = pp_outs s"
  using assms by (auto simp: allocate_arx_desc_def split: if_splits list.splits)

lemma qm_bumps_emit [simp]: "(\<And>g. m \<noteq> Qm_Bump g) \<Longrightarrow> qm_bumps (pp_outs (emit m s)) = qm_bumps (pp_outs s)"
  by (cases m) (auto simp: emit_def)

lemma cc_info_emit [simp]: "flows_cc_info (emit m s) = flows_cc_info s"
  by (simp add: emit_def)

lemma prepare_seg_header_shared [simp]:
  "flows_cc_info (prepare_seg_header r now s) = flows_cc_info s"
  "qm_bumps (pp_outs (prepare_seg_header r now s)) = qm_bumps (pp_outs s)"
  by (simp_all add: prepare_seg_header_def Let_def)

lemma nbi_args_no_bump [simp]: "nbi_args w Nbi_Send \<noteq> Qm_Bump g" "nbi_args w Nbi_Drop \<noteq> Qm_Bump g"
  by (simp_all add: nbi_args_def)

lemma postprocess_tx_shared:
  "cc_tx_avail (flows_cc_info (postprocess_tx r now lru dma s) f) = cc_tx_avail (flows_cc_info s f)"
  "qm_bumps (pp_outs (postprocess_tx r now lru dma s)) = qm_bumps (pp_outs s)"
  by (simp_all add: postprocess_tx_def Let_def case_prod_beta upd_cc_def)

lemma postprocess_rx_shared:
  assumes "postprocess_rx r now now_rtt lru dma ret arx s = Some s'"
  shows "flows_cc_info s' = flows_cc_info (collect_cc_stats r now_rtt (push_qm_bump r (prepare_ack_header r now s)))"
    and "qm_bumps (pp_outs s') = qm_bumps (pp_outs (collect_cc_stats r now_rtt (push_qm_bump r (prepare_ack_header r now s))))"
proof -
  from assms obtain d s2 where
    a: "allocate_arx_desc r (collect_cc_stats r now_rtt (push_qm_bump r (prepare_ack_header r now s))) = Some (d, s2)"
    by (auto simp: postprocess_rx_def Let_def split: option.splits)
  note b = allocate_arx_desc_shared [OF a]
  from assms a have "flows_cc_info s' = flows_cc_info s2" "qm_bumps (pp_outs s') = qm_bumps (pp_outs s2)"
    by (auto simp: postprocess_rx_def Let_def case_prod_beta)
  with b show "flows_cc_info s' = flows_cc_info (collect_cc_stats r now_rtt (push_qm_bump r (prepare_ack_header r now s)))"
    "qm_bumps (pp_outs s') = qm_bumps (pp_outs (collect_cc_stats r now_rtt (push_qm_bump r (prepare_ack_header r now s))))"
    by simp_all
qed

lemma pp_handle_bumps:
  assumes "pp_handle w s = Some s'"
  shows "bump_spec (work_flow_id (res_work (pp_result w))) s s'"
proof (cases w)
  case (Pp_Ac r)
  with assms show ?thesis
    by (auto intro!: bump_spec_frame [OF bump_spec_push] simp: postprocess_ac_def Let_def)
next
  case (Pp_Retx r)
  with assms show ?thesis
    by (auto intro!: bump_spec_frame [OF bump_spec_push] simp: postprocess_retx_def upd_cc_def)
next
  case (Pp_Tx r now lru dma)
  have id: "bump_spec f s s" for f by (auto simp: bump_spec_def)
  from assms Pp_Tx have "s' = postprocess_tx r now lru dma s" by simp
  then show ?thesis by (intro bump_spec_frame [OF id]) (simp_all add: postprocess_tx_shared)
next
  case (Pp_Rx r now now_rtt lru dma ret arx)
  define s1 where "s1 = push_qm_bump r (prepare_ack_header r now s)"
  have "bump_spec (work_flow_id (res_work r)) (prepare_ack_header r now s) s1"
    unfolding s1_def by (rule bump_spec_push)
  then have b1: "bump_spec (work_flow_id (res_work r)) s s1"
    by (rule bump_spec_before) (auto simp: prepare_ack_header_def Let_def emit_def)
  from assms Pp_Rx have "postprocess_rx r now now_rtt lru dma ret arx s = Some s'" by simp
  note sh = postprocess_rx_shared [OF this]
  show ?thesis unfolding Pp_Rx pp_result.simps
    by (rule bump_spec_frame [OF b1]) (simp_all add: sh collect_cc_stats_def upd_cc_def s1_def)
qed

subsection \<open>Invariants\<close>

text \<open>No ring is full: the journal never overwrites an entry.\<close>

definition room :: "qman \<Rightarrow> bool" where
  "room q \<longleftrightarrow> length (qm_fifo_ring q) < QM_FIFO_LEN \<and> (\<forall>s. length (qm_slot_ring q s) < QM_SLOT_LEN)"

text \<open>The points a context can be at.\<close>

fun k_ok :: "nat \<Rightarrow> loop_at \<Rightarrow> bool" where
  "k_ok t Top = True"
| "k_ok t (Flows ws) = (t = 3 \<and> length ws \<le> 4)"
| "k_ok t _ = False"

fun pc_ok :: "nat \<Rightarrow> pc \<Rightarrow> bool" where
  "pc_ok t (At Ready) = (t = 1 \<or> t = 2)"
| "pc_ok t (At (Get s)) = (3 \<le> t)"
| "pc_ok t (At k) = k_ok t k"
| "pc_ok t (Read g) = (t = 0)"
| "pc_ok t (Credit g k) = (3 \<le> t \<and> k_ok t k)"
| "pc_ok t (Sub g k) = (3 \<le> t \<and> k_ok t k)"
| "pc_ok t (Rate g a k) = (3 \<le> t \<and> k_ok t k)"
| "pc_ok t (Add g a r k) = ((t = 0 \<or> 3 \<le> t) \<and> k_ok t k)"
| "pc_ok t (Refresh p) = (2 \<le> t \<and> pc_ok t p \<and> (\<forall>s. p \<noteq> At (Get s)))"
| "pc_ok t (Refreshed v p) = (2 \<le> t \<and> pc_ok t p \<and> (\<forall>s. p \<noteq> At (Get s)))"

fun at_ready :: "pc \<Rightarrow> bool" where
  "at_ready (At Ready) = True"
| "at_ready (Refresh p) = at_ready p"
| "at_ready (Refreshed v p) = at_ready p"
| "at_ready _ = False"

definition lf_ok :: "qman \<Rightarrow> bool" where
  "lf_ok q \<longleftrightarrow> q_head q < 256 \<and> q_tail q < 256 \<and> (\<forall>i < lf_len q. TCP_MSS \<le> snd (lf_at q i)) \<and>
     (at_ready (th_pc q 2) \<longrightarrow> q_head q \<noteq> q_tail q)"

definition wheel_ok :: "qman \<Rightarrow> bool" where
  "wheel_ok q \<longleftrightarrow> current_slot q < QM_NUM_SLOTS \<and> skip_slot q \<le> 1 \<and>
     (\<forall>s. qm_slot_ring q s \<noteq> [] \<longrightarrow> s < QM_NUM_SLOTS)"

text \<open>The counters the contexts poll agree with the rings.\<close>

definition fifo_ok :: "qman \<Rightarrow> bool" where
  "fifo_ok q \<longleftrightarrow> unat (queue_status_fifo q) = length (qm_fifo_ring q) + todo (th_pc q 3) \<and>
     length (qm_fifo_ring q) \<le> QM_FIFO_LEN"

definition slots_ok :: "qman \<Rightarrow> bool" where
  "slots_ok q \<longleftrightarrow> (\<forall>s. unat (queue_status q s) + waiting q s = length (qm_slot_ring q s) \<and>
     length (qm_slot_ring q s) \<le> QM_SLOT_LEN)"

subsection \<open>Adding a flow to a queue\<close>

lemma flow_add_cases:
  assumes "room q"
  obtains (fifo) "flow_add_to_queue g a r q =
      q\<lparr>queue_status_fifo := queue_status_fifo q + 1, qm_fifo_ring := qm_fifo_ring q @ [g]\<rparr>"
  | (local) v where "TCP_MSS \<le> v" and "q_head q \<noteq> (q_tail q + 1) AND 255" and "flow_add_to_queue g a r q =
      q\<lparr>queue_local_fifo := (queue_local_fifo q)(q_tail q := (g, v)), q_tail := (q_tail q + 1) AND 255\<rparr>"
  | (slot) s where "s < QM_NUM_SLOTS" and "flow_add_to_queue g a r q =
      q\<lparr>queue_status := (queue_status q)(s := queue_status q s + 1),
        qm_slot_ring := (qm_slot_ring q)(s := qm_slot_ring q s @ [g])\<rparr>"
proof (cases "r = 0")
  case True
  show thesis
  proof (cases "a < TCP_MSS \<or> q_head q = (q_tail q + 1) AND 255")
    case c: True
    with True assms show thesis
      by (intro fifo) (simp add: flow_add_to_queue_def Let_def ring_journal_def room_def QM_LOCAL_FIFO_def)
  next
    case False
    with True show thesis
      by (intro local [of "min a 0x4000"])
        (auto simp: flow_add_to_queue_def Let_def QM_LOCAL_FIFO_def TCP_MSS_def word_nat)
  qed
next
  case False
  have lt: "(x :: u32) AND 511 < QM_NUM_SLOTS" for x
    by (simp add: QM_NUM_SLOTS_def word_less_nat_alt unat_and_511)
  from False assms show thesis
    by (intro slot [OF lt [of "current_slot q + (let slot = drop_bit 8 (drop_bit 10 (r * min TCP_MSS a)) + skip_slot q
            in if 512 \<le> slot then 511 else slot)"]])
      (simp add: flow_add_to_queue_def Let_def ring_journal_def room_def QM_NUM_SLOTS_def
        QM_SLOT_RESOLUTION_TS_CYC_SHIFT_def)
qed

text \<open>The queues without the contexts.\<close>

definition in_rings :: "qman \<Rightarrow> u32 \<Rightarrow> bool" where
  "in_rings q f \<longleftrightarrow> f \<in> low ` set (qm_bump_ring q) \<or> f \<in> low ` set (qm_fifo_ring q) \<or>
     (\<exists>s. f \<in> low ` set (qm_slot_ring q s)) \<or> f \<in> low ` set (lf_flows q)"

definition others :: "qman \<Rightarrow> nat \<Rightarrow> u32 \<Rightarrow> bool" where
  "others q t f \<longleftrightarrow> (\<exists>u < 8. u \<noteq> t \<and> f \<in> low ` set (held (th_pc q u)))"

lemma queued_split:
  "t < 8 \<Longrightarrow> queued q f \<longleftrightarrow> in_rings q f \<or> others q t f \<or> f \<in> low ` set (held (th_pc q t))"
  by (auto simp: queued_def in_rings_def others_def)

lemma lf_len_frame [simp]:
  "lf_len (q\<lparr>queue_status := x0\<rparr>) = lf_len q"
  "lf_len (q\<lparr>queue_status_fifo := x1\<rparr>) = lf_len q"
  "lf_len (q\<lparr>credits := x2\<rparr>) = lf_len q"
  "lf_len (q\<lparr>current_slot := x3\<rparr>) = lf_len q"
  "lf_len (q\<lparr>skip_slot := x4\<rparr>) = lf_len q"
  "lf_len (q\<lparr>qm_fifo_ring := x5\<rparr>) = lf_len q"
  "lf_len (q\<lparr>qm_slot_ring := x6\<rparr>) = lf_len q"
  "lf_len (q\<lparr>qm_bump_ring := x7\<rparr>) = lf_len q"
  "lf_len (q\<lparr>qm_sched_ring := x8\<rparr>) = lf_len q"
  "lf_len (q\<lparr>qm_cc := x9\<rparr>) = lf_len q"
  "lf_len (q\<lparr>qm_avail_credits := x10\<rparr>) = lf_len q"
  "lf_len (q\<lparr>th_pc := x11\<rparr>) = lf_len q"
  "lf_len (q\<lparr>sel_cyc := y\<rparr>) = lf_len q"
  "lf_len (q\<lparr>sel_next_ts := y\<rparr>) = lf_len q"
  by (simp_all add: lf_len_def)

lemma lf_at_frame [simp]:
  "lf_at (q\<lparr>queue_status := x0\<rparr>) i = lf_at q i"
  "lf_at (q\<lparr>queue_status_fifo := x1\<rparr>) i = lf_at q i"
  "lf_at (q\<lparr>credits := x2\<rparr>) i = lf_at q i"
  "lf_at (q\<lparr>current_slot := x3\<rparr>) i = lf_at q i"
  "lf_at (q\<lparr>skip_slot := x4\<rparr>) i = lf_at q i"
  "lf_at (q\<lparr>qm_fifo_ring := x5\<rparr>) i = lf_at q i"
  "lf_at (q\<lparr>qm_slot_ring := x6\<rparr>) i = lf_at q i"
  "lf_at (q\<lparr>qm_bump_ring := x7\<rparr>) i = lf_at q i"
  "lf_at (q\<lparr>qm_sched_ring := x8\<rparr>) i = lf_at q i"
  "lf_at (q\<lparr>qm_cc := x9\<rparr>) i = lf_at q i"
  "lf_at (q\<lparr>qm_avail_credits := x10\<rparr>) i = lf_at q i"
  "lf_at (q\<lparr>th_pc := x11\<rparr>) i = lf_at q i"
  "lf_at (q\<lparr>sel_cyc := y\<rparr>) i = lf_at q i"
  "lf_at (q\<lparr>sel_next_ts := y\<rparr>) i = lf_at q i"
  by (simp_all add: lf_at_def)

lemma lf_flows_frame [simp]:
  "lf_flows (q\<lparr>queue_status := x0\<rparr>) = lf_flows q"
  "lf_flows (q\<lparr>queue_status_fifo := x1\<rparr>) = lf_flows q"
  "lf_flows (q\<lparr>credits := x2\<rparr>) = lf_flows q"
  "lf_flows (q\<lparr>current_slot := x3\<rparr>) = lf_flows q"
  "lf_flows (q\<lparr>skip_slot := x4\<rparr>) = lf_flows q"
  "lf_flows (q\<lparr>qm_fifo_ring := x5\<rparr>) = lf_flows q"
  "lf_flows (q\<lparr>qm_slot_ring := x6\<rparr>) = lf_flows q"
  "lf_flows (q\<lparr>qm_bump_ring := x7\<rparr>) = lf_flows q"
  "lf_flows (q\<lparr>qm_sched_ring := x8\<rparr>) = lf_flows q"
  "lf_flows (q\<lparr>qm_cc := x9\<rparr>) = lf_flows q"
  "lf_flows (q\<lparr>qm_avail_credits := x10\<rparr>) = lf_flows q"
  "lf_flows (q\<lparr>th_pc := x11\<rparr>) = lf_flows q"
  "lf_flows (q\<lparr>sel_cyc := y\<rparr>) = lf_flows q"
  "lf_flows (q\<lparr>sel_next_ts := y\<rparr>) = lf_flows q"
  by (simp_all add: lf_flows_def)

lemma flow_add_frame [simp]:
  "qm_bump_ring (flow_add_to_queue g a r q) = qm_bump_ring q"
  "qm_cc (flow_add_to_queue g a r q) = qm_cc q" "th_pc (flow_add_to_queue g a r q) = th_pc q"
  "credits (flow_add_to_queue g a r q) = credits q" "q_head (flow_add_to_queue g a r q) = q_head q"
  "current_slot (flow_add_to_queue g a r q) = current_slot q"
  "skip_slot (flow_add_to_queue g a r q) = skip_slot q"
  by (simp_all add: flow_add_to_queue_def Let_def)

lemma in_rings_add:
  assumes "room q" and "q_head q < 256" and "q_tail q < 256"
  shows "in_rings (flow_add_to_queue g a r q) f \<longleftrightarrow> in_rings q f \<or> f = low g"
proof (cases rule: flow_add_cases [OF assms(1), of g a r, case_names fifo local slot])
  case fifo
  then show ?thesis by (auto simp: in_rings_def)
next
  case (local v)
  then show ?thesis unfolding local(3) in_rings_def lf_flows_push [OF assms(2,3) local(2)] by auto
next
  case (slot s)
  then show ?thesis by (auto simp: in_rings_def split: if_splits)
qed

subsection \<open>No step loses a flow\<close>

lemma in_rings_frame [simp]:
  "in_rings (goto t p q) f = in_rings q f"
  "in_rings (q\<lparr>queue_status := x0\<rparr>) f = in_rings q f"
  "in_rings (q\<lparr>sel_cyc := y\<rparr>) f = in_rings q f"
  "in_rings (q\<lparr>sel_next_ts := y\<rparr>) f = in_rings q f"
  "in_rings (q\<lparr>queue_status_fifo := x1\<rparr>) f = in_rings q f"
  "in_rings (q\<lparr>credits := x2\<rparr>) f = in_rings q f"
  "in_rings (q\<lparr>current_slot := x3\<rparr>) f = in_rings q f"
  "in_rings (q\<lparr>skip_slot := x4\<rparr>) f = in_rings q f"
  "in_rings (q\<lparr>qm_sched_ring := x5\<rparr>) f = in_rings q f"
  "in_rings (q\<lparr>qm_cc := x6\<rparr>) f = in_rings q f"
  "in_rings (q\<lparr>qm_avail_credits := x7\<rparr>) f = in_rings q f"
  by (simp_all add: in_rings_def goto_def)

lemma others_frame [simp]:
  "others (goto t p q) t f = others q t f"
  "others (flow_add_to_queue g a r q) t f = others q t f"
  "others (q\<lparr>queue_status := x0\<rparr>) t f = others q t f"
  "others (q\<lparr>sel_cyc := y\<rparr>) t f = others q t f"
  "others (q\<lparr>sel_next_ts := y\<rparr>) t f = others q t f"
  "others (q\<lparr>queue_status_fifo := x1\<rparr>) t f = others q t f"
  "others (q\<lparr>credits := x2\<rparr>) t f = others q t f"
  "others (q\<lparr>current_slot := x3\<rparr>) t f = others q t f"
  "others (q\<lparr>skip_slot := x4\<rparr>) t f = others q t f"
  "others (q\<lparr>qm_sched_ring := x5\<rparr>) t f = others q t f"
  "others (q\<lparr>qm_cc := x6\<rparr>) t f = others q t f"
  "others (q\<lparr>qm_avail_credits := x7\<rparr>) t f = others q t f"
  "others (q\<lparr>qm_fifo_ring := x8\<rparr>) t f = others q t f"
  "others (q\<lparr>qm_slot_ring := x9\<rparr>) t f = others q t f"
  "others (q\<lparr>qm_bump_ring := x10\<rparr>) t f = others q t f"
  "others (q\<lparr>q_head := x11\<rparr>) t f = others q t f"
  "others (q\<lparr>q_tail := x12\<rparr>) t f = others q t f"
  "others (q\<lparr>queue_local_fifo := x13\<rparr>) t f = others q t f"
  by (auto simp: others_def goto_def)

lemma goto_frame [simp]:
  "th_pc (goto t p q) t = p" "qm_cc (goto t p q) = qm_cc q"
  "queue_status (goto t p q) = queue_status q"
  "queue_status_fifo (goto t p q) = queue_status_fifo q"
  "credits (goto t p q) = credits q"
  "current_slot (goto t p q) = current_slot q"
  "skip_slot (goto t p q) = skip_slot q"
  "qm_sched_ring (goto t p q) = qm_sched_ring q"
  "qm_avail_credits (goto t p q) = qm_avail_credits q"
  "qm_fifo_ring (goto t p q) = qm_fifo_ring q"
  "qm_slot_ring (goto t p q) = qm_slot_ring q"
  "qm_bump_ring (goto t p q) = qm_bump_ring q"
  "q_head (goto t p q) = q_head q"
  "q_tail (goto t p q) = q_tail q"
  "queue_local_fifo (goto t p q) = queue_local_fifo q"
  "lf_flows (goto t p q) = lf_flows q"
  "lf_len (goto t p q) = lf_len q"
  "lf_at (goto t p q) = lf_at q"
  by (simp_all add: goto_def fun_eq_iff)

lemma schedule_frame [simp]:
  "in_rings (schedule g q) f = in_rings q f" "others (schedule g q) t f = others q t f"
  "th_pc (schedule g q) = th_pc q" "qm_cc (schedule g q) = qm_cc q"
  by (simp_all add: schedule_def Let_def)

lemma sub_avail_frame [simp]:
  "in_rings (sub_avail f0 q) f = in_rings q f" "others (sub_avail f0 q) t f = others q t f"
  "th_pc (sub_avail f0 q) = th_pc q"
  "cc_tx_avail (qm_cc (sub_avail f0 q) f) =
     (if f = f0 then subsat (cc_tx_avail (qm_cc q f)) TCP_MSS else cc_tx_avail (qm_cc q f))"
  by (simp_all add: sub_avail_def Let_def)

lemma subsat_0 [simp]: "subsat 0 y = 0"
  by (simp add: subsat_def)

lemma subsat_small: "\<not> y < x \<Longrightarrow> subsat x y = 0"
  by (auto simp: subsat_def)

text \<open>Where the refresh leads does not matter for the flows.\<close>

lemma round_done_cases:
  obtains "round_done t k q = goto t (Refresh (At k)) q" | "round_done t k q = goto t (At k) q"
  by (cases "credits q < FLOW_QM_CREDITS div 4") (auto simp: round_done_def)

lemma round_done_frame [simp]:
  "in_rings (round_done t k q) f = in_rings q f" "others (round_done t k q) t f = others q t f"
  "held (th_pc (round_done t k q) t) = kheld k" "qm_cc (round_done t k q) = qm_cc q"
  by (simp_all add: round_done_def)

definition keeps :: "qman \<Rightarrow> qman \<Rightarrow> bool" where
  "keeps q q' \<longleftrightarrow>
     (\<forall>f. (cc_tx_avail (qm_cc q' f) \<noteq> 0 \<longrightarrow> cc_tx_avail (qm_cc q f) \<noteq> 0) \<and>
        (queued q f \<longrightarrow> cc_tx_avail (qm_cc q' f) \<noteq> 0 \<longrightarrow> queued q' f) \<and> (queued q' f \<longrightarrow> queued q f))"

lemma keeps_refl [simp]: "keeps q q"
  by (simp add: keeps_def)

lemma keepsI:
  assumes "t < 8" and "\<And>f. others q' t f = others q t f"
    and "\<And>f. cc_tx_avail (qm_cc q' f) = cc_tx_avail (qm_cc q f)"
    and "\<And>f. in_rings q' f \<or> f \<in> low ` set (held (th_pc q' t)) \<longleftrightarrow>
          in_rings q f \<or> f \<in> low ` set (held (th_pc q t))"
  shows "keeps q q'"
proof -
  have "queued q' f = queued q f" for f using assms(2,4) [of f] unfolding queued_split [OF assms(1)] by blast
  with assms(3) show ?thesis by (simp add: keeps_def)
qed

lemma keeps_goto: "t < 8 \<Longrightarrow> held p = held (th_pc q t) \<Longrightarrow> keeps q (goto t p q)"
  by (rule keepsI [of t]) simp_all

lemma keeps_refresh:
  assumes "t < 8"
  shows "th_pc q t = Refresh p \<Longrightarrow> keeps q (refresh_issue t p q)"
    and "th_pc q t = Refreshed v p \<Longrightarrow> keeps q (refresh_credits t v p q)"
  by (rule keepsI [OF assms]; simp add: refresh_issue_def refresh_credits_def)+

lemma keeps_add:
  assumes "t < 8" and "room q" and "q_head q < 256" and "q_tail q < 256" and "th_pc q t = Add g a r k"
  shows "keeps q (round_done t k (flow_add_to_queue g a r q))"
    and "keeps q (goto t (At k) (flow_add_to_queue g a r q))"
  by (rule keepsI [OF assms(1)]; use assms(5) in \<open>auto simp: in_rings_add [OF assms(2-4)]\<close>)+

lemma keeps_serve:
  assumes "t < 8" and "room q" and "q_head q < 256" and "q_tail q < 256"
  shows "keeps q (serve t dec q)"
proof (cases "th_pc q t")
  case (Credit g k)
  then show ?thesis by (intro keepsI [OF assms(1)]) (simp_all add: serve_def)
next
  case (Sub g k)
  define a where "a = cc_tx_avail (qm_cc q (low g))"
  have s: "serve t dec q = goto t (Rate g a k) (sub_avail (low g) q)" using Sub by (simp add: serve_def a_def)
  show ?thesis
  proof (cases "TCP_MSS < a")
    case True
    then show ?thesis unfolding s keeps_def queued_split [OF assms(1)] using Sub by auto
  next
    case False
    then have "cc_tx_avail (qm_cc (serve t dec q) (low g)) = 0" by (simp add: s a_def subsat_small)
    with False show ?thesis unfolding s keeps_def queued_split [OF assms(1)] using Sub by auto
  qed
next
  case (Rate g a k)
  then show ?thesis by (intro keepsI [OF assms(1)]) (simp_all add: serve_def)
next
  case (Add g a r k)
  then show ?thesis using keeps_add [OF assms Add] by (simp add: serve_def)
qed (auto simp: serve_def intro: keeps_refresh [OF assms(1)])

lemma keeps_postproc_poll:
  assumes "room q" and "q_head q < 256" and "q_tail q < 256" and "pc_ok 0 (th_pc q 0)"
  shows "keeps q (queue_postproc_poll q)"
proof (cases "th_pc q 0")
  case (At k)
  with assms(4) have k: "kheld k = []" by (cases k) auto
  show ?thesis
  proof (cases "qm_bump_ring q")
    case (Cons g gs)
    then show ?thesis using At k
      by (intro keepsI [of 0]) (auto simp: queue_postproc_poll_def in_rings_def)
  qed (simp add: queue_postproc_poll_def At)
next
  case (Read g)
  then show ?thesis by (intro keepsI [of 0]) (simp_all add: queue_postproc_poll_def Let_def)
next
  case (Add g a r k)
  then show ?thesis using keeps_add(2) [OF _ assms(1-3) Add] by (simp add: queue_postproc_poll_def)
qed (simp_all add: queue_postproc_poll_def)

lemma keeps_select_slot:
  assumes "pc_ok 1 (th_pc q 1)"
  shows "keeps q (select_slot now q)"
proof -
  have "held (th_pc q 1) = []" using assms by (cases "(1 :: nat, th_pc q 1)" rule: pc_ok.cases) auto
  then show ?thesis by (intro keepsI [of 1]) (simp_all add: select_slot_def Let_def)
qed

lemma keeps_localfifo_poll:
  assumes "room q" and "lf_ok q" and "pc_ok 2 (th_pc q 2)"
  shows "keeps q (queue_localfifo_poll q)"
proof (cases "th_pc q 2 = At Ready \<and> credits q \<noteq> 0")
  case True
  have ht: "q_head q < 256" "q_tail q < 256" "q_head q \<noteq> q_tail q" using assms(2) True by (auto simp: lf_ok_def)
  obtain g v where e: "queue_local_fifo q (q_head q) = (g, v)" by fastforce
  define q2 where "q2 = sub_avail (low g) (schedule g (q\<lparr>q_head := (q_head q + 1) AND 255\<rparr>))"
  have h2: "q_head q2 < 256" "q_tail q2 < 256" "room q2"
    using lf_pop(4) [OF ht refl] ht(2) assms(1)
    by (simp_all add: q2_def room_def sub_avail_def schedule_def Let_def)
  have r2: "in_rings q f \<longleftrightarrow> in_rings q2 f \<or> f = low g" for f
  proof -
    have "in_rings q2 f = in_rings (q\<lparr>q_head := (q_head q + 1) AND 255\<rparr>) f" by (simp add: q2_def)
    then show ?thesis using lf_flows_pop [OF ht] e by (auto simp: in_rings_def)
  qed
  have eq: "queue_localfifo_poll q = round_done 2 Top (flow_add_to_queue (low g) (v - TCP_MSS) 0 q2)"
    using True e by (simp add: queue_localfifo_poll_def q2_def QM_LOCAL_FIFO_def Let_def)
  have low2: "low (low g) = low g" by (simp add: and.assoc)
  have o2: "others q2 2 f = others q 2 f" for f by (simp add: q2_def)
  have a2: "cc_tx_avail (qm_cc q2 f) \<noteq> 0 \<Longrightarrow> cc_tx_avail (qm_cc q f) \<noteq> 0" for f
    by (auto simp: q2_def split: if_splits)
  have h: "held (th_pc q 2) = []" using True by simp
  define q3 where "q3 = flow_add_to_queue (low g) (v - TCP_MSS) 0 q2"
  have "in_rings q3 f = in_rings q f" for f
    unfolding q3_def in_rings_add [OF h2(3,1,2)] low2 r2 ..
  moreover have "others q3 2 f = others q 2 f" for f by (simp add: q3_def o2)
  ultimately have "queued (round_done 2 Top q3) f = queued q f" for f
    by (simp add: queued_split [of 2] h)
  moreover have "cc_tx_avail (qm_cc (round_done 2 Top q3) f) \<noteq> 0 \<Longrightarrow> cc_tx_avail (qm_cc q f) \<noteq> 0" for f
    using a2 by (simp add: q3_def)
  ultimately show ?thesis unfolding keeps_def eq q3_def [symmetric] by blast
next
  case False
  show ?thesis
  proof (cases "th_pc q 2")
    case (At k)
    with assms(3) have k: "k = Top \<or> k = Ready" by (cases k) auto
    then show ?thesis
    proof
      assume "k = Top"
      then show ?thesis using At by (cases "q_head q = q_tail q") (simp_all add: queue_localfifo_poll_def keeps_goto)
    next
      assume "k = Ready"
      then show ?thesis using At False by (simp add: queue_localfifo_poll_def keeps_goto)
    qed
  qed (simp_all add: queue_localfifo_poll_def keeps_refresh)
qed

lemma takeWhile_padded:
  "(\<And>x. x \<in> set xs \<Longrightarrow> x \<noteq> (0 :: u32)) \<Longrightarrow> takeWhile (\<lambda>w. w \<noteq> 0) (take n xs @ replicate m 0) = take n xs"
  by (subst takeWhile_append2) (auto dest: in_set_takeD simp: takeWhile_eq_Nil_iff)

lemma keeps_fifo_poll:
  assumes "room q" and "q_head q < 256" and "q_tail q < 256" and "pc_ok 3 (th_pc q 3)"
    and "\<And>g. g \<in> set (qm_fifo_ring q) \<Longrightarrow> g \<noteq> 0"
  shows "keeps q (queue_fifo_poll q)"
proof (cases "\<exists>k. th_pc q 3 = At k")
  case True
  then obtain k where k: "th_pc q 3 = At k" by blast
  show ?thesis
  proof (cases k)
    case (Get s)
    have "set (qm_fifo_ring q) = set (take 4 (qm_fifo_ring q)) \<union> set (drop 4 (qm_fifo_ring q))"
      by (metis append_take_drop_id set_append)
    with Get k show ?thesis
      by (intro keepsI [of 3])
        (auto simp: queue_fifo_poll_def ring_get_freely_def Let_def takeWhile_padded [OF assms(5)] in_rings_def)
  next
    case (Flows ws)
    with k show ?thesis
      by (intro keepsI [of 3]) (auto simp: queue_fifo_poll_def split: list.splits)
  qed (use k assms(4) in \<open>auto simp: queue_fifo_poll_def intro!: keepsI [of 3]\<close>)
next
  case False
  then have "queue_fifo_poll q = serve 3 1 q" by (cases "th_pc q 3") (auto simp: queue_fifo_poll_def)
  then show ?thesis using keeps_serve [OF _ assms(1-3), of 3] by simp
qed

lemma slots_pop:
  assumes "ring s = g # gs"
  shows "(\<exists>u. f \<in> low ` set (ring u)) \<longleftrightarrow> f = low g \<or> (\<exists>u. f \<in> low ` set ((ring(s := gs)) u))"
proof -
  have "(\<Union>u. set (ring u)) = insert g (\<Union>u. set ((ring(s := gs)) u))"
  proof (intro equalityI subsetI)
    fix x assume "x \<in> (\<Union>u. set (ring u))"
    then obtain u where "x \<in> set (ring u)" by blast
    then show "x \<in> insert g (\<Union>u. set ((ring(s := gs)) u))"
      by (cases "u = s") (auto simp: assms intro: exI [of _ u])
  next
    fix x assume "x \<in> insert g (\<Union>u. set ((ring(s := gs)) u))"
    then obtain u where "x = g \<or> x \<in> set ((ring(s := gs)) u)" by blast
    then have "x \<in> set (ring s) \<or> x \<in> set (ring u)" using assms by (auto split: if_splits)
    then show "x \<in> (\<Union>u. set (ring u))" by blast
  qed
  then have "low ` (\<Union>u. set (ring u)) = insert (low g) (low ` (\<Union>u. set ((ring(s := gs)) u)))" by simp
  then have "f \<in> low ` (\<Union>u. set (ring u)) \<longleftrightarrow> f = low g \<or> f \<in> low ` (\<Union>u. set ((ring(s := gs)) u))" by simp
  then show ?thesis unfolding image_UN UN_iff by simp
qed

lemma keeps_slot_poll:
  assumes "room q" and "q_head q < 256" and "q_tail q < 256" and "pc_ok t (th_pc q t)" and "4 \<le> t" and "t < 8"
    and "\<And>g s. g \<in> set (qm_slot_ring q s) \<Longrightarrow> g \<noteq> 0"
  shows "keeps q (queue_slot_poll t q)"
proof (cases "\<exists>k. th_pc q t = At k")
  case True
  then obtain k where k: "th_pc q t = At k" by blast
  show ?thesis
  proof (cases k)
    case (Get s)
    show ?thesis
    proof (cases "qm_slot_ring q s")
      case Nil
      then have "(qm_slot_ring q)(s := []) = qm_slot_ring q" by (rule fun_upd_idem)
      with Nil Get k show ?thesis
        by (intro keepsI [of t]) (auto simp: queue_slot_poll_def ring_get_freely_def Let_def in_rings_def assms(6))
    next
      case (Cons g gs)
      moreover have "g \<noteq> 0" using assms(7) [of g s] Cons by simp
      ultimately have eq: "queue_slot_poll t q =
          goto t (Credit g Top) (q\<lparr>qm_slot_ring := (qm_slot_ring q)(s := gs)\<rparr>)"
        using Get k by (simp add: queue_slot_poll_def ring_get_freely_def Let_def)
      have "in_rings q f \<longleftrightarrow> in_rings (queue_slot_poll t q) f \<or> f = low g" for f
        unfolding eq by (simp add: in_rings_def slots_pop [of "qm_slot_ring q", OF Cons]) blast
      then show ?thesis using Get k
        by (intro keepsI [OF assms(6)]) (auto simp: eq)
    qed
  qed (use k assms(4-6) in \<open>auto simp: queue_slot_poll_def Let_def intro!: keepsI [of t]\<close>)
next
  case False
  then have "queue_slot_poll t q = serve t 0 q" by (cases "th_pc q t") (auto simp: queue_slot_poll_def)
  then show ?thesis using keeps_serve [OF assms(6) assms(1-3)] by simp
qed

subsection \<open>The program counters\<close>

lemma th_pc_frame [simp]:
  "th_pc (refresh_issue t p q) t = Refreshed (qm_avail_credits q) p" "th_pc (refresh_credits t v p q) t = p"
  by (simp_all add: refresh_issue_def refresh_credits_def)

lemma pc_ok_k [simp]: "k_ok t k \<Longrightarrow> pc_ok t (At k)"
  by (cases k) auto

lemma pc_ok_round_done: "2 \<le> t \<Longrightarrow> k_ok t k \<Longrightarrow> pc_ok t (th_pc (round_done t k q) t)"
  by (cases k) (auto simp: round_done_def)

lemma pc_ok_serve: "3 \<le> t \<Longrightarrow> pc_ok t (th_pc q t) \<Longrightarrow> pc_ok t (th_pc (serve t d q) t)"
  by (cases "th_pc q t") (simp_all add: serve_def pc_ok_round_done)

lemma pc_ok_thread:
  assumes "pc_ok t (th_pc q t)" and "t < 8"
  shows "pc_ok t (th_pc (qm_thread t now q) t)"
proof -
  consider "t = 0" | "t = 1" | "t = 2" | "t = 3" | "4 \<le> t" by linarith
  then show ?thesis
  proof cases
    case 1
    with assms(1) show ?thesis
      by (cases "th_pc q 0") (simp_all add: qm_thread_def queue_postproc_poll_def Let_def split: list.splits)
  next
    case 2
    with assms(1) show ?thesis by (simp add: qm_thread_def select_slot_def Let_def)
  next
    case 3
    show ?thesis
    proof (cases "th_pc q 2")
      case (At k)
      with 3 assms(1) show ?thesis
        by (cases k) (simp_all add: qm_thread_def queue_localfifo_poll_def Let_def pc_ok_round_done split: prod.splits)
    qed (use 3 assms(1) in \<open>simp_all add: qm_thread_def queue_localfifo_poll_def\<close>)
  next
    case 4
    show ?thesis
    proof (cases "th_pc q 3")
      case (At k)
      with 4 assms(1) show ?thesis
        by (cases k) (auto simp: qm_thread_def queue_fifo_poll_def ring_get_freely_def Let_def split: list.splits)
    qed (use 4 assms(1) pc_ok_serve [of 3 q] in \<open>simp_all add: qm_thread_def queue_fifo_poll_def\<close>)
  next
    case 5
    then have eq: "qm_thread t now q = queue_slot_poll t q" by (simp add: qm_thread_def)
    show ?thesis
    proof (cases "th_pc q t")
      case (At k)
      with 5 assms(1) show ?thesis unfolding eq
        by (cases k) (simp_all add: queue_slot_poll_def ring_get_freely_def Let_def)
    qed (use 5 assms(1) pc_ok_serve [of t q] in \<open>simp_all add: eq queue_slot_poll_def\<close>)
  qed
qed

lemma goto_other [simp]: "u \<noteq> t \<Longrightarrow> th_pc (goto t p q) u = th_pc q u"
  by (simp add: goto_def)

lemma round_done_other [simp]: "u \<noteq> t \<Longrightarrow> th_pc (round_done t k q) u = th_pc q u"
  by (simp add: round_done_def)

lemma refresh_other [simp]:
  "u \<noteq> t \<Longrightarrow> th_pc (refresh_issue t p q) u = th_pc q u"
  "u \<noteq> t \<Longrightarrow> th_pc (refresh_credits t v p q) u = th_pc q u"
  by (simp_all add: refresh_issue_def refresh_credits_def)

lemma serve_other [simp]: "u \<noteq> t \<Longrightarrow> th_pc (serve t d q) u = th_pc q u"
  by (cases "th_pc q t") (simp_all add: serve_def)

lemma postproc_other: "u \<noteq> 0 \<Longrightarrow> th_pc (queue_postproc_poll q) u = th_pc q u"
  by (cases "th_pc q 0") (simp_all add: queue_postproc_poll_def Let_def split: list.split)

lemma select_other: "u \<noteq> 1 \<Longrightarrow> th_pc (select_slot now q) u = th_pc q u"
  by (simp add: select_slot_def Let_def)

lemma localfifo_other: "u \<noteq> 2 \<Longrightarrow> th_pc (queue_localfifo_poll q) u = th_pc q u"
  by (cases "th_pc q 2")
    (simp_all add: queue_localfifo_poll_def Let_def case_prod_beta split: loop_at.split)

lemma fifo_other: "u \<noteq> 3 \<Longrightarrow> th_pc (queue_fifo_poll q) u = th_pc q u"
  by (cases "th_pc q 3")
    (simp_all add: queue_fifo_poll_def ring_get_freely_def Let_def split: loop_at.split list.split)

lemma slot_other: "u \<noteq> t \<Longrightarrow> th_pc (queue_slot_poll t q) u = th_pc q u"
  by (cases "th_pc q t")
    (simp_all add: queue_slot_poll_def ring_get_freely_def Let_def split: loop_at.split)

lemma thread_other: "u \<noteq> t \<Longrightarrow> th_pc (qm_thread t now q) u = th_pc q u"
  by (simp add: qm_thread_def postproc_other select_other localfifo_other fifo_other slot_other)

subsection \<open>The counters\<close>

lemma lf_ok_frame [simp]:
  "lf_ok (q\<lparr>queue_status := x0\<rparr>) = lf_ok q"
  "lf_ok (q\<lparr>queue_status_fifo := x2\<rparr>) = lf_ok q"
  "lf_ok (q\<lparr>credits := x3\<rparr>) = lf_ok q"
  "lf_ok (q\<lparr>current_slot := x4\<rparr>) = lf_ok q"
  "lf_ok (q\<lparr>skip_slot := x5\<rparr>) = lf_ok q"
  "lf_ok (q\<lparr>qm_fifo_ring := x8\<rparr>) = lf_ok q"
  "lf_ok (q\<lparr>qm_slot_ring := x9\<rparr>) = lf_ok q"
  "lf_ok (q\<lparr>qm_bump_ring := x10\<rparr>) = lf_ok q"
  "lf_ok (q\<lparr>qm_sched_ring := x11\<rparr>) = lf_ok q"
  "lf_ok (q\<lparr>qm_cc := x12\<rparr>) = lf_ok q"
  "lf_ok (q\<lparr>qm_avail_credits := x13\<rparr>) = lf_ok q"
  "lf_ok (q\<lparr>sel_next_ts := x14\<rparr>) = lf_ok q"
  "lf_ok (q\<lparr>sel_cyc := x15\<rparr>) = lf_ok q"
  by (simp_all add: lf_ok_def)

lemma wheel_ok_frame [simp]:
  "wheel_ok (q\<lparr>queue_status := x0\<rparr>) = wheel_ok q"
  "wheel_ok (q\<lparr>queue_local_fifo := x1\<rparr>) = wheel_ok q"
  "wheel_ok (q\<lparr>queue_status_fifo := x2\<rparr>) = wheel_ok q"
  "wheel_ok (q\<lparr>credits := x3\<rparr>) = wheel_ok q"
  "wheel_ok (q\<lparr>q_head := x6\<rparr>) = wheel_ok q"
  "wheel_ok (q\<lparr>q_tail := x7\<rparr>) = wheel_ok q"
  "wheel_ok (q\<lparr>qm_fifo_ring := x8\<rparr>) = wheel_ok q"
  "wheel_ok (q\<lparr>qm_bump_ring := x10\<rparr>) = wheel_ok q"
  "wheel_ok (q\<lparr>qm_sched_ring := x11\<rparr>) = wheel_ok q"
  "wheel_ok (q\<lparr>qm_cc := x12\<rparr>) = wheel_ok q"
  "wheel_ok (q\<lparr>qm_avail_credits := x13\<rparr>) = wheel_ok q"
  "wheel_ok (q\<lparr>sel_next_ts := x14\<rparr>) = wheel_ok q"
  "wheel_ok (q\<lparr>sel_cyc := x15\<rparr>) = wheel_ok q"
  by (simp_all add: wheel_ok_def)

lemma fifo_ok_frame [simp]:
  "fifo_ok (q\<lparr>queue_status := x0\<rparr>) = fifo_ok q"
  "fifo_ok (q\<lparr>queue_local_fifo := x1\<rparr>) = fifo_ok q"
  "fifo_ok (q\<lparr>credits := x3\<rparr>) = fifo_ok q"
  "fifo_ok (q\<lparr>current_slot := x4\<rparr>) = fifo_ok q"
  "fifo_ok (q\<lparr>skip_slot := x5\<rparr>) = fifo_ok q"
  "fifo_ok (q\<lparr>q_head := x6\<rparr>) = fifo_ok q"
  "fifo_ok (q\<lparr>q_tail := x7\<rparr>) = fifo_ok q"
  "fifo_ok (q\<lparr>qm_slot_ring := x9\<rparr>) = fifo_ok q"
  "fifo_ok (q\<lparr>qm_bump_ring := x10\<rparr>) = fifo_ok q"
  "fifo_ok (q\<lparr>qm_sched_ring := x11\<rparr>) = fifo_ok q"
  "fifo_ok (q\<lparr>qm_cc := x12\<rparr>) = fifo_ok q"
  "fifo_ok (q\<lparr>qm_avail_credits := x13\<rparr>) = fifo_ok q"
  "fifo_ok (q\<lparr>sel_next_ts := x14\<rparr>) = fifo_ok q"
  "fifo_ok (q\<lparr>sel_cyc := x15\<rparr>) = fifo_ok q"
  by (simp_all add: fifo_ok_def)

lemma waiting_frame [simp]:
  "waiting (q\<lparr>queue_status := x0\<rparr>) s = waiting q s"
  "waiting (q\<lparr>queue_local_fifo := x1\<rparr>) s = waiting q s"
  "waiting (q\<lparr>queue_status_fifo := x2\<rparr>) s = waiting q s"
  "waiting (q\<lparr>credits := x3\<rparr>) s = waiting q s"
  "waiting (q\<lparr>current_slot := x4\<rparr>) s = waiting q s"
  "waiting (q\<lparr>skip_slot := x5\<rparr>) s = waiting q s"
  "waiting (q\<lparr>q_head := x6\<rparr>) s = waiting q s"
  "waiting (q\<lparr>q_tail := x7\<rparr>) s = waiting q s"
  "waiting (q\<lparr>qm_fifo_ring := x8\<rparr>) s = waiting q s"
  "waiting (q\<lparr>qm_slot_ring := x9\<rparr>) s = waiting q s"
  "waiting (q\<lparr>qm_bump_ring := x10\<rparr>) s = waiting q s"
  "waiting (q\<lparr>qm_sched_ring := x11\<rparr>) s = waiting q s"
  "waiting (q\<lparr>qm_cc := x12\<rparr>) s = waiting q s"
  "waiting (q\<lparr>qm_avail_credits := x13\<rparr>) s = waiting q s"
  "waiting (q\<lparr>sel_next_ts := x14\<rparr>) s = waiting q s"
  "waiting (q\<lparr>sel_cyc := x15\<rparr>) s = waiting q s"
  by (simp_all add: waiting_def)

lemma slots_ok_frame [simp]:
  "slots_ok (q\<lparr>queue_local_fifo := x1\<rparr>) = slots_ok q"
  "slots_ok (q\<lparr>queue_status_fifo := x2\<rparr>) = slots_ok q"
  "slots_ok (q\<lparr>credits := x3\<rparr>) = slots_ok q"
  "slots_ok (q\<lparr>current_slot := x4\<rparr>) = slots_ok q"
  "slots_ok (q\<lparr>skip_slot := x5\<rparr>) = slots_ok q"
  "slots_ok (q\<lparr>q_head := x6\<rparr>) = slots_ok q"
  "slots_ok (q\<lparr>q_tail := x7\<rparr>) = slots_ok q"
  "slots_ok (q\<lparr>qm_fifo_ring := x8\<rparr>) = slots_ok q"
  "slots_ok (q\<lparr>qm_bump_ring := x10\<rparr>) = slots_ok q"
  "slots_ok (q\<lparr>qm_sched_ring := x11\<rparr>) = slots_ok q"
  "slots_ok (q\<lparr>qm_cc := x12\<rparr>) = slots_ok q"
  "slots_ok (q\<lparr>qm_avail_credits := x13\<rparr>) = slots_ok q"
  "slots_ok (q\<lparr>sel_next_ts := x14\<rparr>) = slots_ok q"
  "slots_ok (q\<lparr>sel_cyc := x15\<rparr>) = slots_ok q"
  by (simp_all add: slots_ok_def)

definition aux_ok :: "qman \<Rightarrow> bool" where
  "aux_ok q \<longleftrightarrow> lf_ok q \<and> wheel_ok q \<and> fifo_ok q \<and> slots_ok q"

lemma aux_ok_frame [simp]:
  "aux_ok (q\<lparr>credits := x3\<rparr>) = aux_ok q"
  "aux_ok (q\<lparr>qm_bump_ring := x10\<rparr>) = aux_ok q"
  "aux_ok (q\<lparr>qm_sched_ring := x11\<rparr>) = aux_ok q"
  "aux_ok (q\<lparr>qm_cc := x12\<rparr>) = aux_ok q"
  "aux_ok (q\<lparr>qm_avail_credits := x13\<rparr>) = aux_ok q"
  "aux_ok (schedule g q) = aux_ok q" "aux_ok (sub_avail f q) = aux_ok q"
  by (simp_all add: aux_ok_def schedule_def sub_avail_def Let_def)

lemma unat_Suc_small: "unat (x :: u32) + 1 < 2 ^ 32 \<Longrightarrow> unat (x + 1) = unat x + 1"
  using unat_add_exact [of x 1] by simp

lemma k_held_le: "k_ok t k \<Longrightarrow> length (kheld k) \<le> 4"
  by (cases k) (auto intro: order_trans [OF length_takeWhile_le])

lemma todo_le: "pc_ok t p \<Longrightarrow> todo p \<le> 5"
  by (induction t p rule: pc_ok.induct) (auto dest!: k_held_le intro: order_trans [OF length_takeWhile_le])

lemma aux_ok_add:
  assumes "room q" and "aux_ok q" and "pc_ok 3 (th_pc q 3)"
  shows "aux_ok (flow_add_to_queue g a r q)"
proof (cases rule: flow_add_cases [OF assms(1), of g a r, case_names fifo local slot])
  case fifo
  have "unat (queue_status_fifo q) + 1 < 2 ^ 32" "length (qm_fifo_ring q) < QM_FIFO_LEN"
    using assms(1,2) todo_le [OF assms(3)] by (auto simp: aux_ok_def fifo_ok_def room_def QM_FIFO_LEN_def)
  then show ?thesis using assms(2) by (simp add: fifo aux_ok_def fifo_ok_def unat_Suc_small)
next
  case (local v)
  have ht: "q_head q < 256" "q_tail q < 256" using assms(2) by (auto simp: aux_ok_def lf_ok_def)
  note p = lf_push [OF ht local(2) refl, where e = "(g, v)"]
  have "lf_ok (flow_add_to_queue g a r q)"
    using assms(2) p local(1,2) unfolding local(3)
    by (auto simp: aux_ok_def lf_ok_def less_Suc_eq simp del: lf_at_frame)
  then show ?thesis using assms(2) by (simp add: local(3) aux_ok_def)
next
  case (slot s)
  have "unat (queue_status q s) + 1 < 2 ^ 32" "length (qm_slot_ring q s) < QM_SLOT_LEN"
  proof -
    have "unat (queue_status q s) + waiting q s = length (qm_slot_ring q s)" using assms(2)
      by (simp add: aux_ok_def slots_ok_def)
    moreover show "length (qm_slot_ring q s) < QM_SLOT_LEN" using assms(1) by (simp add: room_def)
    ultimately show "unat (queue_status q s) + 1 < 2 ^ 32" by (simp add: QM_SLOT_LEN_def)
  qed
  then show ?thesis using assms(2) slot(1) unfolding slot(2)
    by (auto simp: aux_ok_def slots_ok_def wheel_ok_def unat_Suc_small)
qed

lemma waiting_goto:
  assumes "4 \<le> t" and "t < 8"
  shows "waiting (goto t p q) s + of_bool (th_pc q t = At (Get s)) = waiting q s + of_bool (p = At (Get s))"
proof -
  have w: "waiting q s = of_bool (th_pc q 4 = At (Get s)) + of_bool (th_pc q 5 = At (Get s)) +
      of_bool (th_pc q 6 = At (Get s)) + of_bool (th_pc q 7 = At (Get s))" for q
    by (simp add: waiting_def upt_conv_Cons)
  from assms have "t = 4 \<or> t = 5 \<or> t = 6 \<or> t = 7" by linarith
  then show ?thesis by (auto simp: w goto_def)
qed

lemma waiting_goto_other: "t < 4 \<Longrightarrow> waiting (goto t p q) s = waiting q s"
  by (simp add: waiting_def goto_def upt_conv_Cons)

text \<open>Moving a context on keeps the counters when neither point is counted, or both alike.\<close>

definition same_counts :: "nat \<Rightarrow> pc \<Rightarrow> pc \<Rightarrow> bool" where
  "same_counts t p p' \<longleftrightarrow> (t = 3 \<longrightarrow> todo p' = todo p) \<and> (4 \<le> t \<longrightarrow> (\<forall>s. p \<noteq> At (Get s) \<and> p' \<noteq> At (Get s)))"

lemma aux_ok_goto:
  assumes "aux_ok q" and "t < 8" and "same_counts t (th_pc q t) p" and "t = 2 \<longrightarrow> at_ready p \<longrightarrow> q_head q \<noteq> q_tail q"
  shows "aux_ok (goto t p q)"
proof -
  have "lf_ok (goto t p q)" using assms(1,4) by (cases "t = 2") (auto simp: aux_ok_def lf_ok_def)
  moreover have "wheel_ok (goto t p q)" using assms(1) by (simp add: aux_ok_def wheel_ok_def)
  moreover have "fifo_ok (goto t p q)" using assms(1,3)
    by (cases "t = 3") (auto simp: aux_ok_def fifo_ok_def same_counts_def)
  moreover have "waiting (goto t p q) s = waiting q s" for s
    using assms(2,3) waiting_goto [of t p q s] waiting_goto_other [of t p q s]
    by (cases "4 \<le> t") (auto simp: same_counts_def)
  then have "slots_ok (goto t p q)" using assms(1) by (simp add: aux_ok_def slots_ok_def)
  ultimately show ?thesis by (simp add: aux_ok_def)
qed

lemma part_ok_goto [simp]:
  "t \<noteq> 2 \<Longrightarrow> lf_ok (goto t p q) = lf_ok q" "wheel_ok (goto t p q) = wheel_ok q"
  "t \<noteq> 3 \<Longrightarrow> fifo_ok (goto t p q) = fifo_ok q" "t < 4 \<Longrightarrow> slots_ok (goto t p q) = slots_ok q"
  by (simp_all add: lf_ok_def wheel_ok_def fifo_ok_def slots_ok_def waiting_goto_other)

lemma part_ok_schedule [simp]:
  "lf_ok (schedule g q) = lf_ok q" "wheel_ok (schedule g q) = wheel_ok q"
  "fifo_ok (schedule g q) = fifo_ok q" "slots_ok (schedule g q) = slots_ok q"
  "qm_fifo_ring (schedule g q) = qm_fifo_ring q" "queue_status_fifo (schedule g q) = queue_status_fifo q"
  by (simp_all add: schedule_def Let_def)

lemma aux_ok_round_done:
  assumes "aux_ok q" and "t < 8" and "k_ok t k" and "same_counts t (th_pc q t) (At k)"
  shows "aux_ok (round_done t k q)"
proof -
  have "same_counts t (th_pc q t) (Refresh (At k))" using assms(4) by (auto simp: same_counts_def)
  moreover have "\<not> at_ready (At k)" using assms(3) by (cases k) auto
  ultimately show ?thesis using assms by (auto simp: round_done_def intro!: aux_ok_goto)
qed

lemma aux_ok_refresh:
  assumes "aux_ok q" and "t < 8"
  shows "th_pc q t = Refresh p \<Longrightarrow> aux_ok (refresh_issue t p q)"
    and "th_pc q t = Refreshed v p \<Longrightarrow> \<forall>s. p \<noteq> At (Get s) \<Longrightarrow> aux_ok (refresh_credits t v p q)"
proof -
  have r: "t = 2 \<Longrightarrow> at_ready (th_pc q t) \<Longrightarrow> q_head q \<noteq> q_tail q" using assms(1) by (auto simp: aux_ok_def lf_ok_def)
  show "aux_ok (refresh_issue t p q)" if "th_pc q t = Refresh p"
    using that assms r unfolding refresh_issue_def by (intro aux_ok_goto) (auto simp: same_counts_def)
  show "aux_ok (refresh_credits t v p q)" if "th_pc q t = Refreshed v p" "\<forall>s. p \<noteq> At (Get s)"
    using that assms r unfolding refresh_credits_def by (intro aux_ok_goto) (auto simp: same_counts_def)
qed

lemma aux_ok_serve:
  assumes "room q" and "aux_ok q" and "t < 8" and "3 \<le> t" and "dec = (if t = 3 then 1 else 0)"
    and "pc_ok t (th_pc q t)" and "pc_ok 3 (th_pc q 3)"
  shows "aux_ok (serve t dec q)"
proof (cases "th_pc q t")
  case (Credit g k)
  show ?thesis
  proof (cases "credits q = 0")
    case True
    then show ?thesis using Credit assms by (auto simp: serve_def same_counts_def intro!: aux_ok_goto)
  next
    case False
    show ?thesis
    proof (cases "t = 3")
      case True
      have st: "unat (queue_status_fifo q) = length (qm_fifo_ring q) + Suc (length (kheld k))"
        using assms(2) Credit True by (simp add: aux_ok_def fifo_ok_def)
      then have "(1 :: u32) \<le> queue_status_fifo q" by (simp add: word_nat)
      then have "unat (queue_status_fifo q - 1) = length (qm_fifo_ring q) + length (kheld k)"
        using st by (simp add: unat_sub_exact)
      then show ?thesis using assms(2) Credit False True by (simp add: serve_def aux_ok_def fifo_ok_def assms(5))
    next
      case t: False
      then show ?thesis using False Credit assms
        by (auto simp: serve_def same_counts_def intro!: aux_ok_goto)
    qed
  qed
next
  case (Sub g k)
  then show ?thesis using assms by (auto simp: serve_def same_counts_def intro!: aux_ok_goto)
next
  case (Rate g a k)
  then show ?thesis using assms
    by (auto simp: serve_def same_counts_def intro!: aux_ok_goto aux_ok_round_done)
next
  case (Add g a r k)
  then show ?thesis using assms
    by (auto simp: serve_def same_counts_def intro!: aux_ok_round_done aux_ok_add)
qed (use assms in \<open>auto simp: serve_def intro: aux_ok_refresh\<close>)

lemma aux_ok_postproc_poll:
  assumes "room q" and "aux_ok q" and "pc_ok 3 (th_pc q 3)"
  shows "aux_ok (queue_postproc_poll q)"
  using assms
  by (cases "th_pc q 0")
    (auto simp: queue_postproc_poll_def Let_def same_counts_def intro!: aux_ok_goto aux_ok_add split: list.split)

lemma aux_ok_select_slot:
  assumes "aux_ok q"
  shows "aux_ok (select_slot now q)"
proof -
  have "(current_slot q + 1) AND 511 < 512" by (simp add: word_less_nat_alt unat_and_511)
  then show ?thesis using assms
    by (auto simp: select_slot_def Let_def aux_ok_def wheel_ok_def qm_params)
qed

lemma aux_ok_localfifo_poll:
  assumes "room q" and "aux_ok q" and "pc_ok 3 (th_pc q 3)" and "pc_ok 2 (th_pc q 2)"
  shows "aux_ok (queue_localfifo_poll q)"
proof (cases "th_pc q 2 = At Ready \<and> credits q \<noteq> 0")
  case True
  have ht: "q_head q < 256" "q_tail q < 256" "q_head q \<noteq> q_tail q"
    using assms(2) True by (auto simp: aux_ok_def lf_ok_def)
  note p = lf_pop [OF ht refl]
  define q1 where "q1 = goto 2 (At Top) (q\<lparr>q_head := (q_head q + 1) AND 255\<rparr>)"
  have "lf_ok q1" using assms(2) p by (auto simp: aux_ok_def lf_ok_def q1_def)
  then have a1: "aux_ok q1" using assms(2) by (simp add: aux_ok_def q1_def)
  obtain g v where e: "queue_local_fifo q (q_head q) = (g, v)" by fastforce
  define q2 where "q2 = sub_avail (low g) (schedule g q1)"
  have a2: "aux_ok q2" "room q2" "pc_ok 3 (th_pc q2 3)" "th_pc q2 2 = At Top"
    using a1 assms(1,3) by (simp_all add: q2_def q1_def room_def sub_avail_def schedule_def Let_def)
  have gg: "round_done 2 k (goto 2 p q) = round_done 2 k q" for k p q
    by (simp add: round_done_def goto_def)
  have com: "flow_add_to_queue f a r (goto 2 p q) = goto 2 p (flow_add_to_queue f a r q)" for f a r p q
    by (simp add: flow_add_to_queue_def goto_def Let_def)
  have com2: "sub_avail f (schedule h (goto 2 p q)) = goto 2 p (sub_avail f (schedule h q))" for f h p q
    by (simp add: sub_avail_def schedule_def goto_def Let_def)
  have eq: "queue_localfifo_poll q = round_done 2 Top (flow_add_to_queue (low g) (v - TCP_MSS) 0 q2)"
    using True e by (simp add: queue_localfifo_poll_def q2_def q1_def QM_LOCAL_FIFO_def Let_def gg com com2)
  show ?thesis unfolding eq
    by (rule aux_ok_round_done [OF aux_ok_add [OF a2(2,1,3)]]) (simp_all add: same_counts_def)
next
  case False
  show ?thesis
  proof (cases "th_pc q 2")
    case (At k)
    with assms(4) have k: "k = Top \<or> k = Ready" by (cases k) auto
    have "at_ready (th_pc q 2) \<Longrightarrow> q_head q \<noteq> q_tail q" using assms(2) by (simp add: aux_ok_def lf_ok_def)
    with k At False assms(2) show ?thesis
      by (elim disjE) (auto simp: queue_localfifo_poll_def same_counts_def intro!: aux_ok_goto)
  qed (use assms in \<open>auto simp: queue_localfifo_poll_def intro: aux_ok_refresh\<close>)
qed

lemma aux_ok_fifo_poll:
  assumes "room q" and "aux_ok q" and "pc_ok 3 (th_pc q 3)"
    and "\<And>g. g \<in> set (qm_fifo_ring q) \<Longrightarrow> g \<noteq> 0"
  shows "aux_ok (queue_fifo_poll q)"
proof (cases "\<exists>k. th_pc q 3 = At k")
  case True
  then obtain k where k: "th_pc q 3 = At k" by blast
  show ?thesis
  proof (cases k)
    case (Get s)
    with k assms(2) show ?thesis
      by (auto simp: queue_fifo_poll_def ring_get_freely_def Let_def aux_ok_def fifo_ok_def takeWhile_padded [OF assms(4)])
  next
    case (Flows ws)
    with k assms(2) show ?thesis
      by (cases ws) (auto simp: queue_fifo_poll_def same_counts_def intro!: aux_ok_goto)
  qed (use k assms in \<open>auto simp: queue_fifo_poll_def same_counts_def intro!: aux_ok_goto\<close>)
next
  case False
  then have "queue_fifo_poll q = serve 3 1 q" by (cases "th_pc q 3") (auto simp: queue_fifo_poll_def)
  then show ?thesis using aux_ok_serve [OF assms(1,2), of 3 1] assms(3) by simp
qed

lemma aux_ok_slot_poll:
  assumes "room q" and "aux_ok q" and "pc_ok 3 (th_pc q 3)" and "pc_ok t (th_pc q t)" and "4 \<le> t" and "t < 8"
    and "\<And>g s. g \<in> set (qm_slot_ring q s) \<Longrightarrow> g \<noteq> 0"
  shows "aux_ok (queue_slot_poll t q)"
proof (cases "\<exists>k. th_pc q t = At k")
  case True
  then obtain k where k: "th_pc q t = At k" by blast
  have so: "unat (queue_status q s) + waiting q s = length (qm_slot_ring q s)" "length (qm_slot_ring q s) \<le> QM_SLOT_LEN" for s
    using assms(2) by (simp_all add: aux_ok_def slots_ok_def)
  have w: "waiting (goto t p q) s + of_bool (th_pc q t = At (Get s)) = waiting q s + of_bool (p = At (Get s))" for p s
    by (rule waiting_goto [OF assms(5,6)])
  consider (top) "k = Top" | (get) s where "k = Get s" using k assms(4,5) by (cases k) auto
  then show ?thesis
  proof cases
    case top
    show ?thesis
    proof (cases "queue_status q (current_slot q) = 0")
      case True
      then show ?thesis using k top assms(2) by (simp add: queue_slot_poll_def Let_def)
    next
      case False
      define c where "c = current_slot q"
      define q' where "q' = q\<lparr>queue_status := (queue_status q)(c := queue_status q c - 1)\<rparr>"
      have eq: "queue_slot_poll t q = goto t (At (Get c)) q'"
        using k top False by (simp add: queue_slot_poll_def Let_def c_def q'_def)
      have "unat (queue_status q c - 1) = unat (queue_status q c) - 1" "0 < unat (queue_status q c)"
        using False by (simp_all add: c_def unat_minus_one unat_gt_0)
      moreover have "waiting (goto t p q') s = waiting (goto t p q) s" for p s
        by (simp add: waiting_def goto_def q'_def)
      ultimately have "unat (queue_status q' s) + waiting (goto t (At (Get c)) q') s = length (qm_slot_ring q s)" for s
        using so(1) [of s] w [of "At (Get c)" s] k top by (cases "s = c") (simp_all add: q'_def)
      then have "slots_ok (goto t (At (Get c)) q')" using so(2) by (simp add: slots_ok_def q'_def)
      then show ?thesis using assms(2,5) unfolding eq by (simp add: aux_ok_def q'_def)
    qed
  next
    case (get s)
    have "waiting (goto t (At Top) q) s + 1 = waiting q s" using w [of "At Top" s] k get by simp
    with so(1) [of s] have "qm_slot_ring q s \<noteq> []" by auto
    then obtain g gs where r: "qm_slot_ring q s = g # gs" by (cases "qm_slot_ring q s") auto
    define q' where "q' = q\<lparr>qm_slot_ring := (qm_slot_ring q)(s := gs)\<rparr>"
    have "g \<noteq> 0" using assms(7) [of g s] r by simp
    then have eq: "queue_slot_poll t q = goto t (Credit g Top) q'"
      using k get r by (simp add: queue_slot_poll_def ring_get_freely_def Let_def q'_def)
    have "waiting (goto t p q') u = waiting (goto t p q) u" for p u
      by (simp add: waiting_def goto_def q'_def)
    then have "unat (queue_status q u) + waiting (goto t (Credit g Top) q') u = length (qm_slot_ring q' u)" for u
      using so(1) [of u] w [of "Credit g Top" u] k get r by (cases "u = s") (simp_all add: q'_def)
    moreover have "length (qm_slot_ring q' u) \<le> QM_SLOT_LEN" for u
      using so(2) [of u] r by (cases "u = s") (simp_all add: q'_def)
    ultimately have "slots_ok (goto t (Credit g Top) q')" by (simp add: slots_ok_def) (simp add: q'_def)
    moreover have "wheel_ok q'" using assms(2) r by (auto simp: q'_def aux_ok_def wheel_ok_def split: if_splits)
    ultimately show ?thesis using assms(2,5) unfolding eq by (simp add: aux_ok_def) (simp add: q'_def)
  qed
next
  case False
  then have "queue_slot_poll t q = serve t 0 q" by (cases "th_pc q t") (auto simp: queue_slot_poll_def)
  then show ?thesis using aux_ok_serve [OF assms(1,2,6), of 0] assms(3-5) by simp
qed

subsection \<open>The invariant of the queue manager\<close>

definition qm_inv :: "qman \<Rightarrow> bool" where
  "qm_inv q \<longleftrightarrow>
     (\<forall>f. cc_tx_avail (qm_cc q f) \<noteq> 0 \<longrightarrow> queued q f) \<and> (\<forall>f. queued q f \<longrightarrow> f \<noteq> 0) \<and>
     (\<forall>t < 8. pc_ok t (th_pc q t)) \<and> aux_ok q"

text \<open>
  What the rest of the system guarantees: no ring overflows, and postprocessing handles a flow with
  a number other than zero, in an island whose flow group is in the upper half of its mask.
\<close>

fun qm_ok :: "qm_event \<Rightarrow> qman \<Rightarrow> bool" where
  "qm_ok (Thread t now) q = (t < 8 \<and> room q)"
| "qm_ok (Post w pp) q = (work_flow_id (res_work (pp_result w)) \<noteq> 0 \<and> low (flow_grp_mask pp) = 0)"
| "qm_ok _ q = True"

lemma qm_inv_nonzero:
  assumes "qm_inv q"
  shows "g \<in> set (qm_fifo_ring q) \<Longrightarrow> g \<noteq> 0" and "g \<in> set (qm_slot_ring q s) \<Longrightarrow> g \<noteq> 0"
proof -
  have nz: "queued q (low g) \<Longrightarrow> low g \<noteq> 0" using assms by (simp add: qm_inv_def)
  show "g \<noteq> 0" if "g \<in> set (qm_fifo_ring q)" using nz that by (auto simp: queued_def)
  show "g \<noteq> 0" if "g \<in> set (qm_slot_ring q s)"
  proof -
    have "\<exists>s. low g \<in> low ` set (qm_slot_ring q s)" using that by blast
    then show ?thesis using nz by (auto simp: queued_def)
  qed
qed

lemma qm_thread_keeps:
  assumes "qm_inv q" and "t < 8" and "room q"
  shows "keeps q (qm_thread t now q)" and "aux_ok (qm_thread t now q)"
proof -
  have i: "aux_ok q" "lf_ok q" "q_head q < 256" "q_tail q < 256" and p: "\<And>t. t < 8 \<Longrightarrow> pc_ok t (th_pc q t)"
    using assms(1) by (auto simp: qm_inv_def aux_ok_def lf_ok_def)
  note nz = qm_inv_nonzero [OF assms(1)]
  consider "t = 0" | "t = 1" | "t = 2" | "t = 3" | "4 \<le> t" by linarith
  then have "keeps q (qm_thread t now q) \<and> aux_ok (qm_thread t now q)"
  proof cases
    case 1
    then show ?thesis using keeps_postproc_poll [OF assms(3) i(3,4) p] aux_ok_postproc_poll [OF assms(3) i(1) p]
      by (simp add: qm_thread_def)
  next
    case 2
    then show ?thesis using keeps_select_slot [OF p] aux_ok_select_slot [OF i(1)] by (simp add: qm_thread_def)
  next
    case 3
    then show ?thesis using keeps_localfifo_poll [OF assms(3) i(2) p] aux_ok_localfifo_poll [OF assms(3) i(1) p p]
      by (simp add: qm_thread_def)
  next
    case 4
    then show ?thesis using keeps_fifo_poll [OF assms(3) i(3,4) p nz(1)] aux_ok_fifo_poll [OF assms(3) i(1) p nz(1)]
      by (simp add: qm_thread_def)
  next
    case 5
    then show ?thesis using keeps_slot_poll [OF assms(3) i(3,4) p _ assms(2) nz(2)]
        aux_ok_slot_poll [OF assms(3) i(1) p p _ assms(2) nz(2)] assms(2)
      by (simp add: qm_thread_def)
  qed
  then show "keeps q (qm_thread t now q)" "aux_ok (qm_thread t now q)" by auto
qed

lemma qm_inv_thread:
  assumes "qm_inv q" and "t < 8" and "room q"
  shows "qm_inv (qm_thread t now q)"
proof -
  have "pc_ok u (th_pc (qm_thread t now q) u)" if "u < 8" for u
    using assms(1) that pc_ok_thread [of t q now] thread_other [of u t now q]
    by (cases "u = t") (simp_all add: qm_inv_def)
  with qm_thread_keeps [OF assms, of now] assms(1) show ?thesis unfolding qm_inv_def keeps_def by blast
qed

lemma low_bump: "low m = 0 \<Longrightarrow> low (m OR work_flow_id w) = work_flow_id w"
proof -
  assume "low m = 0"
  then have "low (m OR work_flow_id w) = low (work_flow_id w)" by (simp add: bit.conj_disj_distrib2)
  also have "\<dots> = take_bit 16 (work_flow_id w)" by (simp add: take_bit_eq_mask mask_eq_exp_minus_1)
  also have "\<dots> = work_flow_id w" by (simp add: work_flow_id_def bf_get_def)
  finally show ?thesis .
qed

lemma qm_inv_post:
  assumes "qm_inv q" and "work_flow_id (res_work (pp_result w)) \<noteq> 0" and "low (flow_grp_mask pp) = 0"
  shows "qm_inv (pp_step w pp q)"
proof (cases "pp_handle w (pp\<lparr>flows_cc_info := qm_cc q, qm_credits := qm_avail_credits q, pp_outs := []\<rparr>)")
  case (Some s')
  define f0 where "f0 = work_flow_id (res_work (pp_result w))"
  define q' where "q' = pp_step w pp q"
  from pp_handle_bumps [OF Some] obtain gs where
    same: "\<And>f. f \<noteq> f0 \<Longrightarrow> cc_tx_avail (flows_cc_info s' f) = cc_tx_avail (qm_cc q f)" and
    gs: "qm_bumps (pp_outs s') = gs" "set gs \<subseteq> {flow_grp_mask pp OR f0}" and
    av: "cc_tx_avail (flows_cc_info s' f0) \<noteq> 0 \<Longrightarrow> cc_tx_avail (qm_cc q f0) \<noteq> 0 \<or> gs \<noteq> []"
    by (auto simp: bump_spec_def f0_def)
  have q': "q' = q\<lparr>qm_cc := flows_cc_info s', qm_avail_credits := qm_credits s', qm_bump_ring := qm_bump_ring q @ gs\<rparr>"
    by (simp add: q'_def pp_step_def Some gs(1))
  have lg: "low ` set gs = (if gs = [] then {} else {f0})"
    using gs(2) low_bump [OF assms(3), of "res_work (pp_result w)"] by (cases gs) (auto simp: f0_def)
  have qd: "queued q' f \<longleftrightarrow> queued q f \<or> f \<in> low ` set gs" for f
    unfolding q' queued_def by (simp add: image_Un) blast
  have inv: "queued q f" if "cc_tx_avail (qm_cc q f) \<noteq> 0" for f using assms(1) that by (simp add: qm_inv_def)
  have "queued q' f" if "cc_tx_avail (qm_cc q' f) \<noteq> 0" for f
  proof (cases "f = f0")
    case True
    with that av have "cc_tx_avail (qm_cc q f0) \<noteq> 0 \<or> gs \<noteq> []" by (simp add: q')
    then show ?thesis using inv [of f0] lg True unfolding qd by auto
  next
    case False
    then show ?thesis using that same [of f] inv [of f] unfolding qd by (simp add: q')
  qed
  moreover have "f \<noteq> 0" if "queued q' f" for f
  proof -
    have "queued q f \<or> f = f0" using that unfolding qd lg by (cases "gs = []") auto
    moreover have "queued q f \<Longrightarrow> f \<noteq> 0" using assms(1) by (simp add: qm_inv_def)
    moreover have "f0 \<noteq> 0" using assms(2) by (simp add: f0_def)
    ultimately show ?thesis by blast
  qed
  moreover have "aux_ok q'" "\<forall>t < 8. pc_ok t (th_pc q' t)" using assms(1) by (simp_all add: q' qm_inv_def)
  ultimately show ?thesis unfolding q'_def [symmetric] qm_inv_def by blast
qed (use assms(1) in \<open>simp add: pp_step_def\<close>)

lemma queued_frame [simp]: "queued (q\<lparr>qm_cc := c\<rparr>) f = queued q f"
  by (simp add: queued_def)

lemma qm_inv_step: "qm_inv q \<Longrightarrow> qm_ok e q \<Longrightarrow> qm_inv (qm_step e q)"
proof (cases e)
  case (Flow_Init f r)
  assume "qm_inv q"
  with Flow_Init show ?thesis by (auto simp: qm_inv_def)
next
  case (Set_Rate f r)
  assume "qm_inv q"
  with Set_Rate show ?thesis by (auto simp: qm_inv_def)
qed (auto intro: qm_inv_thread qm_inv_post)

interpretation qm_sys: invariant_system qm_step qm_ok qm_inv
  by unfold_locales (rule qm_inv_step)

lemma qm_inv_start: "(\<And>f. cc_tx_avail (cc f) = 0) \<Longrightarrow> qm_inv (qm_start now cc)"
  by (auto simp: qm_inv_def qm_start_def select_slot_start_def queued_def aux_ok_def lf_ok_def wheel_ok_def
      fifo_ok_def slots_ok_def waiting_def lf_flows_def lf_len_def QM_NUM_SLOTS_def)

text \<open>
  C5. No flow with data is forgotten. Start with empty queues and no flow with available bytes, and
  let the contexts of the queue manager, the postprocessing threads and the slow path take any steps
  in any order, as long as no ring overflows. Then every flow whose available bytes are not zero is in
  a ring, in the local queue or in the hands of a context that will queue it again; and what is in a
  ring is seen by the contexts that poll it: the counter of the ring of uncongested flows is not zero
  unless the ring is empty, and the counter of a slot of the wheel is not zero unless the ring of the
  slot is empty or a context is already reading it.
\<close>

theorem qman_no_flow_lost:
  fixes cc now es
  assumes "\<And>f. cc_tx_avail (cc f) = 0" and "run_ok qm_step qm_ok es (qm_start now cc)"
  defines "q \<equiv> run qm_step es (qm_start now cc)"
  shows "(cc_tx_avail (qm_cc q f) \<noteq> 0 \<longrightarrow> queued q f) \<and>
    (qm_fifo_ring q \<noteq> [] \<longrightarrow> queue_status_fifo q \<noteq> 0) \<and>
    (qm_slot_ring q s \<noteq> [] \<longrightarrow> s < QM_NUM_SLOTS \<and>
       (queue_status q s \<noteq> 0 \<or> (\<exists>t. 4 \<le> t \<and> t < 8 \<and> th_pc q t = At (Get s))))"
proof -
  have i: "qm_inv q" unfolding q_def by (rule qm_sys.run_invar [OF qm_inv_start [OF assms(1)] assms(2)])
  then have a: "fifo_ok q" "slots_ok q" "wheel_ok q" by (simp_all add: qm_inv_def aux_ok_def)
  have "queue_status_fifo q \<noteq> 0" if "qm_fifo_ring q \<noteq> []" using a(1) that by (auto simp: fifo_ok_def)
  moreover have "queue_status q s \<noteq> 0 \<or> (\<exists>t. 4 \<le> t \<and> t < 8 \<and> th_pc q t = At (Get s))"
    if "qm_slot_ring q s \<noteq> []"
  proof -
    have "0 < unat (queue_status q s) + waiting q s" using a(2) that by (simp add: slots_ok_def)
    moreover have "\<exists>t. 4 \<le> t \<and> t < 8 \<and> th_pc q t = At (Get s)" if "waiting q s \<noteq> 0"
      using that unfolding waiting_def length_0_conv filter_empty_conv set_upt Ball_def atLeastLessThan_iff by blast
    ultimately show ?thesis by (cases "queue_status q s = 0") auto
  qed
  moreover have "s < QM_NUM_SLOTS" if "qm_slot_ring q s \<noteq> []" using a(3) that by (simp add: wheel_ok_def)
  moreover have "cc_tx_avail (qm_cc q f) \<noteq> 0 \<longrightarrow> queued q f" using i by (simp add: qm_inv_def)
  ultimately show ?thesis by blast
qed

subsection \<open>The timing wheel\<close>

text \<open>The slot a flow with a rate limit goes to, counted from the current one.\<close>

definition slot_dist :: "nat \<Rightarrow> nat \<Rightarrow> nat \<Rightarrow> nat" where
  "slot_dist rate avail skip = min (rate * min 1448 avail mod 2 ^ 32 div 2 ^ 18 + skip) 511"

lemma add_slot_eq:
  fixes rate avail skip :: u32
  assumes "skip \<le> 1"
  defines "slot \<equiv> drop_bit 8 (drop_bit 10 (rate * min TCP_MSS avail)) + skip"
  shows "unat (if 512 \<le> slot then 511 else slot) = slot_dist (unat rate) (unat avail) (unat skip)"
proof -
  have s: "unat skip \<le> 1" using assms(1) by (simp add: word_nat)
  have m: "unat (rate * min TCP_MSS avail) = unat rate * min 1448 (unat avail) mod 2 ^ 32"
    by (simp add: unat_word_ariths unat_min TCP_MSS_def)
  have d: "unat (drop_bit 8 (drop_bit 10 (rate * min TCP_MSS avail))) =
      unat rate * min 1448 (unat avail) mod 2 ^ 32 div 2 ^ 18" (is "_ = ?d")
    unfolding unat_drop_bit m div_mult2_eq [symmetric] by simp
  have "?d < 2 ^ 14" by (simp add: less_mult_imp_div_less)
  then have "unat slot = ?d + unat skip" unfolding slot_def using d s by (subst unat_add_exact) simp_all
  then show ?thesis by (simp add: slot_dist_def word_nat min_def)
qed

lemma flow_add_slot:
  fixes g avail rate q
  assumes "rate \<noteq> 0" and "current_slot q < QM_NUM_SLOTS" and "skip_slot q \<le> 1" and "room q"
  defines "d \<equiv> slot_dist (unat rate) (unat avail) (unat (skip_slot q))"
  defines "s \<equiv> of_nat ((unat (current_slot q) + d) mod 512)"
  shows "flow_add_to_queue g avail rate q =
      q\<lparr>queue_status := (queue_status q)(s := queue_status q s + 1),
        qm_slot_ring := (qm_slot_ring q)(s := qm_slot_ring q s @ [g])\<rparr>"
    and "skip_slot q = 1 \<Longrightarrow> s \<noteq> current_slot q"
proof -
  define slot where "slot = drop_bit 8 (drop_bit 10 (rate * min TCP_MSS avail)) + skip_slot q"
  have d: "unat (if 512 \<le> slot then 511 else slot) = d"
    unfolding d_def slot_def by (rule add_slot_eq [OF assms(3)])
  have d511: "d \<le> 511" by (simp add: d_def slot_dist_def)
  have c: "unat (current_slot q) < 512" using assms(2) by (simp add: QM_NUM_SLOTS_def word_nat)
  have "unat (current_slot q + (if 512 \<le> slot then 511 else slot)) = unat (current_slot q) + d"
    using c d d511 by (subst unat_add_exact) simp_all
  then have "unat ((current_slot q + (if 512 \<le> slot then 511 else slot)) AND 511) = (unat (current_slot q) + d) mod 512"
    by (simp add: unat_and_511)
  then have s: "(current_slot q + (if 512 \<le> slot then 511 else slot)) AND 511 = s"
    unfolding s_def by (metis of_nat_unat_u32)
  have "flow_add_to_queue g avail rate q =
      (let s = (current_slot q + (if 512 \<le> slot then 511 else slot)) AND 511
       in q\<lparr>queue_status := (queue_status q)(s := queue_status q s + 1),
            qm_slot_ring := (qm_slot_ring q)(s := qm_slot_ring q s @ [g])\<rparr>)"
    unfolding slot_def using assms(1,4) by (simp add: flow_add_to_queue_def Let_def ring_journal_def room_def
        QM_NUM_SLOTS_def QM_SLOT_RESOLUTION_TS_CYC_SHIFT_def)
  then show "flow_add_to_queue g avail rate q =
      q\<lparr>queue_status := (queue_status q)(s := queue_status q s + 1),
        qm_slot_ring := (qm_slot_ring q)(s := qm_slot_ring q s @ [g])\<rparr>" unfolding Let_def s .
  show "s \<noteq> current_slot q" if "skip_slot q = 1"
  proof -
    have "1 \<le> d" using that by (simp add: d_def slot_dist_def)
    then have "(unat (current_slot q) + d) mod 512 \<noteq> unat (current_slot q)"
      using mod_add_inj [of 0 512 d "unat (current_slot q)"] d511 c by auto
    moreover have "unat s = (unat (current_slot q) + d) mod 512"
      unfolding s_def using mod_less_divisor [of 512] by (intro unat_of_nat_small [of _ 511]) (simp add: less_Suc_eq_le [symmetric])
    ultimately show ?thesis by auto
  qed
qed

text \<open>
  C29. Where the wheel puts a flow with a rate limit. It goes to the end of the ring of the slot
  \<open>d\<close> ahead of the current one, where \<open>d\<close> is the time one segment takes at the flow's rate in units
  of a slot, plus one while the current slot is being drained, but at most 511; the counter of the
  slot goes up by one and nothing else changes. In particular no flow is ever added to a slot that
  is being drained. The time is computed in 32 bits: \<open>slot_dist\<close> has its product modulo \<open>2 ^ 32\<close>.
\<close>

theorem flow_add_to_queue_slot:
  fixes g avail rate q
  assumes "rate \<noteq> 0" and "current_slot q < QM_NUM_SLOTS" and "skip_slot q \<le> 1" and "room q"
  defines "d \<equiv> slot_dist (unat rate) (unat avail) (unat (skip_slot q))"
  defines "s \<equiv> of_nat ((unat (current_slot q) + d) mod 512)"
  shows "flow_add_to_queue g avail rate q =
      q\<lparr>queue_status := (queue_status q)(s := queue_status q s + 1),
        qm_slot_ring := (qm_slot_ring q)(s := qm_slot_ring q s @ [g])\<rparr> \<and>
    (skip_slot q = 1 \<longrightarrow> s \<noteq> current_slot q)"
  using flow_add_slot(1) [OF assms(1-4), where g = g and avail = avail]
    flow_add_slot(2) [OF assms(1-4), where avail = avail] unfolding d_def s_def by blast

text \<open>The wheel and its guard: while context 1 waits for the slot to drain, \<open>skip_slot\<close> is one.\<close>

definition wheel_guard :: "qman \<Rightarrow> bool" where
  "wheel_guard q \<longleftrightarrow> qm_inv q \<and> skip_slot q = of_bool (th_pc q 1 \<noteq> At Top)"

text \<open>The polls of the current slot that take an entry.\<close>

definition takes_entry :: "qm_event \<Rightarrow> qman \<Rightarrow> bool" where
  "takes_entry e q \<longleftrightarrow> (\<exists>t now. e = Thread t now \<and> 4 \<le> t \<and> th_pc q t = At Top \<and> queue_status q (current_slot q) \<noteq> 0)"

fun taken :: "qm_event list \<Rightarrow> qman \<Rightarrow> nat" where
  "taken [] q = 0"
| "taken (e # es) q = of_bool (takes_entry e q) + taken es (qm_step e q)"

lemma part_frame [simp]:
  "current_slot (schedule g q) = current_slot q" "skip_slot (schedule g q) = skip_slot q"
  "queue_status (schedule g q) = queue_status q"
  "current_slot (sub_avail f q) = current_slot q" "skip_slot (sub_avail f q) = skip_slot q"
  "queue_status (sub_avail f q) = queue_status q"
  "current_slot (round_done t k q) = current_slot q" "skip_slot (round_done t k q) = skip_slot q"
  "queue_status (round_done t k q) = queue_status q"
  "current_slot (refresh_issue t p q) = current_slot q" "skip_slot (refresh_issue t p q) = skip_slot q"
  "queue_status (refresh_issue t p q) = queue_status q"
  "current_slot (refresh_credits t v p q) = current_slot q" "skip_slot (refresh_credits t v p q) = skip_slot q"
  "queue_status (refresh_credits t v p q) = queue_status q"
  by (simp_all add: schedule_def sub_avail_def round_done_def refresh_issue_def refresh_credits_def Let_def)

lemma serve_wheel [simp]:
  "current_slot (serve t d q) = current_slot q" "skip_slot (serve t d q) = skip_slot q"
  by (cases "th_pc q t"; simp add: serve_def)+

lemma thread_wheel:
  assumes "t \<noteq> 1"
  shows "current_slot (qm_thread t now q) = current_slot q \<and> skip_slot (qm_thread t now q) = skip_slot q"
proof -
  have "current_slot (queue_postproc_poll q) = current_slot q \<and> skip_slot (queue_postproc_poll q) = skip_slot q"
    by (cases "th_pc q 0") (simp_all add: queue_postproc_poll_def Let_def split: list.split)
  moreover have "current_slot (queue_localfifo_poll q) = current_slot q \<and> skip_slot (queue_localfifo_poll q) = skip_slot q"
    by (cases "th_pc q 2") (simp_all add: queue_localfifo_poll_def Let_def case_prod_beta split: loop_at.split)
  moreover have "current_slot (queue_fifo_poll q) = current_slot q \<and> skip_slot (queue_fifo_poll q) = skip_slot q"
    by (cases "th_pc q 3")
      (simp_all add: queue_fifo_poll_def ring_get_freely_def Let_def split: loop_at.split list.split)
  moreover have "current_slot (queue_slot_poll t q) = current_slot q \<and> skip_slot (queue_slot_poll t q) = skip_slot q"
    by (cases "th_pc q t") (simp_all add: queue_slot_poll_def ring_get_freely_def Let_def split: loop_at.split)
  ultimately show ?thesis using assms by (simp add: qm_thread_def)
qed

text \<open>Adding a flow leaves the counter of a draining slot alone.\<close>

lemma flow_add_draining:
  assumes "skip_slot q = 1" and "current_slot q < QM_NUM_SLOTS"
  shows "queue_status (flow_add_to_queue g a r q) (current_slot q) = queue_status q (current_slot q)"
proof (cases "r = 0")
  case True
  then show ?thesis by (simp add: flow_add_to_queue_def Let_def)
next
  case False
  have st: "queue_status (flow_add_to_queue g a r q) = queue_status (flow_add_to_queue g a r (q\<lparr>qm_slot_ring := \<lambda>_. [],
      qm_fifo_ring := []\<rparr>))" by (simp add: flow_add_to_queue_def Let_def)
  have "room (q\<lparr>qm_slot_ring := \<lambda>_. [], qm_fifo_ring := []\<rparr>)" by (simp add: room_def qm_params)
  then show ?thesis unfolding st using assms flow_add_slot(1) [OF False, where q = "q\<lparr>qm_slot_ring := \<lambda>_. [], qm_fifo_ring := []\<rparr>" and g = g and avail = a]
      flow_add_slot(2) [OF False, where q = "q\<lparr>qm_slot_ring := \<lambda>_. [], qm_fifo_ring := []\<rparr>" and avail = a] by simp
qed

lemma serve_draining:
  assumes "skip_slot q = 1" and "current_slot q < QM_NUM_SLOTS"
  shows "queue_status (serve t d q) (current_slot q) = queue_status q (current_slot q)"
  by (cases "th_pc q t") (simp_all add: serve_def flow_add_draining [OF assms])

lemma localfifo_draining:
  assumes "skip_slot q = 1" and "current_slot q < QM_NUM_SLOTS"
  shows "queue_status (queue_localfifo_poll q) (current_slot q) = queue_status q (current_slot q)"
proof (cases "th_pc q 2 = At Ready \<and> credits q \<noteq> 0")
  case True
  obtain g v where e: "queue_local_fifo q (q_head q) = (g, v)" by fastforce
  define q2 where "q2 = sub_avail (low g) (schedule g (q\<lparr>q_head := (q_head q + 1) AND 255\<rparr>))"
  have "queue_localfifo_poll q = round_done 2 Top (flow_add_to_queue (low g) (v - TCP_MSS) 0 q2)"
    using True e by (simp add: queue_localfifo_poll_def q2_def QM_LOCAL_FIFO_def Let_def)
  moreover have "skip_slot q2 = 1" "current_slot q2 = current_slot q" "queue_status q2 = queue_status q"
    using assms(1) by (simp_all add: q2_def)
  ultimately show ?thesis using flow_add_draining [of q2] assms(2) by simp
next
  case False
  then show ?thesis by (cases "th_pc q 2") (auto simp: queue_localfifo_poll_def Let_def split: loop_at.split)
qed

lemma thread_draining:
  assumes "skip_slot q = 1" and "current_slot q < QM_NUM_SLOTS" and "t \<noteq> 1"
  shows "unat (queue_status (qm_thread t now q) (current_slot q)) + of_bool (takes_entry (Thread t now) q) =
    unat (queue_status q (current_slot q))"
proof -
  consider "t = 0" | "t = 2" | "t = 3" | "4 \<le> t" using assms(3) by linarith
  then show ?thesis
  proof cases
    case 1
    then show ?thesis
      by (cases "th_pc q 0")
        (simp_all add: qm_thread_def takes_entry_def queue_postproc_poll_def Let_def flow_add_draining [OF assms(1,2)]
          split: list.split)
  next
    case 2
    then show ?thesis by (simp add: qm_thread_def takes_entry_def localfifo_draining [OF assms(1,2)])
  next
    case 3
    then show ?thesis
      by (cases "th_pc q 3")
        (simp_all add: qm_thread_def takes_entry_def queue_fifo_poll_def ring_get_freely_def Let_def
          serve_draining [OF assms(1,2)] split: loop_at.split list.split)
  next
    case 4
    then have eq: "qm_thread t now q = queue_slot_poll t q" by (simp add: qm_thread_def)
    show ?thesis
    proof (cases "th_pc q t = At Top \<and> queue_status q (current_slot q) \<noteq> 0")
      case True
      then have "unat (queue_status q (current_slot q) - 1) + 1 = unat (queue_status q (current_slot q))"
        by (simp add: unat_minus_one unat_gt_0)
      with True 4 show ?thesis unfolding eq by (simp add: takes_entry_def queue_slot_poll_def Let_def)
    next
      case False
      have "queue_status (queue_slot_poll t q) (current_slot q) = queue_status q (current_slot q)"
        using False by (cases "th_pc q t")
          (auto simp: queue_slot_poll_def ring_get_freely_def Let_def serve_draining [OF assms(1,2)] split: loop_at.split)
      with False show ?thesis unfolding eq by (auto simp: takes_entry_def)
    qed
  qed
qed

lemma pp_step_frame [simp]:
  "th_pc (pp_step w pp q) = th_pc q" "current_slot (pp_step w pp q) = current_slot q"
  "skip_slot (pp_step w pp q) = skip_slot q" "queue_status (pp_step w pp q) = queue_status q"
  by (simp_all add: pp_step_def split: option.split)

lemma pc_ok_1: "pc_ok 1 p \<Longrightarrow> p = At Top \<or> p = At Ready"
  by (cases "(1 :: nat, p)" rule: pc_ok.cases) (auto elim: k_ok.elims)

lemma wheel_guard_step: "wheel_guard q \<Longrightarrow> qm_ok e q \<Longrightarrow> wheel_guard (qm_step e q)"
proof (cases e)
  case (Thread t now)
  assume g: "wheel_guard q" and ok: "qm_ok e q"
  have i: "qm_inv (qm_step e q)" using g ok qm_inv_step by (simp add: wheel_guard_def)
  have "pc_ok 1 (th_pc q 1)" using g by (simp add: wheel_guard_def qm_inv_def)
  then have "th_pc q 1 = At Top \<or> th_pc q 1 = At Ready" by (rule pc_ok_1)
  then have "skip_slot (select_slot now q) = of_bool (th_pc (select_slot now q) 1 \<noteq> At Top)"
    using g by (auto simp: select_slot_def wheel_guard_def Let_def)
  with g i Thread thread_wheel [of t now q] thread_other [of 1 t now q] show ?thesis
    by (cases "t = 1") (auto simp: wheel_guard_def qm_thread_def)
qed (auto simp: wheel_guard_def intro: qm_inv_step [of _ "Post _ _", simplified] qm_inv_step [of _ "Flow_Init _ _", simplified]
    qm_inv_step [of _ "Set_Rate _ _", simplified])

interpretation wheel: invariant_system qm_step qm_ok wheel_guard
  by unfold_locales (rule wheel_guard_step)

definition turns_wheel :: "qm_event \<Rightarrow> bool" where
  "turns_wheel e \<longleftrightarrow> (case e of Thread t now \<Rightarrow> t = 1 | _ \<Rightarrow> False)"

lemma drain_step:
  assumes "wheel_guard q" and "th_pc q 1 = At Ready" and "qm_ok e q" and "\<not> turns_wheel e"
  shows "th_pc (qm_step e q) 1 = At Ready" and "current_slot (qm_step e q) = current_slot q"
    and "unat (queue_status (qm_step e q) (current_slot q)) + of_bool (takes_entry e q) =
      unat (queue_status q (current_slot q))"
proof -
  have "skip_slot q = 1" "current_slot q < QM_NUM_SLOTS"
    using assms(1,2) by (auto simp: wheel_guard_def qm_inv_def aux_ok_def wheel_ok_def)
  note d = thread_draining [OF this]
  show "th_pc (qm_step e q) 1 = At Ready" "current_slot (qm_step e q) = current_slot q"
    "unat (queue_status (qm_step e q) (current_slot q)) + of_bool (takes_entry e q) =
      unat (queue_status q (current_slot q))"
    using assms(2-4) d thread_other thread_wheel
    by (cases e; auto simp: turns_wheel_def takes_entry_def)+
qed

lemma drain_run:
  assumes "wheel_guard q" and "th_pc q 1 = At Ready" and "run_ok qm_step qm_ok es q" and "\<not> list_ex turns_wheel es"
  shows "th_pc (run qm_step es q) 1 = At Ready \<and> current_slot (run qm_step es q) = current_slot q \<and>
    unat (queue_status (run qm_step es q) (current_slot q)) + taken es q = unat (queue_status q (current_slot q))"
  using assms
proof (induction es arbitrary: q)
  case (Cons e es)
  have ok: "qm_ok e q" "\<not> turns_wheel e" using Cons.prems by auto
  note d = drain_step [OF Cons.prems(1,2) ok]
  have "wheel_guard (qm_step e q)" by (rule wheel_guard_step [OF Cons.prems(1) ok(1)])
  from Cons.IH [OF this d(1)] Cons.prems(3,4) d(2,3) show ?case by simp
qed simp

text \<open>
  C6. The wheel turns. Whenever context 1 waits for the current slot to drain, in a state reached
  from the start, and whatever steps the other contexts, postprocessing and the slow path then take,
  nothing is added to the slot: its counter plus the number of entries the contexts have taken from
  it stays what it was. After that many polls the counter is zero and the next step of context 1
  moves on to the next slot.
\<close>

theorem wheel_slot_drains:
  fixes cc start es es'
  assumes "\<And>f. cc_tx_avail (cc f) = 0" and "run_ok qm_step qm_ok es (qm_start start cc)"
  defines "q \<equiv> run qm_step es (qm_start start cc)"
  assumes "th_pc q 1 = At Ready" and "run_ok qm_step qm_ok es' q" and "\<not> list_ex turns_wheel es'"
  defines "q' \<equiv> run qm_step es' q"
  shows "unat (queue_status q' (current_slot q)) + taken es' q = unat (queue_status q (current_slot q)) \<and>
    current_slot (qm_step (Thread 1 now) q') =
      (if taken es' q = unat (queue_status q (current_slot q))
       then (current_slot q + 1) AND (QM_NUM_SLOTS - 1) else current_slot q)"
proof -
  have "wheel_guard (qm_start start cc)" using qm_inv_start [OF assms(1)]
    by (simp add: wheel_guard_def) (simp add: qm_start_def select_slot_start_def)
  then have "wheel_guard q" unfolding q_def by (rule wheel.run_invar [OF _ assms(2)])
  from drain_run [OF this assms(4-6)] show ?thesis
    by (auto simp: q'_def [symmetric] qm_thread_def select_slot_def Let_def unat_eq_0)
qed

subsection \<open>A run: one flow on the wheel\<close>

text \<open>
  Flow 5 of flow group 1 gets a rate limit and 3000 bytes to send; it is queued in the current slot,
  context 1 starts to turn the wheel and context 4 takes the entry.
\<close>

definition idle_cc :: flowst_cc_t where
  "idle_cc = \<lparr>cc_tx_avail = 0, cc_tx_rate = 0, cc_rtt_est = 0, cc_txp = 0, cc_cnt_tx_drops = 0,
     cc_cnt_rx_acks = 0, cc_cnt_rx_ack_bytes = 0, cc_cnt_rx_ecn_bytes = 0\<rparr>"

definition bump_5 :: work_result_t where
  "bump_5 = sample_result\<lparr>res_work := \<lparr>raw0 = 0, raw1 = 0, raw2 = 5 * 65536\<rparr>, res_flags := WORK_RESULT_QM,
     res_qm_bump := 3000\<rparr>"

definition qm_run :: "qm_event list" where
  "qm_run = [Set_Rate 5 100, Post (Pp_Ac bump_5) (sample_pp\<lparr>flow_grp_mask := 0x10000\<rparr>),
     Thread 0 0, Thread 0 0, Thread 0 0, Thread 1 0]"

definition qm_started :: qman where "qm_started = qm_start 0 (\<lambda>_. idle_cc)"

definition qm_rated :: qman where
  "qm_rated = qm_started\<lparr>qm_cc := (\<lambda>_. idle_cc)(5 := idle_cc\<lparr>cc_tx_rate := 100, cc_tx_avail := 3000\<rparr>)\<rparr>"

definition qm_on_wheel :: qman where
  "qm_on_wheel = qm_rated\<lparr>queue_status := (\<lambda>_. 0)(0 := 1), qm_slot_ring := (\<lambda>_. [])(0 := [0x10005]),
     skip_slot := 1, th_pc := (\<lambda>_. At Top)(1 := At Ready)\<rparr>"

lemma bump_5_eval [simp]: "work_flow_id (res_work bump_5) = 5" "has_flag (res_flags bump_5) WORK_RESULT_QM"
    "res_qm_bump bump_5 = 3000" "\<not> has_flag (res_flags bump_5) WORK_RESULT_QM_FORCE"
  by (simp_all add: bump_5_def work_flow_id_def bf_get_def has_flag_def WORK_RESULT_QM_def WORK_RESULT_QM_FORCE_def)

lemma started_fields [simp]:
  "queue_status qm_started = (\<lambda>_. 0)" "qm_slot_ring qm_started = (\<lambda>_. [])" "qm_fifo_ring qm_started = []"
  "qm_bump_ring qm_started = []" "th_pc qm_started = (\<lambda>_. At Top)" "qm_cc qm_started = (\<lambda>_. idle_cc)"
  "current_slot qm_started = 0" "skip_slot qm_started = 0" "qm_avail_credits qm_started = 0"
  "sel_next_ts qm_started = 16"
  by (simp_all add: qm_started_def qm_start_def select_slot_start_def qm_params)

lemma post_bump_5:
  "pp_step (Pp_Ac bump_5) (sample_pp\<lparr>flow_grp_mask := 0x10000\<rparr>)
     (qm_started\<lparr>qm_cc := (\<lambda>_. idle_cc)(5 := idle_cc\<lparr>cc_tx_rate := 100\<rparr>)\<rparr>) = qm_rated\<lparr>qm_bump_ring := [0x10005]\<rparr>"
  by (simp add: pp_step_def postprocess_ac_def push_qm_bump_def upd_cc_def emit_def Let_def qm_rated_def idle_cc_def)

lemma qm_run_states:
  "qm_step (Set_Rate 5 100) qm_started = qm_started\<lparr>qm_cc := (\<lambda>_. idle_cc)(5 := idle_cc\<lparr>cc_tx_rate := 100\<rparr>)\<rparr>"
  "qm_step (Thread 0 0) (qm_rated\<lparr>qm_bump_ring := [0x10005]\<rparr>) = goto 0 (Read 0x10005) (qm_rated\<lparr>qm_bump_ring := []\<rparr>)"
  "qm_step (Thread 0 0) (goto 0 (Read 0x10005) (qm_rated\<lparr>qm_bump_ring := []\<rparr>)) =
     goto 0 (Add 0x10005 3000 100 Top) (qm_rated\<lparr>qm_bump_ring := []\<rparr>)"
  "qm_step (Thread 0 0) (goto 0 (Add 0x10005 3000 100 Top) (qm_rated\<lparr>qm_bump_ring := []\<rparr>)) =
     qm_on_wheel\<lparr>skip_slot := 0, th_pc := \<lambda>_. At Top\<rparr>"
  "qm_step (Thread 1 0) (qm_on_wheel\<lparr>skip_slot := 0, th_pc := \<lambda>_. At Top\<rparr>) = qm_on_wheel"
proof -
  show "qm_step (Set_Rate 5 100) qm_started = qm_started\<lparr>qm_cc := (\<lambda>_. idle_cc)(5 := idle_cc\<lparr>cc_tx_rate := 100\<rparr>)\<rparr>"
    by simp
  show "qm_step (Thread 0 0) (qm_rated\<lparr>qm_bump_ring := [0x10005]\<rparr>) = goto 0 (Read 0x10005) (qm_rated\<lparr>qm_bump_ring := []\<rparr>)"
    by (simp add: qm_thread_def queue_postproc_poll_def qm_rated_def goto_def)
  show "qm_step (Thread 0 0) (goto 0 (Read 0x10005) (qm_rated\<lparr>qm_bump_ring := []\<rparr>)) =
     goto 0 (Add 0x10005 3000 100 Top) (qm_rated\<lparr>qm_bump_ring := []\<rparr>)"
    by (simp add: qm_thread_def queue_postproc_poll_def Let_def) (simp add: goto_def qm_rated_def)
  have "flow_add_to_queue 0x10005 3000 100 q = q\<lparr>queue_status := (queue_status q)(0 := queue_status q 0 + 1),
      qm_slot_ring := (qm_slot_ring q)(0 := ring_journal QM_SLOT_LEN 0x10005 (qm_slot_ring q 0))\<rparr>"
    if "current_slot q = 0" "skip_slot q = 0" for q
    using that by (simp add: flow_add_to_queue_def Let_def QM_NUM_SLOTS_def TCP_MSS_def QM_SLOT_RESOLUTION_TS_CYC_SHIFT_def min_def)
  moreover have "current_slot (goto 0 (Add 0x10005 3000 100 Top) (qm_rated\<lparr>qm_bump_ring := []\<rparr>)) = 0"
    "skip_slot (goto 0 (Add 0x10005 3000 100 Top) (qm_rated\<lparr>qm_bump_ring := []\<rparr>)) = 0"
    by (simp_all add: qm_rated_def)
  ultimately have "qm_step (Thread 0 0) (goto 0 (Add 0x10005 3000 100 Top) (qm_rated\<lparr>qm_bump_ring := []\<rparr>)) =
      goto 0 (At Top) (qm_rated\<lparr>qm_bump_ring := [], queue_status := (\<lambda>_. 0)(0 := 1), qm_slot_ring := (\<lambda>_. [])(0 := [0x10005])\<rparr>)"
    by (simp add: qm_thread_def queue_postproc_poll_def) (simp add: goto_def qm_rated_def ring_journal_def QM_SLOT_LEN_def)
  also have "\<dots> = qm_on_wheel\<lparr>skip_slot := 0, th_pc := \<lambda>_. At Top\<rparr>"
    by (intro qman.equality) (simp_all add: goto_def qm_on_wheel_def qm_rated_def fun_eq_iff)
  finally show "qm_step (Thread 0 0) (goto 0 (Add 0x10005 3000 100 Top) (qm_rated\<lparr>qm_bump_ring := []\<rparr>)) =
     qm_on_wheel\<lparr>skip_slot := 0, th_pc := \<lambda>_. At Top\<rparr>" .
  show "qm_step (Thread 1 0) (qm_on_wheel\<lparr>skip_slot := 0, th_pc := \<lambda>_. At Top\<rparr>) = qm_on_wheel"
    by (simp add: qm_thread_def select_slot_def qm_on_wheel_def goto_def)
qed

lemma qm_run_ends: "run qm_step qm_run (qm_start 0 (\<lambda>_. idle_cc)) = qm_on_wheel"
  unfolding qm_run_def qm_started_def [symmetric] run.simps qm_run_states(1) qm_step.simps(2) post_bump_5
  by (simp only: qm_run_states)

lemma qm_run_ok: "run_ok qm_step qm_ok qm_run (qm_start 0 (\<lambda>_. idle_cc))"
proof -
  have r: "room qm_on_wheel" "room (qm_rated\<lparr>qm_bump_ring := b\<rparr>)" for b
    by (simp_all add: room_def qm_on_wheel_def qm_rated_def QM_FIFO_LEN_def QM_SLOT_LEN_def)
  then have "room (goto 0 p (qm_rated\<lparr>qm_bump_ring := b\<rparr>))" "room (qm_on_wheel\<lparr>skip_slot := 0, th_pc := x\<rparr>)" for p b x
    by (simp_all add: room_def)
  with r show ?thesis
    unfolding qm_run_def qm_started_def [symmetric] run_ok.simps qm_run_states(1) qm_step.simps(2) post_bump_5
    by (simp add: qm_run_states del: qm_step.simps)
qed

theorem qman_no_flow_lost_witness:
  "(\<forall>f. cc_tx_avail ((\<lambda>_. idle_cc) (f :: u32)) = 0) \<and> run_ok qm_step qm_ok qm_run (qm_start 0 (\<lambda>_. idle_cc)) \<and>
   cc_tx_avail (qm_cc qm_on_wheel 5) = 3000 \<and> queued qm_on_wheel 5 \<and> queue_status qm_on_wheel 0 = 1"
  using qman_no_flow_lost [of "\<lambda>_. idle_cc" qm_run 0 5 0] qm_run_ok
  by (simp add: qm_run_ends) (simp add: qm_on_wheel_def qm_rated_def idle_cc_def)

theorem flow_add_to_queue_slot_witness:
  "current_slot qm_on_wheel < QM_NUM_SLOTS \<and> skip_slot qm_on_wheel = 1 \<and> room qm_on_wheel \<and>
   flow_add_to_queue 7 3000 100 qm_on_wheel =
     qm_on_wheel\<lparr>queue_status := (queue_status qm_on_wheel)(1 := 1),
       qm_slot_ring := (qm_slot_ring qm_on_wheel)(1 := [7])\<rparr>"
proof -
  have f: "current_slot qm_on_wheel = 0" "skip_slot qm_on_wheel = 1" "room qm_on_wheel" "queue_status qm_on_wheel 1 = 0"
    "qm_slot_ring qm_on_wheel 1 = []"
    by (simp_all add: qm_on_wheel_def qm_rated_def room_def QM_FIFO_LEN_def QM_SLOT_LEN_def)
  have "slot_dist 100 3000 1 = 1" by (simp add: slot_dist_def)
  with flow_add_to_queue_slot [of 100 qm_on_wheel 7 3000] f show ?thesis by (simp add: QM_NUM_SLOTS_def)
qed

theorem wheel_slot_drains_witness:
  "th_pc qm_on_wheel 1 = At Ready \<and> taken [Thread 4 0] qm_on_wheel = 1 \<and>
   current_slot (qm_step (Thread 1 9) (run qm_step [Thread 4 0] qm_on_wheel)) = 1"
proof -
  have f: "th_pc qm_on_wheel 1 = At Ready" "th_pc qm_on_wheel 4 = At Top" "room qm_on_wheel" "current_slot qm_on_wheel = 0"
    "queue_status qm_on_wheel 0 = 1"
    by (simp_all add: qm_on_wheel_def qm_rated_def room_def QM_FIFO_LEN_def QM_SLOT_LEN_def)
  then have t: "taken [Thread 4 0] qm_on_wheel = 1" by (simp add: takes_entry_def)
  have i: "\<And>f. cc_tx_avail ((\<lambda>_. idle_cc) (f :: u32)) = 0" by (simp add: idle_cc_def)
  have "th_pc (run qm_step qm_run (qm_start 0 (\<lambda>_. idle_cc))) 1 = At Ready"
    "run_ok qm_step qm_ok [Thread 4 0] (run qm_step qm_run (qm_start 0 (\<lambda>_. idle_cc)))"
    "\<not> list_ex turns_wheel [Thread 4 0]"
    using f by (simp_all add: qm_run_ends turns_wheel_def)
  from wheel_slot_drains [of "\<lambda>_. idle_cc", OF i qm_run_ok this, of 9] show ?thesis
    using f t by (simp only: qm_run_ends) (simp add: QM_NUM_SLOTS_def)
qed

subsection \<open>Credits and flow groups\<close>

lemma thread_refresh:
  assumes "2 \<le> t"
  shows "th_pc q t = Refresh p \<Longrightarrow> qm_thread t now q = refresh_issue t p q"
    and "th_pc q t = Refreshed v p \<Longrightarrow> qm_thread t now q = refresh_credits t v p q"
  using assms
  by (cases "t = 2"; cases "t = 3";
      simp add: qm_thread_def queue_localfifo_poll_def queue_fifo_poll_def queue_slot_poll_def serve_def)+

text \<open>
  A refresh of credits creates credits. The credits of the queue manager and those waiting in
  the shared counter are meant to bound the segments in flight. A refresh takes at most 128 off the
  counter but adds to the credits all that the counter held: their sum grows by what the counter held
  above 128.
\<close>

theorem refresh_credits_inflates:
  fixes q t p now now'
  assumes "2 \<le> t" and "th_pc q t = Refresh p" and "unat (credits q) + unat (qm_avail_credits q) < 2 ^ 32"
  defines "q' \<equiv> qm_thread t now' (qm_thread t now q)"
  shows "unat (credits q') + unat (qm_avail_credits q') =
    unat (credits q) + unat (qm_avail_credits q) + (unat (qm_avail_credits q) - 128)"
proof -
  have q': "q' = refresh_credits t (qm_avail_credits q) p (refresh_issue t p q)"
    using thread_refresh(1) [OF assms(1,2)] thread_refresh(2) [OF assms(1)] by (simp add: q'_def)
  have "unat (qm_avail_credits q') = unat (qm_avail_credits q) - 128"
    by (simp add: q' refresh_credits_def refresh_issue_def subsat_def FLOW_QM_CREDITS_def word_nat unat_sub_exact)
  moreover have "credits q' = credits q + qm_avail_credits q"
    by (simp add: q' refresh_credits_def refresh_issue_def)
  ultimately show ?thesis using unat_add_exact [OF assms(3)] by simp
qed

definition low_credits :: qman where
  "low_credits = qm_started\<lparr>credits := 255, qm_avail_credits := 512, th_pc := (\<lambda>_. At Top)(4 := Refresh (At Top))\<rparr>"

theorem refresh_credits_inflates_witness:
  "th_pc low_credits 4 = Refresh (At Top) \<and>
   unat (credits (qm_thread 4 0 (qm_thread 4 0 low_credits))) + unat (qm_avail_credits (qm_thread 4 0 (qm_thread 4 0 low_credits))) =
     255 + 512 + 384"
proof -
  have f: "th_pc low_credits 4 = Refresh (At Top)" "credits low_credits = 255" "qm_avail_credits low_credits = 512"
    by (simp_all add: low_credits_def)
  from refresh_credits_inflates [of 4 low_credits "At Top" 0 0] show ?thesis by (simp add: f)
qed

text \<open>
  A flow taken from the local queue loses its flow group. The segment it is taken out for goes to
  the scheduling ring of its flow group, but the flow is queued again by its number alone: the next
  segment goes to the ring of flow group 0, whatever the group of the flow is.
\<close>

theorem localfifo_requeues_without_group:
  assumes "th_pc q 2 = At Ready" and "credits q \<noteq> 0" and "queue_local_fifo q (q_head q) = (g, v)"
    and "TCP_MSS \<le> v" and "v < TCP_MSS + TCP_MSS" and "length (qm_fifo_ring q) < QM_FIFO_LEN"
  shows "qm_sched_ring (queue_localfifo_poll q) grp =
      qm_sched_ring q grp @ (if grp = drop_bit 16 g AND 3 then [low g] else []) \<and>
    qm_fifo_ring (queue_localfifo_poll q) = qm_fifo_ring q @ [low g] \<and>
    qm_sched_ring (schedule (low g) q') = (qm_sched_ring q')(0 := qm_sched_ring q' 0 @ [low g])"
proof -
  define q2 where "q2 = sub_avail (low g) (schedule g (q\<lparr>q_head := (q_head q + 1) AND 255\<rparr>))"
  have "v - TCP_MSS < TCP_MSS" using assms(4,5) by (simp add: word_nat TCP_MSS_def unat_sub_exact)
  then have "flow_add_to_queue (low g) (v - TCP_MSS) 0 q2 =
      q2\<lparr>queue_status_fifo := queue_status_fifo q2 + 1, qm_fifo_ring := ring_journal QM_FIFO_LEN (low g) (qm_fifo_ring q2)\<rparr>"
    by (simp add: flow_add_to_queue_def Let_def)
  then have "queue_localfifo_poll q = round_done 2 Top
      (q2\<lparr>queue_status_fifo := queue_status_fifo q2 + 1, qm_fifo_ring := ring_journal QM_FIFO_LEN (low g) (qm_fifo_ring q2)\<rparr>)"
    using assms(1-3) by (simp add: queue_localfifo_poll_def q2_def QM_LOCAL_FIFO_def Let_def)
  moreover have "qm_sched_ring (round_done t k x) = qm_sched_ring x" "qm_fifo_ring (round_done t k x) = qm_fifo_ring x" for t k x
    by (simp_all add: round_done_def)
  moreover have "qm_sched_ring q2 grp = qm_sched_ring q grp @ (if grp = drop_bit 16 g AND 3 then [low g] else [])"
    "qm_fifo_ring q2 = qm_fifo_ring q"
    by (simp_all add: q2_def sub_avail_def schedule_def Let_def NUM_FLOW_GROUPS_def)
  moreover have "drop_bit 16 (low g) = 0" by (rule bit_word_eqI) (use bit_mask_iff [where ?'a = u32 and m = 16] in \<open>auto simp: bit_drop_bit_eq bit_and_iff mask_eq_exp_minus_1\<close>)
  moreover have "low (low g) = low g" by (simp add: and.assoc)
  ultimately show ?thesis using assms(6) by (simp add: ring_journal_def schedule_def Let_def)
qed

definition group_1_flow :: qman where
  "group_1_flow = qm_started\<lparr>th_pc := (\<lambda>_. At Top)(2 := At Ready),
     queue_local_fifo := (\<lambda>_. (0, 0))(0 := (0x10005, 2000)), q_tail := 1\<rparr>"

theorem localfifo_requeues_without_group_witness:
  "credits group_1_flow = 767 \<and> queue_local_fifo group_1_flow (q_head group_1_flow) = (0x10005, 2000) \<and>
   qm_sched_ring (queue_localfifo_poll group_1_flow) 1 = [5] \<and>
   qm_fifo_ring (queue_localfifo_poll group_1_flow) = [5] \<and>
   qm_sched_ring (schedule 5 (queue_localfifo_poll group_1_flow)) 0 = [5]"
proof -
  have st: "credits qm_started = 767" "q_head qm_started = 0" "qm_sched_ring qm_started = (\<lambda>_. [])"
    by (simp_all add: qm_started_def qm_start_def select_slot_start_def FLOW_QM_CREDITS_def)
  then have f: "th_pc group_1_flow 2 = At Ready" "credits group_1_flow = 767"
    "queue_local_fifo group_1_flow (q_head group_1_flow) = (0x10005, 2000)" "qm_fifo_ring group_1_flow = []"
    "qm_sched_ring group_1_flow = (\<lambda>_. [])" by (simp_all add: group_1_flow_def)
  note t = localfifo_requeues_without_group [OF f(1) _ f(3)]
  have "qm_sched_ring (queue_localfifo_poll group_1_flow) 1 = [5] \<and> qm_fifo_ring (queue_localfifo_poll group_1_flow) = [5]"
    using t [of 1 group_1_flow] by (simp add: f TCP_MSS_def QM_FIFO_LEN_def)
  moreover have "qm_sched_ring (queue_localfifo_poll group_1_flow) 0 = []"
    using t [of 0 group_1_flow] by (simp add: f TCP_MSS_def QM_FIFO_LEN_def)
  moreover have "qm_sched_ring (schedule 5 q') = (qm_sched_ring q')(0 := qm_sched_ring q' 0 @ [5])" for q'
    using t [of 0 q'] by (simp add: f TCP_MSS_def QM_FIFO_LEN_def)
  ultimately show ?thesis using f by simp
qed

end
