(* ===== verification/Flow_Lookup.thy ===== *)
theory Flow_Lookup
  imports Flextoe_Prelude
begin

unbundle bit_operations_syntax

text \<open>
  The table of offloaded connections, \<open>firmware/flow_lookup.c\<close> on the CAM-assisted hash table of
  \<open>flowenv/lib/lu\<close>: 4096 buckets of eight cells. A cell of the hash table holds 24 bits of the second
  hash of its key, with bit 0 set; the cell of the key table with the same index holds the key and the
  number of its flow. Zero is an empty cell.

  The two hash functions (CRC instructions of the micro-engine) and the CAM of the memory unit are
  parameters. For a bucket the CAM finds a cell that holds a given value, or an empty cell to write
  a new value to; which one, if there are several, is left open.
\<close>

subsection \<open>Data\<close>

record flow_key_t =
  key_raw0 :: u32
  key_raw1 :: u32
  key_raw2 :: u32

record flowht_entry_t =
  ht_key :: flow_key_t
  ht_flow_id :: u32

record flowht =
  hash_tbl :: "nat \<Rightarrow> u32"
  key_tbl :: "nat \<Rightarrow> flowht_entry_t"

record cam =
  cam_match :: "u32 \<Rightarrow> u32 list \<Rightarrow> nat option"
  cam_free :: "u32 list \<Rightarrow> nat option"

record camht_hash_t =
  primary :: u32
  secondary :: u32

definition FLEXNIC_PL_FLOWHT_ENTRIES :: nat where "FLEXNIC_PL_FLOWHT_ENTRIES = 32768"
definition CAMHT_BUCKET_ENTRIES :: nat where "CAMHT_BUCKET_ENTRIES = 8"
definition INVALID_FLOWID :: u32 where "INVALID_FLOWID = - 1"

definition CAMHT_BUCKET_IDX :: "u32 \<Rightarrow> nat" where
  "CAMHT_BUCKET_IDX h = unat (h AND (of_nat (FLEXNIC_PL_FLOWHT_ENTRIES div CAMHT_BUCKET_ENTRIES) - 1))"

definition CAMHT_BUCKET_HASH :: "u32 \<Rightarrow> u32" where
  "CAMHT_BUCKET_HASH h = (h AND 0x00FFFFFF) OR 1"

subsection \<open>The hash table\<close>

definition bucket :: "flowht \<Rightarrow> nat \<Rightarrow> u32 list" where
  "bucket ht b = map (\<lambda>i. hash_tbl ht (b * CAMHT_BUCKET_ENTRIES + i)) [0..<CAMHT_BUCKET_ENTRIES]"

definition camht_hash ::
  "(flow_key_t \<Rightarrow> u32) \<Rightarrow> (flow_key_t \<Rightarrow> u32) \<Rightarrow> flow_key_t \<Rightarrow> camht_hash_t" where
  "camht_hash crc crcc key = \<lparr>primary = crc key, secondary = crcc key\<rparr>"

definition camht_lookup_idx :: "cam \<Rightarrow> flowht \<Rightarrow> camht_hash_t \<Rightarrow> nat option" where
  "camht_lookup_idx cam ht hash =
     (let b_idx = CAMHT_BUCKET_IDX (primary hash)
      in map_option (\<lambda>m. b_idx * CAMHT_BUCKET_ENTRIES + m)
           (cam_match cam (CAMHT_BUCKET_HASH (secondary hash)) (bucket ht b_idx)))"

text \<open>The index, and whether the cell was added; the CAM writes the 24 bits of a new cell.\<close>

definition camht_lookup_idx_add :: "cam \<Rightarrow> flowht \<Rightarrow> camht_hash_t \<Rightarrow> (nat \<times> bool) option \<times> flowht" where
  "camht_lookup_idx_add cam ht hash =
     (let b_idx = CAMHT_BUCKET_IDX (primary hash);
          v = CAMHT_BUCKET_HASH (secondary hash)
      in case cam_match cam v (bucket ht b_idx) of
           Some m \<Rightarrow> (Some (b_idx * CAMHT_BUCKET_ENTRIES + m, False), ht)
         | None \<Rightarrow>
             (case cam_free cam (bucket ht b_idx) of
                None \<Rightarrow> (None, ht)
              | Some m \<Rightarrow>
                  let i = b_idx * CAMHT_BUCKET_ENTRIES + m
                  in (Some (i, True),
                      ht\<lparr>hash_tbl := (hash_tbl ht)(i := (hash_tbl ht i AND 0xFF000000) OR v)\<rparr>)))"

definition camht_lookup ::
  "(flow_key_t \<Rightarrow> u32) \<Rightarrow> (flow_key_t \<Rightarrow> u32) \<Rightarrow> cam \<Rightarrow> flowht \<Rightarrow> flow_key_t \<Rightarrow> nat option" where
  "camht_lookup crc crcc cam ht key =
     (case camht_lookup_idx cam ht (camht_hash crc crcc key) of
        None \<Rightarrow> None
      | Some idx \<Rightarrow> if ht_key (key_tbl ht idx) = key then Some idx else None)"

definition camht_lookup_add ::
  "(flow_key_t \<Rightarrow> u32) \<Rightarrow> (flow_key_t \<Rightarrow> u32) \<Rightarrow> cam \<Rightarrow> flowht_entry_t \<Rightarrow> flowht \<Rightarrow> bool \<times> flowht" where
  "camht_lookup_add crc crcc cam entry ht =
     (case camht_lookup_idx_add cam ht (camht_hash crc crcc (ht_key entry)) of
        (None, ht1) \<Rightarrow> (False, ht1)
      | (Some (idx, added), ht1) \<Rightarrow>
          (added, if added then ht1\<lparr>key_tbl := (key_tbl ht1)(idx := entry)\<rparr> else ht1))"

subsection \<open>The table of flows\<close>

definition flow_insert ::
  "(flow_key_t \<Rightarrow> u32) \<Rightarrow> (flow_key_t \<Rightarrow> u32) \<Rightarrow> cam \<Rightarrow> flowht_entry_t \<Rightarrow> flowht \<Rightarrow> int \<times> flowht" where
  "flow_insert crc crcc cam entry ht =
     (let (added, ht1) = camht_lookup_add crc crcc cam entry ht in (if added then 0 else - 1, ht1))"

definition flow_delete ::
  "(flow_key_t \<Rightarrow> u32) \<Rightarrow> (flow_key_t \<Rightarrow> u32) \<Rightarrow> cam \<Rightarrow> flow_key_t \<Rightarrow> flowht \<Rightarrow> int \<times> flowht" where
  "flow_delete crc crcc cam key ht =
     (case camht_lookup crc crcc cam ht key of
        None \<Rightarrow> (- 1, ht)
      | Some idx \<Rightarrow> (0, ht\<lparr>hash_tbl := (hash_tbl ht)(idx := hash_tbl ht idx AND NOT 0xF)\<rparr>))"

definition flow_hash ::
  "(flow_key_t \<Rightarrow> u32) \<Rightarrow> (flow_key_t \<Rightarrow> u32) \<Rightarrow> flow_key_t \<Rightarrow> camht_hash_t" where
  "flow_hash crc crcc key = camht_hash crc crcc key"

definition flow_lookup :: "cam \<Rightarrow> flow_key_t \<Rightarrow> camht_hash_t \<Rightarrow> flowht \<Rightarrow> u32" where
  "flow_lookup cam key hash ht =
     (case camht_lookup_idx cam ht hash of
        None \<Rightarrow> INVALID_FLOWID
      | Some idx \<Rightarrow>
          let entry = key_tbl ht idx
          in if ht_key entry = key then ht_flow_id entry else INVALID_FLOWID)"

subsection \<open>The CAM\<close>

abbreviation low24 :: "u32 \<Rightarrow> u32" where "low24 x \<equiv> x AND 0x00FFFFFF"

text \<open>What the documentation of the CAM promises.\<close>

definition cam_ok :: "cam \<Rightarrow> bool" where
  "cam_ok cam \<longleftrightarrow>
     (\<forall>v b. case cam_match cam v b of
        Some i \<Rightarrow> i < length b \<and> low24 (b ! i) = v
      | None \<Rightarrow> \<forall>x \<in> set b. low24 x \<noteq> v) \<and>
     (\<forall>b. case cam_free cam b of
        Some i \<Rightarrow> i < length b \<and> low24 (b ! i) = 0
      | None \<Rightarrow> \<forall>x \<in> set b. low24 x \<noteq> 0)"

text \<open>A CAM that takes the first cell.\<close>

definition first_cell :: "u32 \<Rightarrow> u32 list \<Rightarrow> nat option" where
  "first_cell v b = List.find (\<lambda>i. low24 (b ! i) = v) [0..<length b]"

definition first_cam :: cam where
  "first_cam = \<lparr>cam_match = first_cell, cam_free = first_cell 0\<rparr>"

lemma first_cell_ok:
  "case first_cell v b of Some i \<Rightarrow> i < length b \<and> low24 (b ! i) = v | None \<Rightarrow> \<forall>x \<in> set b. low24 x \<noteq> v"
proof (cases "first_cell v b")
  case None
  then have "\<forall>x \<in> set b. low24 x \<noteq> v" by (auto simp: first_cell_def find_None_iff in_set_conv_nth)
  with None show ?thesis by simp
next
  case (Some i)
  then have "i < length b \<and> low24 (b ! i) = v" by (auto simp: first_cell_def find_Some_iff)
  with Some show ?thesis by simp
qed

lemma first_cam_ok: "cam_ok first_cam"
  using first_cell_ok unfolding cam_ok_def first_cam_def by simp

lemma cam_match_Some: "cam_ok cam \<Longrightarrow> cam_match cam v b = Some i \<Longrightarrow> i < length b \<and> low24 (b ! i) = v"
  unfolding cam_ok_def by (metis (mono_tags, lifting) option.simps(5))

lemma cam_match_None: "cam_ok cam \<Longrightarrow> cam_match cam v b = None \<Longrightarrow> x \<in> set b \<Longrightarrow> low24 x \<noteq> v"
  unfolding cam_ok_def by (metis (mono_tags, lifting) option.simps(4))

lemma cam_free_Some: "cam_ok cam \<Longrightarrow> cam_free cam b = Some i \<Longrightarrow> i < length b \<and> low24 (b ! i) = 0"
  unfolding cam_ok_def by (metis (mono_tags, lifting) option.simps(5))

lemma cam_free_None: "cam_ok cam \<Longrightarrow> cam_free cam b = None \<Longrightarrow> x \<in> set b \<Longrightarrow> low24 x \<noteq> 0"
  unfolding cam_ok_def by (metis (mono_tags, lifting) option.simps(4))

subsection \<open>Cells\<close>

text \<open>A cell in use has bit 0 set.\<close>

abbreviation live :: "u32 \<Rightarrow> bool" where "live x \<equiv> bit x 0"

lemma bit_hash_0 [simp]: "live (CAMHT_BUCKET_HASH h)"
  by (simp add: CAMHT_BUCKET_HASH_def bit_or_iff)

lemma low24_bit: "i < 24 \<Longrightarrow> bit (low24 x) i = bit x i"
proof -
  have "(0x00FFFFFF :: u32) = mask 24" by (simp add: mask_eq_exp_minus_1)
  then show "i < 24 \<Longrightarrow> bit (low24 x) i = bit x i" by (simp only: bit_and_iff bit_mask_iff) simp
qed

lemma low24_live: "low24 x = CAMHT_BUCKET_HASH h \<Longrightarrow> live x"
  using low24_bit [of 0 x] by simp

lemma low24_zero: "low24 x = 0 \<Longrightarrow> \<not> live x"
  using low24_bit [of 0 x] by simp

lemma low24_hash [simp]: "low24 (CAMHT_BUCKET_HASH h) = CAMHT_BUCKET_HASH h"
  by (simp add: CAMHT_BUCKET_HASH_def bit.conj_disj_distrib2 and.assoc)

lemma low24_cell: "low24 ((x AND 0xFF000000) OR CAMHT_BUCKET_HASH h) = CAMHT_BUCKET_HASH h"
proof -
  have "low24 (x AND 0xFF000000) = 0" by (simp add: and.assoc)
  then show ?thesis by (simp add: bit.conj_disj_distrib2)
qed

lemma not_live_cleared: "\<not> live (x AND NOT 0xF)"
  by (simp add: bit_and_iff bit_not_iff)

lemma bucket_idx_less: "CAMHT_BUCKET_IDX h < 4096"
proof -
  have "unat (h AND (4095 :: u32)) = unat h mod 4096" using and_mask_nat [of 12 h] by simp
  then show ?thesis by (simp add: CAMHT_BUCKET_IDX_def FLEXNIC_PL_FLOWHT_ENTRIES_def CAMHT_BUCKET_ENTRIES_def)
qed

lemma length_bucket [simp]: "length (bucket ht b) = 8"
  by (simp add: bucket_def CAMHT_BUCKET_ENTRIES_def)

lemma bucket_nth: "i < 8 \<Longrightarrow> bucket ht b ! i = hash_tbl ht (b * 8 + i)"
  by (simp add: bucket_def CAMHT_BUCKET_ENTRIES_def)

lemma bucket_mem: "i div 8 = b \<Longrightarrow> hash_tbl ht i \<in> set (bucket ht b)"
proof -
  assume "i div 8 = b"
  then have "hash_tbl ht i = bucket ht b ! (i mod 8)" by (auto simp: bucket_nth)
  then show ?thesis by simp
qed

lemma index_split: "m < 8 \<Longrightarrow> (b * 8 + m) div 8 = (b :: nat)" "b < 4096 \<Longrightarrow> m < 8 \<Longrightarrow> b * 8 + m < 32768"
  by simp_all

subsection \<open>The invariant\<close>

definition cell_ok :: "(flow_key_t \<Rightarrow> u32) \<Rightarrow> (flow_key_t \<Rightarrow> u32) \<Rightarrow> flowht \<Rightarrow> nat \<Rightarrow> bool" where
  "cell_ok crc crcc ht i \<longleftrightarrow>
     CAMHT_BUCKET_IDX (crc (ht_key (key_tbl ht i))) = i div 8 \<and>
     low24 (hash_tbl ht i) = CAMHT_BUCKET_HASH (crcc (ht_key (key_tbl ht i)))"

definition ht_ok :: "(flow_key_t \<Rightarrow> u32) \<Rightarrow> (flow_key_t \<Rightarrow> u32) \<Rightarrow> flowht \<Rightarrow> bool" where
  "ht_ok crc crcc ht \<longleftrightarrow>
     (\<forall>i. live (hash_tbl ht i) \<longrightarrow> i < 32768 \<and> cell_ok crc crcc ht i) \<and>
     (\<forall>i j. live (hash_tbl ht i) \<longrightarrow> live (hash_tbl ht j) \<longrightarrow> i div 8 = j div 8 \<longrightarrow>
        low24 (hash_tbl ht i) = low24 (hash_tbl ht j) \<longrightarrow> i = j)"

text \<open>The flows in the table, as a map.\<close>

definition ht_rel :: "(flow_key_t \<rightharpoonup> u32) \<Rightarrow> flowht \<Rightarrow> bool" where
  "ht_rel m ht \<longleftrightarrow> (\<forall>k f. m k = Some f \<longleftrightarrow> (\<exists>i. live (hash_tbl ht i) \<and> key_tbl ht i = \<lparr>ht_key = k, ht_flow_id = f\<rparr>))"

lemma camht_lookup_idx_iff:
  assumes "cam_ok cam" and "ht_ok crc crcc ht"
  shows "camht_lookup_idx cam ht (camht_hash crc crcc k) = Some i \<and> ht_key (key_tbl ht i) = k \<longleftrightarrow>
    live (hash_tbl ht i) \<and> ht_key (key_tbl ht i) = k"
proof -
  define b v where "b = CAMHT_BUCKET_IDX (crc k)" and "v = CAMHT_BUCKET_HASH (crcc k)"
  have l: "camht_lookup_idx cam ht (camht_hash crc crcc k) = map_option (\<lambda>m. b * 8 + m) (cam_match cam v (bucket ht b))"
    by (simp add: camht_lookup_idx_def camht_hash_def b_def v_def CAMHT_BUCKET_ENTRIES_def Let_def)
  have hit: "live (hash_tbl ht (b * 8 + m)) \<and> low24 (hash_tbl ht (b * 8 + m)) = v \<and> m < 8"
    if "cam_match cam v (bucket ht b) = Some m" for m
    using cam_match_Some [OF assms(1) that] low24_live by (auto simp: bucket_nth v_def)
  show ?thesis
  proof
    assume "camht_lookup_idx cam ht (camht_hash crc crcc k) = Some i \<and> ht_key (key_tbl ht i) = k"
    then show "live (hash_tbl ht i) \<and> ht_key (key_tbl ht i) = k" using hit by (auto simp: l)
  next
    assume a: "live (hash_tbl ht i) \<and> ht_key (key_tbl ht i) = k"
    then have c: "i div 8 = b" "low24 (hash_tbl ht i) = v"
      using assms(2) by (auto simp: ht_ok_def cell_ok_def b_def v_def)
    then obtain m where m: "cam_match cam v (bucket ht b) = Some m"
      using cam_match_None [OF assms(1) _ bucket_mem, of v ht b i] by (cases "cam_match cam v (bucket ht b)") auto
    then have "b * 8 + m = i" using hit [OF m] a c assms(2) unfolding ht_ok_def by (metis index_split(1))
    with m a show "camht_lookup_idx cam ht (camht_hash crc crcc k) = Some i \<and> ht_key (key_tbl ht i) = k"
      by (simp add: l)
  qed
qed

lemma flow_lookup_map:
  assumes "cam_ok cam" and "ht_ok crc crcc ht" and "ht_rel m ht"
  shows "flow_lookup cam k (flow_hash crc crcc k) ht = (case m k of None \<Rightarrow> INVALID_FLOWID | Some f \<Rightarrow> f)"
proof (cases "m k")
  case None
  have "\<not> (live (hash_tbl ht i) \<and> ht_key (key_tbl ht i) = k)" for i
    using None assms(3) unfolding ht_rel_def by (metis flowht_entry_t.surjective old.unit.exhaust option.distinct(1))
  then have "\<not> (camht_lookup_idx cam ht (camht_hash crc crcc k) = Some i \<and> ht_key (key_tbl ht i) = k)" for i
    using camht_lookup_idx_iff [OF assms(1,2)] by blast
  then show ?thesis using None by (auto simp: flow_lookup_def flow_hash_def Let_def split: option.split)
next
  case (Some f)
  then obtain i where "live (hash_tbl ht i)" "key_tbl ht i = \<lparr>ht_key = k, ht_flow_id = f\<rparr>"
    using assms(3) by (auto simp: ht_rel_def)
  then show ?thesis using camht_lookup_idx_iff [OF assms(1,2), of k i] Some
    by (simp add: flow_lookup_def flow_hash_def)
qed

subsection \<open>Insertion and deletion\<close>

text \<open>An insertion either changes nothing, or writes a cell of the bucket of its key that was empty.\<close>

lemma flow_insert_cases:
  assumes "cam_ok cam"
  obtains (refused) "flow_insert crc crcc cam e ht = (- 1, ht)"
  | (added) i where "i div 8 = CAMHT_BUCKET_IDX (crc (ht_key e))" and "i < 32768" and "low24 (hash_tbl ht i) = 0"
      and "\<And>j. j div 8 = i div 8 \<Longrightarrow> low24 (hash_tbl ht j) \<noteq> CAMHT_BUCKET_HASH (crcc (ht_key e))"
      and "flow_insert crc crcc cam e ht = (0, ht\<lparr>hash_tbl := (hash_tbl ht)(i := (hash_tbl ht i AND 0xFF000000) OR
             CAMHT_BUCKET_HASH (crcc (ht_key e))), key_tbl := (key_tbl ht)(i := e)\<rparr>)"
proof -
  define b v where "b = CAMHT_BUCKET_IDX (crc (ht_key e))" and "v = CAMHT_BUCKET_HASH (crcc (ht_key e))"
  note d = flow_insert_def camht_lookup_add_def camht_lookup_idx_add_def camht_hash_def Let_def CAMHT_BUCKET_ENTRIES_def
  show thesis
  proof (cases "cam_match cam v (bucket ht b)")
    case (Some m)
    then show thesis by (intro refused) (simp add: d flip: b_def v_def)
  next
    case n: None
    show thesis
    proof (cases "cam_free cam (bucket ht b)")
      case None
      with n show thesis by (intro refused) (simp add: d flip: b_def v_def)
    next
      case (Some m)
      have m: "m < 8" "low24 (hash_tbl ht (b * 8 + m)) = 0"
        using cam_free_Some [OF assms Some] by (auto simp: bucket_nth)
      show thesis
      proof (rule added [of "b * 8 + m"])
        show "(b * 8 + m) div 8 = CAMHT_BUCKET_IDX (crc (ht_key e))" "b * 8 + m < 32768"
          using m(1) bucket_idx_less [of "crc (ht_key e)"] by (simp_all add: b_def)
        show "low24 (hash_tbl ht j) \<noteq> CAMHT_BUCKET_HASH (crcc (ht_key e))" if "j div 8 = (b * 8 + m) div 8" for j
          using cam_match_None [OF assms n bucket_mem, of j] that m(1) by (simp add: v_def)
      qed (use n Some m in \<open>simp_all add: d flip: b_def v_def\<close>)
    qed
  qed
qed

lemma flow_insert_added:
  assumes "ht_ok crc crcc ht" and "ht_rel m ht"
    and i: "i div 8 = CAMHT_BUCKET_IDX (crc (ht_key e))" "i < 32768" "low24 (hash_tbl ht i) = 0"
    and fresh: "\<And>j. j div 8 = i div 8 \<Longrightarrow> low24 (hash_tbl ht j) \<noteq> CAMHT_BUCKET_HASH (crcc (ht_key e))"
    and ht': "ht' = ht\<lparr>hash_tbl := (hash_tbl ht)(i := (hash_tbl ht i AND 0xFF000000) OR
             CAMHT_BUCKET_HASH (crcc (ht_key e))), key_tbl := (key_tbl ht)(i := e)\<rparr>"
  shows "ht_ok crc crcc ht'" and "m (ht_key e) = None" and "ht_rel (m(ht_key e \<mapsto> ht_flow_id e)) ht'"
proof -
  define x where "x = (hash_tbl ht i AND 0xFF000000) OR CAMHT_BUCKET_HASH (crcc (ht_key e))"
  have x: "low24 x = CAMHT_BUCKET_HASH (crcc (ht_key e))" "live x"
    unfolding x_def using low24_cell low24_live by blast+
  have h': "hash_tbl ht' = (hash_tbl ht)(i := x)" "key_tbl ht' = (key_tbl ht)(i := e)" by (simp_all add: ht' x_def)
  have dead: "\<not> live (hash_tbl ht i)" by (rule low24_zero [OF i(3)])
  have none: "ht_key (key_tbl ht j) \<noteq> ht_key e" if "live (hash_tbl ht j)" for j
    using assms(1) that fresh [of j] i(1) by (auto simp: ht_ok_def cell_ok_def)
  then show m: "m (ht_key e) = None"
    using assms(2) unfolding ht_rel_def by (metis flowht_entry_t.select_convs(1) not_None_eq)
  have "cell_ok crc crcc ht' i" using x i(1) by (simp add: cell_ok_def h')
  moreover have "cell_ok crc crcc ht' j = cell_ok crc crcc ht j" if "j \<noteq> i" for j
    using that by (simp add: cell_ok_def h')
  moreover have "j = k" if "live (hash_tbl ht' j)" "live (hash_tbl ht' k)" "j div 8 = k div 8"
      "low24 (hash_tbl ht' j) = low24 (hash_tbl ht' k)" for j k
  proof -
    have "\<not> (u = i \<and> w \<noteq> i \<and> u div 8 = w div 8 \<and> low24 (hash_tbl ht' u) = low24 (hash_tbl ht' w))" for u w
      using fresh [of w] x(1) by (auto simp: h')
    with that have "(j = i) = (k = i)" by metis
    then show ?thesis using that assms(1) unfolding ht_ok_def by (cases "j = i") (auto simp: h')
  qed
  moreover have "j < 32768 \<and> (j \<noteq> i \<longrightarrow> cell_ok crc crcc ht j)" if "live (hash_tbl ht' j)" for j
    using that assms(1) i(2) by (cases "j = i") (auto simp: h' ht_ok_def)
  ultimately show "ht_ok crc crcc ht'" unfolding ht_ok_def by metis
  have "(m(ht_key e \<mapsto> ht_flow_id e)) k = Some f \<longleftrightarrow>
      (\<exists>j. live (hash_tbl ht' j) \<and> key_tbl ht' j = \<lparr>ht_key = k, ht_flow_id = f\<rparr>)" for k f
  proof (cases "k = ht_key e")
    case True
    show ?thesis
    proof
      assume "(m(ht_key e \<mapsto> ht_flow_id e)) k = Some f"
      with True x(2) have "live (hash_tbl ht' i) \<and> key_tbl ht' i = \<lparr>ht_key = k, ht_flow_id = f\<rparr>" by (simp add: h')
      then show "\<exists>j. live (hash_tbl ht' j) \<and> key_tbl ht' j = \<lparr>ht_key = k, ht_flow_id = f\<rparr>" by blast
    next
      assume "\<exists>j. live (hash_tbl ht' j) \<and> key_tbl ht' j = \<lparr>ht_key = k, ht_flow_id = f\<rparr>"
      then obtain j where j: "live (hash_tbl ht' j)" "key_tbl ht' j = \<lparr>ht_key = k, ht_flow_id = f\<rparr>" by blast
      then have "j = i" using none [of j] True by (cases "j = i") (auto simp: h')
      with j have "e = \<lparr>ht_key = k, ht_flow_id = f\<rparr>" by (simp add: h')
      then have "ht_flow_id e = f" by (metis flowht_entry_t.select_convs(2))
      with True show "(m(ht_key e \<mapsto> ht_flow_id e)) k = Some f" by simp
    qed
  next
    case False
    have "(live (hash_tbl ht' j) \<and> key_tbl ht' j = \<lparr>ht_key = k, ht_flow_id = f\<rparr>) =
        (live (hash_tbl ht j) \<and> key_tbl ht j = \<lparr>ht_key = k, ht_flow_id = f\<rparr>)" for j
      using dead False by (cases "j = i") (auto simp: h')
    then show ?thesis using False assms(2) by (simp add: ht_rel_def)
  qed
  then show "ht_rel (m(ht_key e \<mapsto> ht_flow_id e)) ht'" by (simp add: ht_rel_def)
qed

lemma camht_lookup_iff:
  assumes "cam_ok cam" and "ht_ok crc crcc ht"
  shows "camht_lookup crc crcc cam ht k = Some i \<longleftrightarrow> live (hash_tbl ht i) \<and> ht_key (key_tbl ht i) = k"
  unfolding camht_lookup_idx_iff [OF assms, symmetric] by (auto simp: camht_lookup_def split: option.split)

lemma flow_delete_map:
  assumes "cam_ok cam" and "ht_ok crc crcc ht" and "ht_rel m ht" and d: "flow_delete crc crcc cam k ht = (r, ht')"
  shows "ht_ok crc crcc ht'" and "ht_rel (m(k := None)) ht'" and "r = (if m k = None then - 1 else 0)"
proof -
  note iff = camht_lookup_iff [OF assms(1,2)]
  have "ht_ok crc crcc ht' \<and> ht_rel (m(k := None)) ht' \<and> r = (if m k = None then - 1 else 0)"
  proof (cases "camht_lookup crc crcc cam ht k")
    case None
    then have "\<not> (live (hash_tbl ht i) \<and> ht_key (key_tbl ht i) = k)" for i using iff [of k i] by simp
    then have "m k = None" using assms(3) unfolding ht_rel_def
      by (metis flowht_entry_t.select_convs(1) not_None_eq)
    with None d assms(2,3) show ?thesis by (simp add: flow_delete_def fun_upd_idem)
  next
    case (Some i)
    then have i: "live (hash_tbl ht i)" "ht_key (key_tbl ht i) = k" using iff by auto
    have ht': "hash_tbl ht' = (hash_tbl ht)(i := hash_tbl ht i AND NOT 0xF)" "key_tbl ht' = key_tbl ht" "r = 0"
      using d Some by (auto simp: flow_delete_def)
    have l: "live (hash_tbl ht' j) \<longleftrightarrow> live (hash_tbl ht j) \<and> j \<noteq> i" for j
      using not_live_cleared by (simp add: ht')
    have only: "live (hash_tbl ht j) \<Longrightarrow> ht_key (key_tbl ht j) = k \<Longrightarrow> j = i" for j
      using iff [of k j] Some by simp
    have "hash_tbl ht' j = hash_tbl ht j" if "j \<noteq> i" for j using that by (simp add: ht')
    then have "ht_ok crc crcc ht'" using assms(2) l unfolding ht_ok_def cell_ok_def ht'(2) by metis
    moreover have "ht_rel (m(k := None)) ht'"
      unfolding ht_rel_def
    proof (intro allI)
      fix k' f
      show "(m(k := None)) k' = Some f \<longleftrightarrow>
          (\<exists>j. live (hash_tbl ht' j) \<and> key_tbl ht' j = \<lparr>ht_key = k', ht_flow_id = f\<rparr>)"
      proof (cases "k' = k")
        case True
        then show ?thesis using only l by (auto simp: ht'(2))
      next
        case False
        then have "key_tbl ht i \<noteq> \<lparr>ht_key = k', ht_flow_id = f\<rparr>" using i(2) by auto
        then have "(live (hash_tbl ht' j) \<and> key_tbl ht' j = \<lparr>ht_key = k', ht_flow_id = f\<rparr>) =
            (live (hash_tbl ht j) \<and> key_tbl ht j = \<lparr>ht_key = k', ht_flow_id = f\<rparr>)" for j
          using l [of j] unfolding ht'(2) by metis
        then show ?thesis using False assms(3) by (simp add: ht_rel_def)
      qed
    qed
    moreover have "m k = Some (ht_flow_id (key_tbl ht i))"
      using assms(3) i unfolding ht_rel_def by (metis flowht_entry_t.surjective old.unit.exhaust)
    ultimately show ?thesis using ht'(3) by simp
  qed
  then show "ht_ok crc crcc ht'" "ht_rel (m(k := None)) ht'" "r = (if m k = None then - 1 else 0)" by auto
qed

subsection \<open>The table as a map\<close>

text \<open>Requests of the slow path, and what they amount to: an insertion may be refused.\<close>

datatype ht_op = Ht_Insert flowht_entry_t | Ht_Delete flow_key_t

fun ht_exec ::
  "(flow_key_t \<Rightarrow> u32) \<Rightarrow> (flow_key_t \<Rightarrow> u32) \<Rightarrow> cam \<Rightarrow> ht_op \<Rightarrow> flowht \<Rightarrow> int \<times> flowht" where
  "ht_exec crc crcc cam (Ht_Insert e) ht = flow_insert crc crcc cam e ht"
| "ht_exec crc crcc cam (Ht_Delete k) ht = flow_delete crc crcc cam k ht"

definition ht_step :: "(flow_key_t \<Rightarrow> u32) \<Rightarrow> (flow_key_t \<Rightarrow> u32) \<Rightarrow> cam \<Rightarrow> ht_op \<Rightarrow> flowht \<Rightarrow> flowht" where
  "ht_step crc crcc cam p ht = snd (ht_exec crc crcc cam p ht)"

definition ht_obs :: "(flow_key_t \<Rightarrow> u32) \<Rightarrow> (flow_key_t \<Rightarrow> u32) \<Rightarrow> cam \<Rightarrow> ht_op \<Rightarrow> flowht \<Rightarrow> ht_op \<times> int" where
  "ht_obs crc crcc cam p ht = (p, fst (ht_exec crc crcc cam p ht))"

fun map_step :: "(flow_key_t \<rightharpoonup> u32) \<Rightarrow> ht_op \<times> int \<Rightarrow> (flow_key_t \<rightharpoonup> u32) \<Rightarrow> bool" where
  "map_step m (Ht_Insert e, r) m' =
     (r = 0 \<and> m (ht_key e) = None \<and> m' = m(ht_key e \<mapsto> ht_flow_id e) \<or> r = - 1 \<and> m' = m)"
| "map_step m (Ht_Delete k, r) m' = (m' = m(k := None) \<and> r = (if m k = None then - 1 else 0))"

definition ht_empty :: flowht where
  "ht_empty = \<lparr>hash_tbl = \<lambda>_. 0, key_tbl = \<lambda>_. \<lparr>ht_key = \<lparr>key_raw0 = 0, key_raw1 = 0, key_raw2 = 0\<rparr>, ht_flow_id = 0\<rparr>\<rparr>"

definition ht_inv :: "(flow_key_t \<Rightarrow> u32) \<Rightarrow> (flow_key_t \<Rightarrow> u32) \<Rightarrow> (flow_key_t \<rightharpoonup> u32) \<Rightarrow> flowht \<Rightarrow> bool" where
  "ht_inv crc crcc m ht \<longleftrightarrow> ht_ok crc crcc ht \<and> ht_rel m ht"

lemma ht_simulation:
  assumes "cam_ok cam"
  shows "simulation (ht_step crc crcc cam) (\<lambda>_ _. True) (ht_obs crc crcc cam) map_step (ht_inv crc crcc)"
proof
  fix m ht p
  assume "ht_inv crc crcc m ht"
  then have r: "ht_ok crc crcc ht \<and> ht_rel m ht" by (simp add: ht_inv_def)
  show "\<exists>m'. map_step m (ht_obs crc crcc cam p ht) m' \<and> ht_inv crc crcc m' (ht_step crc crcc cam p ht)"
  proof (cases p)
    case (Ht_Insert e)
    show ?thesis
    proof (cases rule: flow_insert_cases [OF assms, of crc crcc e ht, case_names refused added])
      case refused
      with r Ht_Insert show ?thesis by (auto simp: ht_obs_def ht_step_def ht_inv_def)
    next
      case (added i)
      note a = flow_insert_added [of crc crcc ht m i e, OF _ _ added(1-4) refl]
      with r Ht_Insert added(5) show ?thesis
        by (intro exI [of _ "m(ht_key e \<mapsto> ht_flow_id e)"]) (simp add: ht_obs_def ht_step_def ht_inv_def)
    qed
  next
    case (Ht_Delete k)
    obtain x ht' where "flow_delete crc crcc cam k ht = (x, ht')" by fastforce
    with flow_delete_map [OF assms _ _ this, of m] r Ht_Delete show ?thesis
      by (intro exI [of _ "m(k := None)"]) (simp add: ht_obs_def ht_step_def ht_inv_def)
  qed
qed

lemma ht_empty_inv: "ht_inv crc crcc (\<lambda>_. None) ht_empty"
  by (simp add: ht_inv_def ht_ok_def ht_rel_def ht_empty_def)

text \<open>
  C7. The table of flows implements a map from connections to flows. Whatever the two hash functions
  are, and whichever of several fitting cells the CAM takes: any sequence of insertions and deletions,
  from the empty table on, has the results it has on a map, except that an insertion may be refused,
  with result -1 and without effect; and afterwards looking up a connection gives the flow the map has
  for it, and \<open>INVALID_FLOWID\<close> when it has none. No connection is ever taken for another.
\<close>

theorem flow_table_refines_map:
  assumes "cam_ok cam"
  shows "\<exists>m. steps map_step (\<lambda>_. None) (run_obs (ht_step crc crcc cam) (ht_obs crc crcc cam) es ht_empty) m \<and>
    (\<forall>k. flow_lookup cam k (flow_hash crc crcc k) (run (ht_step crc crcc cam) es ht_empty) =
       (case m k of None \<Rightarrow> INVALID_FLOWID | Some f \<Rightarrow> f))"
proof -
  have "run_ok (ht_step crc crcc cam) (\<lambda>_ _. True) es ht" for es ht by (induction es arbitrary: ht) auto
  note ok = this
  note sim = simulation.run_sim [OF ht_simulation [OF assms, of crc crcc]]
  from sim [OF ht_empty_inv ok] show ?thesis
    using flow_lookup_map [OF assms] unfolding ht_inv_def by blast
qed

subsection \<open>Deleted cells\<close>

text \<open>The empty cells of a bucket, and the keys whose hash has a bit that a deletion leaves.\<close>

definition empty_cells :: "flowht \<Rightarrow> nat \<Rightarrow> nat" where
  "empty_cells ht b = length (filter (\<lambda>x. low24 x = 0) (bucket ht b))"

definition hash_remains :: "(flow_key_t \<Rightarrow> u32) \<Rightarrow> flow_key_t \<Rightarrow> bool" where
  "hash_remains crcc k \<longleftrightarrow> crcc k AND 0x00FFFFF0 \<noteq> 0"

fun inserted ::
  "(flow_key_t \<Rightarrow> u32) \<Rightarrow> (flow_key_t \<Rightarrow> u32) \<Rightarrow> cam \<Rightarrow> nat \<Rightarrow> ht_op list \<Rightarrow> flowht \<Rightarrow> nat" where
  "inserted crc crcc cam b [] ht = 0"
| "inserted crc crcc cam b (p # ps) ht =
     (case p of
        Ht_Insert e \<Rightarrow> of_bool (CAMHT_BUCKET_IDX (crc (ht_key e)) = b \<and> fst (flow_insert crc crcc cam e ht) = 0)
      | Ht_Delete k \<Rightarrow> 0) + inserted crc crcc cam b ps (ht_step crc crcc cam p ht)"

fun op_remains :: "(flow_key_t \<Rightarrow> u32) \<Rightarrow> ht_op \<Rightarrow> bool" where
  "op_remains crcc (Ht_Insert e) = True"
| "op_remains crcc (Ht_Delete k) = hash_remains crcc k"

lemma empty_cells_card: "empty_cells ht b = card {j. j < 8 \<and> low24 (hash_tbl ht (b * 8 + j)) = 0}"
  by (simp add: empty_cells_def length_filter_conv_card bucket_nth cong: conj_cong)

lemma empty_cells_taken:
  assumes "low24 (hash_tbl ht i) = 0" and "low24 x \<noteq> 0" and "hash_tbl ht' = (hash_tbl ht)(i := x)"
  shows "of_bool (i div 8 = b) + empty_cells ht' b = empty_cells ht b"
proof (cases "i div 8 = b")
  case True
  define j where "j = i mod 8"
  have i: "i = b * 8 + j" "j < 8" using True by (auto simp: j_def)
  have eq: "{k. k < 8 \<and> low24 (hash_tbl ht' (b * 8 + k)) = 0} = {k. k < 8 \<and> low24 (hash_tbl ht (b * 8 + k)) = 0} - {j}"
  proof (intro set_eqI iffI)
    fix k assume "k \<in> {k. k < 8 \<and> low24 (hash_tbl ht' (b * 8 + k)) = 0}"
    then show "k \<in> {k. k < 8 \<and> low24 (hash_tbl ht (b * 8 + k)) = 0} - {j}"
      using assms(2) by (cases "k = j") (simp_all add: assms(3) i)
  next
    fix k assume "k \<in> {k. k < 8 \<and> low24 (hash_tbl ht (b * 8 + k)) = 0} - {j}"
    then show "k \<in> {k. k < 8 \<and> low24 (hash_tbl ht' (b * 8 + k)) = 0}" by (simp add: assms(3) i)
  qed
  have mem: "j \<in> {k. k < 8 \<and> low24 (hash_tbl ht (b * 8 + k)) = 0}" using assms(1) i by simp
  have fin: "finite {k. k < 8 \<and> low24 (hash_tbl ht (b * 8 + k)) = 0}" by simp
  have "Suc (empty_cells ht' b) = empty_cells ht b"
    unfolding empty_cells_card eq by (rule card_Suc_Diff1 [OF fin mem])
  with True show ?thesis by simp
next
  case False
  then have "b * 8 + k \<noteq> i" if "k < 8" for k using that by auto
  then have "{k. k < 8 \<and> low24 (hash_tbl ht' (b * 8 + k)) = 0} = {k. k < 8 \<and> low24 (hash_tbl ht (b * 8 + k)) = 0}"
    by (auto simp: assms(3))
  with False show ?thesis by (simp add: empty_cells_card)
qed

lemma empty_cells_same:
  assumes "low24 (hash_tbl ht i) \<noteq> 0" and "low24 x \<noteq> 0" and "hash_tbl ht' = (hash_tbl ht)(i := x)"
  shows "empty_cells ht' b = empty_cells ht b"
proof -
  have "{k. k < 8 \<and> low24 (hash_tbl ht' (b * 8 + k)) = 0} = {k. k < 8 \<and> low24 (hash_tbl ht (b * 8 + k)) = 0}"
    using assms(1,2) by (auto simp: assms(3) split: if_splits)
  then show ?thesis by (simp add: empty_cells_card)
qed

lemma cleared_cell:
  assumes "low24 x = CAMHT_BUCKET_HASH h" and "h AND 0x00FFFFF0 \<noteq> 0"
  shows "low24 (x AND NOT 0xF) \<noteq> 0"
proof -
  have "low24 (x AND NOT 0xF) = low24 x AND NOT 0xF" by (simp add: and.assoc and.commute and.left_commute)
  also have "\<dots> = h AND (0x00FFFFFF AND NOT 0xF)"
    by (simp add: assms(1) CAMHT_BUCKET_HASH_def bit.conj_disj_distrib2 and.assoc)
  also have "\<dots> = h AND 0x00FFFFF0" by simp
  finally show ?thesis using assms(2) by simp
qed

lemma delete_empty_cells:
  assumes "cam_ok cam" and "ht_ok crc crcc ht" and "hash_remains crcc k"
  shows "empty_cells (snd (flow_delete crc crcc cam k ht)) b = empty_cells ht b"
proof (cases "camht_lookup crc crcc cam ht k")
  case (Some i)
  then have i: "live (hash_tbl ht i)" "ht_key (key_tbl ht i) = k" using camht_lookup_iff [OF assms(1,2)] by auto
  then have l: "low24 (hash_tbl ht i) = CAMHT_BUCKET_HASH (crcc k)" using assms(2) by (auto simp: ht_ok_def cell_ok_def)
  moreover have "low24 (hash_tbl ht i) \<noteq> 0" using l low24_zero i(1) by blast
  ultimately show ?thesis using Some cleared_cell [OF l] assms(3)
    by (intro empty_cells_same [of ht i "hash_tbl ht i AND NOT 0xF"]) (simp_all add: flow_delete_def hash_remains_def)
qed (simp add: flow_delete_def)

lemma insert_empty_cells:
  assumes "cam_ok cam"
  shows "of_bool (CAMHT_BUCKET_IDX (crc (ht_key e)) = b \<and> fst (flow_insert crc crcc cam e ht) = 0) +
    empty_cells (snd (flow_insert crc crcc cam e ht)) b = empty_cells ht b"
proof (cases rule: flow_insert_cases [OF assms, of crc crcc e ht, case_names refused added])
  case (added i)
  have "low24 ((hash_tbl ht i AND 0xFF000000) OR CAMHT_BUCKET_HASH (crcc (ht_key e))) \<noteq> 0"
    unfolding low24_cell using bit_hash_0 by (metis bit_0_eq bot_apply bot_bool_def)
  from empty_cells_taken [OF added(3) this, of "snd (flow_insert crc crcc cam e ht)" b] added(1,5) show ?thesis by simp
qed simp

lemma lifetime:
  assumes "cam_ok cam" and "ht_inv crc crcc m ht" and "list_all (op_remains crcc) es"
  shows "inserted crc crcc cam b es ht + empty_cells (run (ht_step crc crcc cam) es ht) b = empty_cells ht b"
  using assms(2,3)
proof (induction es arbitrary: m ht)
  case (Cons p ps)
  note sim = simulation.sim [OF ht_simulation [OF assms(1), of crc crcc]]
  from sim [OF Cons.prems(1), of p] obtain m' where
    m': "ht_inv crc crcc m' (ht_step crc crcc cam p ht)" by auto
  have "(case p of Ht_Insert e \<Rightarrow> of_bool (CAMHT_BUCKET_IDX (crc (ht_key e)) = b \<and> fst (flow_insert crc crcc cam e ht) = 0)
      | Ht_Delete k \<Rightarrow> 0) + empty_cells (ht_step crc crcc cam p ht) b = empty_cells ht b"
  proof (cases p)
    case (Ht_Insert e)
    then show ?thesis using insert_empty_cells [OF assms(1), of crc e b crcc ht] by (simp add: ht_step_def)
  next
    case (Ht_Delete k)
    then show ?thesis using delete_empty_cells [OF assms(1), of crc crcc ht k b] Cons.prems
      by (simp add: ht_step_def ht_inv_def)
  qed
  with Cons.IH [OF m'] Cons.prems(2) show ?case by simp
qed simp

text \<open>
  C30. A deletion does not free its cell: it clears only the four lowest bits, and a cell is empty
  when all 24 are zero. So a cell is used once: over the whole life of the table at most eight
  insertions succeed in a bucket, however many connections are deleted in between, unless a deleted
  connection has a hash without a bit above the fourth. Once eight have succeeded every further
  insertion in the bucket is refused, even if the table holds no connection at all.
\<close>

theorem flow_table_wears_out:
  assumes "cam_ok cam" and "list_all (op_remains crcc) es"
  shows "inserted crc crcc cam b es ht_empty \<le> 8 \<and>
    (inserted crc crcc cam b es ht_empty = 8 \<longrightarrow> CAMHT_BUCKET_IDX (crc (ht_key e)) = b \<longrightarrow>
     fst (flow_insert crc crcc cam e (run (ht_step crc crcc cam) es ht_empty)) = - 1)"
proof -
  define ht where "ht = run (ht_step crc crcc cam) es ht_empty"
  have "bucket ht_empty b = replicate 8 0"
    by (rule nth_equalityI) (simp_all add: bucket_nth ht_empty_def)
  then have "empty_cells ht_empty b = 8" by (simp add: empty_cells_def)
  then have l: "inserted crc crcc cam b es ht_empty + empty_cells ht b = 8"
    using lifetime [OF assms(1) ht_empty_inv assms(2), of crc b] by (simp add: ht_def)
  have "fst (flow_insert crc crcc cam e ht) = - 1" if "empty_cells ht b = 0" "CAMHT_BUCKET_IDX (crc (ht_key e)) = b"
  proof -
    have "fst (flow_insert crc crcc cam e ht) \<noteq> 0"
      using insert_empty_cells [OF assms(1), of crc e b crcc ht] that by (simp split: if_splits)
    then show ?thesis by (simp add: flow_insert_def split: prod.splits if_splits)
  qed
  with l show ?thesis unfolding ht_def by linarith
qed

subsection \<open>One connection, opened and closed\<close>

definition conn_key :: flow_key_t where
  "conn_key = \<lparr>key_raw0 = 0x0A000001, key_raw1 = 0x0A000002, key_raw2 = 0xC3500050\<rparr>"

definition conn_entry :: flowht_entry_t where
  "conn_entry = \<lparr>ht_key = conn_key, ht_flow_id = 7\<rparr>"

definition sum_hash :: "flow_key_t \<Rightarrow> u32" where
  "sum_hash k = key_raw0 k + key_raw1 k + key_raw2 k"

lemmas ht_eval = ht_step_def ht_obs_def flow_insert_def flow_delete_def flow_lookup_def flow_hash_def camht_lookup_def camht_lookup_add_def
  camht_lookup_idx_def camht_lookup_idx_add_def camht_hash_def first_cam_def first_cell_def bucket_def ht_empty_def
  CAMHT_BUCKET_ENTRIES_def CAMHT_BUCKET_IDX_def CAMHT_BUCKET_HASH_def FLEXNIC_PL_FLOWHT_ENTRIES_def conn_key_def
  conn_entry_def sum_hash_def Let_def upt_conv_Cons

theorem flow_table_refines_map_witness:
  "cam_ok first_cam \<and> flow_lookup first_cam conn_key (flow_hash sum_hash sum_hash conn_key)
     (run (ht_step sum_hash sum_hash first_cam) [Ht_Insert conn_entry] ht_empty) = 7"
proof -
  have ins: "fst (flow_insert sum_hash sum_hash first_cam conn_entry ht_empty) = 0" by (simp add: ht_eval)
  from flow_table_refines_map [OF first_cam_ok, of sum_hash sum_hash "[Ht_Insert conn_entry]"] obtain m where
    "steps map_step (\<lambda>_. None) [(Ht_Insert conn_entry, 0)] m" and
    l: "flow_lookup first_cam conn_key (flow_hash sum_hash sum_hash conn_key)
       (run (ht_step sum_hash sum_hash first_cam) [Ht_Insert conn_entry] ht_empty) =
       (case m conn_key of None \<Rightarrow> INVALID_FLOWID | Some f \<Rightarrow> f)"
    using ins by (auto simp: ht_obs_def)
  then have "m = [conn_key \<mapsto> 7]" by (simp add: conn_entry_def)
  with l first_cam_ok show ?thesis by simp
qed

text \<open>Opening and closing a connection over and over, in a table that holds no other.\<close>

definition rounds :: "nat \<Rightarrow> flowht_entry_t \<Rightarrow> ht_op list" where
  "rounds n e = concat (replicate n [Ht_Insert e, Ht_Delete (ht_key e)])"

lemma insert_in_empty:
  assumes "cam_ok cam" and "ht_inv crc crcc (\<lambda>_. None) ht" and "0 < empty_cells ht (CAMHT_BUCKET_IDX (crc (ht_key e)))"
  shows "fst (flow_insert crc crcc cam e ht) = 0"
proof -
  define b v where "b = CAMHT_BUCKET_IDX (crc (ht_key e))" and "v = CAMHT_BUCKET_HASH (crcc (ht_key e))"
  have dead: "\<not> live (hash_tbl ht i)" for i
    using assms(2) unfolding ht_inv_def ht_rel_def by (metis flowht_entry_t.surjective old.unit.exhaust option.distinct(1))
  have "low24 x \<noteq> v" if "x \<in> set (bucket ht b)" for x
    using that dead low24_live by (auto simp: bucket_def v_def)
  then have "cam_match cam v (bucket ht b) = None"
    using cam_match_Some [OF assms(1), of v "bucket ht b"] nth_mem by (cases "cam_match cam v (bucket ht b)") blast+
  moreover have "cam_free cam (bucket ht b) \<noteq> None"
    using assms(3) cam_free_None [OF assms(1), of "bucket ht b"] by (auto simp: empty_cells_def b_def filter_empty_conv)
  ultimately show ?thesis
    by (auto simp: flow_insert_def camht_lookup_add_def camht_lookup_idx_add_def camht_hash_def Let_def simp flip: b_def v_def)
qed

lemma rounds_inserted:
  assumes "cam_ok cam" and "hash_remains crcc (ht_key e)" and "ht_inv crc crcc (\<lambda>_. None) ht"
    and "n \<le> empty_cells ht (CAMHT_BUCKET_IDX (crc (ht_key e)))"
  shows "inserted crc crcc cam (CAMHT_BUCKET_IDX (crc (ht_key e))) (rounds n e) ht = n"
  using assms(3,4)
proof (induction n arbitrary: ht)
  case (Suc n)
  define b where "b = CAMHT_BUCKET_IDX (crc (ht_key e))"
  define ht1 where "ht1 = snd (flow_insert crc crcc cam e ht)"
  define ht2 where "ht2 = snd (flow_delete crc crcc cam (ht_key e) ht1)"
  have ins: "fst (flow_insert crc crcc cam e ht) = 0" using insert_in_empty [OF assms(1) Suc.prems(1)] Suc.prems(2) by simp
  note sim = simulation.sim [OF ht_simulation [OF assms(1), of crc crcc]]
  from sim [OF Suc.prems(1), of "Ht_Insert e"] ins have i1: "ht_inv crc crcc [ht_key e \<mapsto> ht_flow_id e] ht1"
    by (simp add: ht_obs_def ht_step_def ht1_def)
  from sim [OF i1, of "Ht_Delete (ht_key e)"] have i2: "ht_inv crc crcc (\<lambda>_. None) ht2"
    by (simp add: ht_obs_def ht_step_def ht2_def)
  have "Suc (empty_cells ht1 b) = empty_cells ht b"
    using insert_empty_cells [OF assms(1), of crc e b crcc ht] ins by (simp add: b_def ht1_def)
  moreover have "empty_cells ht2 b = empty_cells ht1 b"
    using delete_empty_cells [OF assms(1) _ assms(2), of crc ht1 b] i1 by (simp add: ht2_def ht_inv_def)
  ultimately have "inserted crc crcc cam b (rounds n e) ht2 = n" using Suc.IH [OF i2] Suc.prems(2) by (simp add: b_def)
  then show ?case using ins by (simp add: rounds_def ht_step_def b_def ht1_def ht2_def)
qed (simp add: rounds_def)

theorem flow_table_wears_out_witness:
  "cam_ok first_cam \<and> inserted sum_hash sum_hash first_cam (CAMHT_BUCKET_IDX (sum_hash conn_key)) (rounds 8 conn_entry) ht_empty = 8 \<and>
   fst (flow_insert sum_hash sum_hash first_cam conn_entry
     (run (ht_step sum_hash sum_hash first_cam) (rounds 8 conn_entry) ht_empty)) = - 1"
proof -
  have r: "hash_remains sum_hash conn_key" by (simp add: hash_remains_def sum_hash_def conn_key_def)
  have "empty_cells ht_empty b = 8" for b
    by (simp add: empty_cells_def bucket_def ht_empty_def CAMHT_BUCKET_ENTRIES_def)
  then have i: "inserted sum_hash sum_hash first_cam (CAMHT_BUCKET_IDX (sum_hash conn_key)) (rounds 8 conn_entry) ht_empty = 8"
    using rounds_inserted [OF first_cam_ok, of sum_hash conn_entry sum_hash ht_empty 8] r ht_empty_inv by (simp add: conn_entry_def)
  have "list_all (op_remains sum_hash) (rounds 8 conn_entry)"
    using r by (simp add: rounds_def list_all_iff conn_entry_def)
  from flow_table_wears_out [OF first_cam_ok this, of sum_hash "CAMHT_BUCKET_IDX (sum_hash conn_key)" conn_entry] i first_cam_ok
  show ?thesis by (simp add: conn_entry_def)
qed

end
