(* ===== verification/Preprocess.thy ===== *)
theory Preprocess
  imports Postprocess Flow_Lookup
begin

unbundle bit_operations_syntax

text \<open>
  The preprocessing stage, \<open>firmware/preprocess.c\<close>: packets from the wire are checked, summarised and
  turned into work items of their flow, or sent to the slow path; segments the queue manager schedules
  get a packet buffer and their Ethernet and IP header; updates of the application become work items.

  A header is the function from word index to word that \<open>struct pkt_hdr_t\<close> gives it: two bytes of
  padding, then Ethernet, IP, TCP and the time-stamp option. The registers a work item is built in
  are an argument, as are the packet buffers the hardware hands out.
\<close>

subsection \<open>Data\<close>

type_synonym pkt_hdr = "nat \<Rightarrow> u32"

record nbi_meta_pkt_info =
  info_raw0 :: u32
  info_raw1 :: u32

record pkt_raw_t =
  meta_raw :: "nat \<Rightarrow> u32"
  mac_prepend :: u32

definition pi_isl :: "pkt_raw_t \<Rightarrow> u32" where "pi_isl p = bf_get 26 6 (meta_raw p 0)"
definition pi_pnum :: "pkt_raw_t \<Rightarrow> u32" where "pi_pnum p = bf_get 16 10 (meta_raw p 0)"
definition pi_bls :: "pkt_raw_t \<Rightarrow> u32" where "pi_bls p = bf_get 14 2 (meta_raw p 0)"
definition pi_len :: "pkt_raw_t \<Rightarrow> u32" where "pi_len p = bf_get 0 14 (meta_raw p 0)"
definition pi_muptr :: "pkt_raw_t \<Rightarrow> u32" where "pi_muptr p = bf_get 0 29 (meta_raw p 1)"
definition meta_seq :: "pkt_raw_t \<Rightarrow> u32" where "meta_seq p = bf_get 16 16 (meta_raw p 2)"
definition meta_seqr :: "pkt_raw_t \<Rightarrow> u32" where "meta_seqr p = bf_get 8 3 (meta_raw p 2)"

definition hdr_tos :: "pkt_hdr \<Rightarrow> u32" where "hdr_tos h = bf_get 16 8 (h 4)"
definition hdr_flags :: "pkt_hdr \<Rightarrow> u32" where "hdr_flags h = bf_get 16 8 (h 12)"

text \<open>\<open>struct flowst_conn_t\<close> by words.\<close>

record flowst_conn_t =
  conn_flow_grp :: u32
  conn_raw1 :: u32
  conn_raw2 :: u32
  conn_local_ip :: u32
  conn_remote_ip :: u32
  conn_ports :: u32

datatype flow_ring = Flow_Ring_0 | Flow_Ring_1 | Flow_Ring_2 | Flow_Ring_3 | Flow_Ring_Sp

datatype pre_out =
    Summary_Write u32 u32 pkt_summary_t
  | Hdr_Write u32 u32 u32 "u32 list"
  | Egress_Cmd u32 u32 u32
  | Msd_Write u32 u32 u32
  | Info_Write u32 u32 nbi_meta_pkt_info
  | Gro_Send flow_ring work_t u32 u32
  | Work_Add flow_ring work_t

record pre_state =
  flowhash_cache :: "nat \<Rightarrow> flowht_entry_t"
  conn_tag :: "nat \<Rightarrow> u32"
  conn_cache :: "nat \<Rightarrow> flowst_conn_t"

definition zero_key :: flow_key_t where "zero_key = \<lparr>key_raw0 = 0, key_raw1 = 0, key_raw2 = 0\<rparr>"

definition FLOWHASH_CACHE_SIZE :: nat where "FLOWHASH_CACHE_SIZE = 128"
definition CONN_CACHE_SIZE :: nat where "CONN_CACHE_SIZE = 16"

definition reset_cache_pre :: "pre_state \<Rightarrow> pre_state" where
  "reset_cache_pre s = s\<lparr>flowhash_cache := (\<lambda>i. if i < FLOWHASH_CACHE_SIZE then \<lparr>ht_key = zero_key, ht_flow_id = 0\<rparr> else flowhash_cache s i),
     conn_tag := (\<lambda>i. if i < CONN_CACHE_SIZE then 0xFFFFFFFF - of_nat i else conn_tag s i)\<rparr>"

text \<open>The fields of a work item, set one by one in the registers.\<close>

definition io_set_type :: "u32 \<Rightarrow> work_t \<Rightarrow> work_t" where "io_set_type v w = w\<lparr>raw0 := bf_set 30 2 v (raw0 w)\<rparr>"
definition io_set_cbs :: "u32 \<Rightarrow> work_t \<Rightarrow> work_t" where "io_set_cbs v w = w\<lparr>raw0 := bf_set 28 2 v (raw0 w)\<rparr>"
definition io_set_isl :: "u32 \<Rightarrow> work_t \<Rightarrow> work_t" where "io_set_isl v w = w\<lparr>raw0 := bf_set 26 2 v (raw0 w)\<rparr>"
definition io_set_pnum :: "u32 \<Rightarrow> work_t \<Rightarrow> work_t" where "io_set_pnum v w = w\<lparr>raw0 := bf_set 16 10 v (raw0 w)\<rparr>"
definition io_set_force :: "u32 \<Rightarrow> work_t \<Rightarrow> work_t" where "io_set_force v w = w\<lparr>raw1 := bf_set 31 1 v (raw1 w)\<rparr>"
definition io_set_bls :: "u32 \<Rightarrow> work_t \<Rightarrow> work_t" where "io_set_bls v w = w\<lparr>raw1 := bf_set 29 2 v (raw1 w)\<rparr>"
definition io_set_muptr :: "u32 \<Rightarrow> work_t \<Rightarrow> work_t" where "io_set_muptr v w = w\<lparr>raw1 := bf_set 0 29 v (raw1 w)\<rparr>"
definition io_set_flow_id :: "u32 \<Rightarrow> work_t \<Rightarrow> work_t" where "io_set_flow_id v w = w\<lparr>raw2 := bf_set 16 16 v (raw2 w)\<rparr>"
definition io_set_seqr :: "u32 \<Rightarrow> work_t \<Rightarrow> work_t" where "io_set_seqr v w = w\<lparr>raw2 := bf_set 11 5 v (raw2 w)\<rparr>"
definition io_set_plen :: "u32 \<Rightarrow> work_t \<Rightarrow> work_t" where "io_set_plen v w = w\<lparr>raw2 := bf_set 0 11 v (raw2 w)\<rparr>"
definition ac_set_fin :: "u32 \<Rightarrow> work_t \<Rightarrow> work_t" where "ac_set_fin v w = w\<lparr>raw0 := bf_set 29 1 v (raw0 w)\<rparr>"
definition ac_set_rx_bump :: "u32 \<Rightarrow> work_t \<Rightarrow> work_t" where "ac_set_rx_bump v w = w\<lparr>raw0 := bf_set 0 29 v (raw0 w)\<rparr>"
definition ac_set_tx_bump :: "u32 \<Rightarrow> work_t \<Rightarrow> work_t" where "ac_set_tx_bump v w = w\<lparr>raw1 := bf_set 0 29 v (raw1 w)\<rparr>"
definition ac_set_desc_idx :: "u32 \<Rightarrow> work_t \<Rightarrow> work_t" where "ac_set_desc_idx v w = w\<lparr>raw2 := bf_set 0 16 v (raw2 w)\<rparr>"

lemmas work_set_defs = io_set_type_def io_set_cbs_def io_set_isl_def io_set_pnum_def io_set_force_def io_set_bls_def
  io_set_muptr_def io_set_flow_id_def io_set_seqr_def io_set_plen_def ac_set_fin_def ac_set_rx_bump_def
  ac_set_tx_bump_def ac_set_desc_idx_def

subsection \<open>Checks and summaries\<close>

definition get_flowgrp_rnum :: "u32 \<Rightarrow> flow_ring" where
  "get_flowgrp_rnum flow_grp =
     (if flow_grp = 0 then Flow_Ring_0 else if flow_grp = 1 then Flow_Ring_1
      else if flow_grp = 2 then Flow_Ring_2 else if flow_grp = 3 then Flow_Ring_3 else Flow_Ring_Sp)"

definition PKT_META_RAW3 :: u32 where "PKT_META_RAW3 = 0x00003420"
definition PKT_META_RAW4 :: "u32 \<Rightarrow> u32" where
  "PKT_META_RAW4 channel = push_bit 24 channel OR push_bit 16 0x4A OR push_bit 8 0x2A"
definition PKT_META_RAW5 :: u32 where "PKT_META_RAW5 = 0x00160000"
definition PKT_META_RAW7 :: u32 where "PKT_META_RAW7 = 0x40300000"

definition validate_pkt_meta :: "u32 \<Rightarrow> pkt_raw_t \<Rightarrow> bool" where
  "validate_pkt_meta channel pkt \<longleftrightarrow>
     meta_raw pkt 3 = PKT_META_RAW3 \<and> meta_raw pkt 4 = PKT_META_RAW4 channel \<and>
     meta_raw pkt 5 = PKT_META_RAW5 \<and> mac_prepend pkt AND PKT_META_RAW7 = PKT_META_RAW7"

definition TCP_FP_FLAGS :: u32 where "TCP_FP_FLAGS = 0x10 OR 0x08 OR 0x40 OR 0x80 OR 0x01"

definition validate_pkt_hdr :: "pkt_hdr \<Rightarrow> bool" where
  "validate_pkt_hdr hdr \<longleftrightarrow> hdr_flags hdr AND NOT TCP_FP_FLAGS = 0 \<and> hdr 14 = PKT_TCP_OPT_RAW0"

definition generate_pkt_summary :: "pkt_hdr \<Rightarrow> pkt_summary_t" where
  "generate_pkt_summary hdr =
     (let raw = hdr 12 AND 0xFFFFFF;
          raw = (if hdr_tos hdr = 3 then raw OR push_bit 31 1 else raw)
      in \<lparr>pkt_seq = hdr 10, pkt_ack = hdr 11, pkt_ecn = bit raw 31, pkt_flags = ucast (bf_get 16 8 raw),
          pkt_win = ucast (bf_get 0 16 raw), pkt_ts_val = hdr 15, pkt_ts_ecr = hdr 16\<rparr>)"

subsection \<open>Headers\<close>

text \<open>The first ten words of the acknowledgement of a packet; \<open>pad\<close> is the unset padding.\<close>

definition prepare_ack_header_pre :: "u32 \<Rightarrow> pkt_hdr \<Rightarrow> u32 list" where
  "prepare_ack_header_pre pad hdr =
     [push_bit 16 pad OR drop_bit 16 (hdr 2),
      push_bit 16 (hdr 2) OR drop_bit 16 (hdr 3),
      push_bit 16 (hdr 0) OR drop_bit 16 (hdr 1),
      push_bit 16 (hdr 1) OR (hdr 3 AND 0xFFFF),
      (hdr 4 AND 0xFF000000) OR (NET_IP4_LEN + NET_TCPPADTS_LEN),
      hdr 5,
      (hdr 6 AND 0x00FFFFFF) OR push_bit 24 0xFF,
      hdr 8, hdr 7, push_bit 16 (hdr 9) OR drop_bit 16 (hdr 9)]"

definition IP_RAW_WORD1 :: u32 where "IP_RAW_WORD1 = 0x00034000"
definition IP_RAW_WORD2 :: u32 where "IP_RAW_WORD2 = 0xff060000"

text \<open>The header of a segment of a connection; the local MAC address is 32 and 16 bits.\<close>

definition prepare_seg_header_pre :: "u32 \<Rightarrow> u32 \<Rightarrow> flowst_conn_t \<Rightarrow> u32 list" where
  "prepare_seg_header_pre mac_hi mac_lo conn =
     [drop_bit 16 (conn_raw1 conn),
      push_bit 16 (conn_raw1 conn) OR drop_bit 16 (conn_raw2 conn),
      mac_hi,
      push_bit 16 mac_lo OR 0x0800,
      (if conn_raw2 conn AND 1 \<noteq> 0
       then IP_RAW_WORD0 2 (NET_IP4_LEN + NET_TCPPADTS_LEN) else IP_RAW_WORD0 0 (NET_IP4_LEN + NET_TCPPADTS_LEN)),
      IP_RAW_WORD1, IP_RAW_WORD2, conn_local_ip conn, conn_remote_ip conn, conn_ports conn]"

subsection \<open>Packet buffers\<close>

text \<open>The size class of the CTM buffer of a packet; the sum keeps the fields above the length.\<close>

definition compute_ctm_size :: "u32 \<Rightarrow> u32" where
  "compute_ctm_size info_raw =
     (let len = info_raw + (PKT_NBI_OFFSET - 1)
      in if drop_bit 10 len AND 0x3F \<noteq> 0 then 3
         else let len = drop_bit 8 len AND 3;
                  x = drop_bit 1 len AND 1
              in if x \<noteq> 0 then 2 else len AND 1)"

definition info_isl :: "nbi_meta_pkt_info \<Rightarrow> u32" where "info_isl p = bf_get 26 6 (info_raw0 p)"
definition info_pnum :: "nbi_meta_pkt_info \<Rightarrow> u32" where "info_pnum p = bf_get 16 10 (info_raw0 p)"
definition info_bls :: "nbi_meta_pkt_info \<Rightarrow> u32" where "info_bls p = bf_get 14 2 (info_raw0 p)"
definition info_muptr :: "nbi_meta_pkt_info \<Rightarrow> u32" where "info_muptr p = bf_get 0 29 (info_raw1 p)"
definition info_set_len :: "u32 \<Rightarrow> nbi_meta_pkt_info \<Rightarrow> nbi_meta_pkt_info" where
  "info_set_len v p = p\<lparr>info_raw0 := bf_set 0 14 v (info_raw0 p)\<rparr>"

text \<open>
  The two loops end with the first attempt that succeeds; the results of the attempts are given, and
  the value is \<open>None\<close> when none of them is a success.
\<close>

definition alloc_packet_buffer ::
  "u32 \<Rightarrow> u32 list \<Rightarrow> u32 option list \<Rightarrow> nbi_meta_pkt_info \<Rightarrow> nbi_meta_pkt_info option" where
  "alloc_packet_buffer island ctm_allocs blm_allocs pkt =
     (case List.find (\<lambda>pnum. pnum \<noteq> - 1) ctm_allocs of
        None \<Rightarrow> None
      | Some pnum \<Rightarrow>
          (case List.find (\<lambda>b. b \<noteq> None) blm_allocs of
             Some (Some buf) \<Rightarrow>
               Some \<lparr>info_raw0 = bf_set 0 14 0 (bf_set 14 2 0 (bf_set 16 10 pnum (bf_set 26 6 island (info_raw0 pkt)))),
                     info_raw1 = bf_set 31 1 1 (bf_set 0 29 buf (info_raw1 pkt))\<rparr>
           | _ \<Rightarrow> None))"

subsection \<open>Caches\<close>

definition hdr_key :: "pkt_hdr \<Rightarrow> flow_key_t" where
  "hdr_key hdr = \<lparr>key_raw0 = hdr 7, key_raw1 = hdr 8, key_raw2 = hdr 9\<rparr>"

text \<open>The flow, its group and the new cache; the index and the group are low bits of the hash.\<close>

definition lookup_flowhash ::
  "(flow_key_t \<Rightarrow> u32) \<Rightarrow> (flow_key_t \<Rightarrow> u32) \<Rightarrow> cam \<Rightarrow> flowht \<Rightarrow> pkt_hdr \<Rightarrow> pre_state \<Rightarrow>
     (u32 \<times> u32) \<times> pre_state" where
  "lookup_flowhash crc crcc cam ht hdr s =
     (let key = hdr_key hdr;
          hash = flow_hash crc crcc key;
          idx = unat (secondary hash AND (of_nat FLOWHASH_CACHE_SIZE - 1));
          flow_grp = secondary hash AND (NUM_FLOW_GROUPS - 1)
      in if key = ht_key (flowhash_cache s idx) then ((ht_flow_id (flowhash_cache s idx), flow_grp), s)
         else let flow_id = flow_lookup cam key hash ht
              in ((flow_id, flow_grp),
                  if flow_id \<noteq> INVALID_FLOWID
                  then s\<lparr>flowhash_cache := (flowhash_cache s)(idx := \<lparr>ht_key = key, ht_flow_id = flow_id\<rparr>)\<rparr>
                  else s))"

definition conn_cam_lookup :: "u32 \<Rightarrow> nat \<Rightarrow> pre_state \<Rightarrow> bool \<times> nat" where
  "conn_cam_lookup flow_id lru s =
     (case List.find (\<lambda>i. conn_tag s i = flow_id) [0..<CONN_CACHE_SIZE] of
        Some i \<Rightarrow> (True, i)
      | None \<Rightarrow> (False, lru))"

definition handle_conn_cache_miss ::
  "(u32 \<Rightarrow> flowst_conn_t) \<Rightarrow> u32 \<Rightarrow> nat \<Rightarrow> pre_state \<Rightarrow> nat \<times> pre_state" where
  "handle_conn_cache_miss flows_conn_info flow_id lru s =
     (let conn_info = flows_conn_info flow_id;
          (hit, entry_num) = conn_cam_lookup flow_id lru s
      in if hit then (entry_num, s)
         else (entry_num, s\<lparr>conn_tag := (conn_tag s)(entry_num := flow_id),
                            conn_cache := (conn_cache s)(entry_num := conn_info)\<rparr>))"

subsection \<open>The three kinds of threads\<close>

definition RX_SEQR :: "u32 \<Rightarrow> u32" where "RX_SEQR ingress_seqr = ingress_seqr + 1"

text \<open>The end of \<open>preprocess_rx\<close>: the work item goes to the ring of the flow group, in sequence.\<close>

definition rx_forward :: "pkt_raw_t \<Rightarrow> u32 \<Rightarrow> work_t \<Rightarrow> pre_out" where
  "rx_forward pkt flow_grp work =
     Gro_Send (get_flowgrp_rnum flow_grp) (io_set_seqr (flow_grp + 1) work) (RX_SEQR (meta_seqr pkt)) (meta_seq pkt)"

definition preprocess_rx ::
  "(flow_key_t \<Rightarrow> u32) \<Rightarrow> (flow_key_t \<Rightarrow> u32) \<Rightarrow> cam \<Rightarrow> u32 \<Rightarrow> flowht \<Rightarrow> work_t \<Rightarrow> u32 \<Rightarrow> pkt_raw_t \<Rightarrow> pkt_hdr \<Rightarrow>
     pre_state \<Rightarrow> pre_out list \<times> pre_state" where
  "preprocess_rx crc crcc cam channel ht work pad pkt hdr s =
     (let isl = pi_isl pkt; pnum = pi_pnum pkt;
          work = io_set_plen (pi_len pkt) (io_set_flow_id 0 (io_set_muptr (pi_muptr pkt) (io_set_bls (pi_bls pkt)
            (io_set_pnum pnum (io_set_isl (isl - 32) (io_set_cbs (compute_ctm_size (meta_raw pkt 0))
              (io_set_type WORK_TYPE_RX work)))))))
      in if \<not> validate_pkt_meta channel pkt \<or> \<not> validate_pkt_hdr hdr
         then ([rx_forward pkt NUM_FLOW_GROUPS work], s)
         else
           let outs =
                 [Summary_Write isl pnum (generate_pkt_summary hdr),
                  Hdr_Write isl pnum (PKT_NBI_OFFSET + MAC_PREPEND_BYTES - 2) (prepare_ack_header_pre pad hdr),
                  Egress_Cmd isl pnum (PKT_NBI_OFFSET + MAC_PREPEND_BYTES),
                  Msd_Write isl pnum (PKT_NBI_OFFSET + MAC_PREPEND_BYTES - 4)];
               ((flow_id, flow_grp), s1) = lookup_flowhash crc crcc cam ht hdr s
           in if flow_id = INVALID_FLOWID
              then (outs @ [rx_forward pkt NUM_FLOW_GROUPS work], s1)
              else (outs @ [rx_forward pkt flow_grp
                      (io_set_plen (io_plen work - (MAC_PREPEND_BYTES + NET_HDR_LEN)) (io_set_flow_id flow_id work))], s1))"

text \<open>\<open>struct schedule_t\<close> is one word: the flag and the flow.\<close>

definition sched_force :: "u32 \<Rightarrow> u32" where "sched_force sched = bf_get 31 1 sched"
definition sched_flow_id :: "u32 \<Rightarrow> u32" where "sched_flow_id sched = bf_get 0 16 sched"

definition fetch_conn_info ::
  "(u32 \<Rightarrow> flowst_conn_t) \<Rightarrow> u32 \<Rightarrow> nat \<Rightarrow> pre_state \<Rightarrow> nat \<times> pre_state" where
  "fetch_conn_info flows_conn_info flow_id lru s =
     (let (hit, entry_num) = conn_cam_lookup flow_id lru s
      in if hit then (entry_num, s) else handle_conn_cache_miss flows_conn_info flow_id lru s)"

definition preprocess_tx ::
  "u32 \<Rightarrow> u32 \<times> u32 \<Rightarrow> (u32 \<Rightarrow> flowst_conn_t) \<Rightarrow> u32 list \<Rightarrow> u32 option list \<Rightarrow> nbi_meta_pkt_info \<Rightarrow> work_t \<Rightarrow> nat \<Rightarrow>
     u32 \<Rightarrow> pre_state \<Rightarrow> (pre_out list \<times> pre_state) option" where
  "preprocess_tx island local_mac flows_conn_info ctm_allocs blm_allocs info work lru sched s =
     (case alloc_packet_buffer island ctm_allocs blm_allocs info of
        None \<Rightarrow> None
      | Some pkt_info \<Rightarrow>
          let pkt_info = info_set_len (MAC_PREPEND_BYTES + NET_HDR_LEN) pkt_info;
              isl = info_isl pkt_info; pnum = info_pnum pkt_info;
              (conn_info_idx, s1) = fetch_conn_info flows_conn_info (sched_flow_id sched) lru s;
              conn = conn_cache s1 conn_info_idx;
              flow_grp = conn_flow_grp conn;
              work = io_set_plen 0 (io_set_seqr (flow_grp + 1) (io_set_flow_id (sched_flow_id sched)
                (io_set_muptr (info_muptr pkt_info) (io_set_bls (info_bls pkt_info) (io_set_force (sched_force sched)
                  (io_set_pnum pnum (io_set_isl (isl - 32) (io_set_cbs PKTBUF_CTM_SIZE (io_set_type WORK_TYPE_TX work)))))))))
          in Some ([Info_Write isl pnum pkt_info,
                    Hdr_Write isl pnum (PKT_NBI_OFFSET + MAC_PREPEND_BYTES)
                      (prepare_seg_header_pre (fst local_mac) (snd local_mac) conn),
                    Egress_Cmd isl pnum (PKT_NBI_OFFSET + MAC_PREPEND_BYTES + 2),
                    Msd_Write isl pnum (PKT_NBI_OFFSET + MAC_PREPEND_BYTES - 2),
                    Work_Add (get_flowgrp_rnum flow_grp) work], s1))"

text \<open>\<open>struct flextcp_pl_atx_t\<close>, the fields of an update, and the updates of the applications.\<close>

record flextcp_pl_atx_t =
  atx_rx_bump :: u32
  atx_tx_bump :: u32
  atx_flow_id :: u32
  atx_flow_grp :: u32
  atx_flags :: u32

definition FLEXTCP_PL_ATX_FLTXDONE :: u32 where "FLEXTCP_PL_ATX_FLTXDONE = 1"

definition bump_desc_idx :: "u32 \<Rightarrow> u32" where "bump_desc_idx bump = bf_get 16 16 bump"

definition preprocess_ac :: "(u32 \<Rightarrow> flextcp_pl_atx_t) \<Rightarrow> work_t \<Rightarrow> u32 \<Rightarrow> pre_out list" where
  "preprocess_ac atx_desc_pool work bump =
     (let desc_idx = bump_desc_idx bump;
          atx = atx_desc_pool desc_idx;
          work = ac_set_desc_idx desc_idx (io_set_flow_id (atx_flow_id atx) (ac_set_tx_bump (atx_tx_bump atx)
            (ac_set_rx_bump (atx_rx_bump atx)
              (ac_set_fin (if atx_flags atx AND FLEXTCP_PL_ATX_FLTXDONE \<noteq> 0 then 1 else 0)
                (io_set_type WORK_TYPE_AC work)))))
      in [Work_Add (get_flowgrp_rnum (atx_flow_grp atx)) work])"

subsection \<open>Work items\<close>

lemma work_setters [simp]:
  "raw0 (io_set_type v w) = bf_set 30 2 v (raw0 w)" "raw1 (io_set_type v w) = raw1 w" "raw2 (io_set_type v w) = raw2 w"
  "raw0 (io_set_cbs v w) = bf_set 28 2 v (raw0 w)" "raw1 (io_set_cbs v w) = raw1 w" "raw2 (io_set_cbs v w) = raw2 w"
  "raw0 (io_set_isl v w) = bf_set 26 2 v (raw0 w)" "raw1 (io_set_isl v w) = raw1 w" "raw2 (io_set_isl v w) = raw2 w"
  "raw0 (io_set_pnum v w) = bf_set 16 10 v (raw0 w)" "raw1 (io_set_pnum v w) = raw1 w" "raw2 (io_set_pnum v w) = raw2 w"
  "raw0 (io_set_bls v w) = raw0 w" "raw1 (io_set_bls v w) = bf_set 29 2 v (raw1 w)" "raw2 (io_set_bls v w) = raw2 w"
  "raw0 (io_set_force v w) = raw0 w" "raw1 (io_set_force v w) = bf_set 31 1 v (raw1 w)" "raw2 (io_set_force v w) = raw2 w"
  "raw0 (io_set_muptr v w) = raw0 w" "raw1 (io_set_muptr v w) = bf_set 0 29 v (raw1 w)" "raw2 (io_set_muptr v w) = raw2 w"
  "raw0 (io_set_flow_id v w) = raw0 w" "raw1 (io_set_flow_id v w) = raw1 w" "raw2 (io_set_flow_id v w) = bf_set 16 16 v (raw2 w)"
  "raw0 (io_set_seqr v w) = raw0 w" "raw1 (io_set_seqr v w) = raw1 w" "raw2 (io_set_seqr v w) = bf_set 11 5 v (raw2 w)"
  "raw0 (io_set_plen v w) = raw0 w" "raw1 (io_set_plen v w) = raw1 w" "raw2 (io_set_plen v w) = bf_set 0 11 v (raw2 w)"
  "raw0 (ac_set_fin v w) = bf_set 29 1 v (raw0 w)" "raw1 (ac_set_fin v w) = raw1 w" "raw2 (ac_set_fin v w) = raw2 w"
  "raw0 (ac_set_rx_bump v w) = bf_set 0 29 v (raw0 w)" "raw1 (ac_set_rx_bump v w) = raw1 w" "raw2 (ac_set_rx_bump v w) = raw2 w"
  "raw0 (ac_set_tx_bump v w) = raw0 w" "raw1 (ac_set_tx_bump v w) = bf_set 0 29 v (raw1 w)" "raw2 (ac_set_tx_bump v w) = raw2 w"
  "raw0 (ac_set_desc_idx v w) = raw0 w" "raw1 (ac_set_desc_idx v w) = raw1 w" "raw2 (ac_set_desc_idx v w) = bf_set 0 16 v (raw2 w)"
  by (simp_all add: work_set_defs)

lemmas work_get_set = work_field_defs bf_get_set_same bf_get_set_other

subsection \<open>The cache of the flow table\<close>

text \<open>What a cached flow is: the flow of its connection, or the placeholder of an empty entry.\<close>

definition flowhash_ok :: "(flow_key_t \<rightharpoonup> u32) \<Rightarrow> pre_state \<Rightarrow> bool" where
  "flowhash_ok m s \<longleftrightarrow>
     (\<forall>i<FLOWHASH_CACHE_SIZE. ht_key (flowhash_cache s i) = zero_key \<or>
        m (ht_key (flowhash_cache s i)) = Some (ht_flow_id (flowhash_cache s i)))"

definition cached :: "flow_key_t \<Rightarrow> pre_state \<Rightarrow> bool" where
  "cached k s \<longleftrightarrow> (\<exists>i<FLOWHASH_CACHE_SIZE. ht_key (flowhash_cache s i) = k)"

definition flow_or_invalid :: "u32 option \<Rightarrow> u32" where
  "flow_or_invalid f = (case f of None \<Rightarrow> INVALID_FLOWID | Some f \<Rightarrow> f)"

lemma cache_idx_less: "unat (h AND (of_nat FLOWHASH_CACHE_SIZE - 1) :: u32) < FLOWHASH_CACHE_SIZE"
  using and_mask_nat [of 7 h] by (simp add: FLOWHASH_CACHE_SIZE_def)

lemma reset_flowhash_ok: "flowhash_ok m (reset_cache_pre s)"
  by (simp add: flowhash_ok_def reset_cache_pre_def)

lemma lookup_flowhash_ok:
  assumes "cam_ok cam" and "ht_inv crc crcc m ht" and "flowhash_ok m s" and "hdr_key hdr \<noteq> zero_key"
    and "lookup_flowhash crc crcc cam ht hdr s = ((f, grp), s')"
  shows "f = flow_or_invalid (m (hdr_key hdr))" and "grp = crcc (hdr_key hdr) AND 3" and "flowhash_ok m s'"
    and "f \<noteq> INVALID_FLOWID \<Longrightarrow>
      flowhash_cache s' (unat (crcc (hdr_key hdr) AND (of_nat FLOWHASH_CACHE_SIZE - 1))) =
        \<lparr>ht_key = hdr_key hdr, ht_flow_id = f\<rparr>"
proof -
  let ?k = "hdr_key hdr"
  define i where "i = unat (crcc ?k AND (of_nat FLOWHASH_CACHE_SIZE - 1))"
  have i: "i < FLOWHASH_CACHE_SIZE" by (simp only: i_def cache_idx_less)
  have l: "flow_lookup cam ?k (flow_hash crc crcc ?k) ht = flow_or_invalid (m ?k)"
    using flow_lookup_map [OF assms(1), of crc crcc ht m ?k] assms(2) by (simp add: ht_inv_def flow_or_invalid_def)
  have sec: "secondary (flow_hash crc crcc ?k) = crcc ?k" by (simp add: flow_hash_def camht_hash_def)
  have look: "lookup_flowhash crc crcc cam ht hdr s =
      (if ?k = ht_key (flowhash_cache s i) then ((ht_flow_id (flowhash_cache s i), crcc ?k AND 3), s)
       else ((flow_or_invalid (m ?k), crcc ?k AND 3),
          if flow_or_invalid (m ?k) \<noteq> INVALID_FLOWID
          then s\<lparr>flowhash_cache := (flowhash_cache s)(i := \<lparr>ht_key = ?k, ht_flow_id = flow_or_invalid (m ?k)\<rparr>)\<rparr>
          else s))"
    by (simp add: lookup_flowhash_def Let_def sec l i_def NUM_FLOW_GROUPS_def)
  have hit: "m ?k = Some (ht_flow_id (flowhash_cache s i))" if "?k = ht_key (flowhash_cache s i)"
    using assms(3,4) i that by (auto simp: flowhash_ok_def)
  have new: "m ?k = Some (flow_or_invalid (m ?k))" if "flow_or_invalid (m ?k) \<noteq> INVALID_FLOWID"
    using that by (auto simp: flow_or_invalid_def split: option.splits)
  show "f = flow_or_invalid (m ?k)"
    using assms(5) hit by (auto simp: look flow_or_invalid_def split: if_splits)
  show "grp = crcc ?k AND 3" using assms(5) by (auto simp: look split: if_splits)
  show "flowhash_ok m s'"
    using assms(3,5) new by (auto simp: look flowhash_ok_def split: if_splits)
  show "flowhash_cache s' i = \<lparr>ht_key = ?k, ht_flow_id = f\<rparr>" if "f \<noteq> INVALID_FLOWID"
    using assms(5) that by (auto simp: look split: if_splits)
qed

subsection \<open>Dispatching packets\<close>

text \<open>
  What the specification says of a packet: the ring it goes to, the flow and the payload length of its
  work item, and its place in the order of arrival. Only packets that the checks accept and whose
  connection is in the map go to a flow.
\<close>

type_synonym dispatch = "flow_ring \<times> u32 \<times> u32 \<times> u32 \<times> u32"

definition rx_dispatch ::
  "(flow_key_t \<Rightarrow> u32) \<Rightarrow> u32 \<Rightarrow> (flow_key_t \<rightharpoonup> u32) \<Rightarrow> pkt_raw_t \<Rightarrow> pkt_hdr \<Rightarrow> dispatch" where
  "rx_dispatch crcc channel m pkt hdr =
     (case (if validate_pkt_meta channel pkt \<and> validate_pkt_hdr hdr then m (hdr_key hdr) else None) of
        None \<Rightarrow> (Flow_Ring_Sp, 0, take_bit 11 (pi_len pkt), meta_seqr pkt + 1, meta_seq pkt)
      | Some f \<Rightarrow> (get_flowgrp_rnum (crcc (hdr_key hdr) AND 3), take_bit 16 f, take_bit 11 (take_bit 11 (pi_len pkt) - 74),
                  meta_seqr pkt + 1, meta_seq pkt))"

fun dispatched :: "pre_out \<Rightarrow> dispatch list" where
  "dispatched (Gro_Send rnum w seqr seq) = [(rnum, work_flow_id w, io_plen w, seqr, seq)]"
| "dispatched _ = []"

definition rx_outs :: "pre_out list \<Rightarrow> dispatch list" where
  "rx_outs outs = concat (map dispatched outs)"

lemma preprocess_rx_dispatch:
  assumes "cam_ok cam" and "ht_inv crc crcc m ht" and "flowhash_ok m s" and "hdr_key hdr \<noteq> zero_key"
    and "INVALID_FLOWID \<notin> ran m"
    and "preprocess_rx crc crcc cam channel ht work pad pkt hdr s = (outs, s')"
  shows "rx_outs outs = [rx_dispatch crcc channel m pkt hdr]" and "flowhash_ok m s'"
proof -
  have "rx_outs outs = [rx_dispatch crcc channel m pkt hdr] \<and> flowhash_ok m s'"
  proof (cases "validate_pkt_meta channel pkt \<and> validate_pkt_hdr hdr")
    case False
    then show ?thesis using assms(3,6)
      by (auto simp: preprocess_rx_def Let_def rx_outs_def rx_dispatch_def rx_forward_def RX_SEQR_def
          get_flowgrp_rnum_def NUM_FLOW_GROUPS_def work_get_set)
  next
    case True
    obtain f grp s1 where l: "lookup_flowhash crc crcc cam ht hdr s = ((f, grp), s1)" by (metis surj_pair)
    note look = lookup_flowhash_ok [OF assms(1-4) l]
    have "f = INVALID_FLOWID \<longleftrightarrow> m (hdr_key hdr) = None"
      using assms(5) look(1) by (auto simp: flow_or_invalid_def ran_def split: option.splits)
    then show ?thesis using True assms(6) look(1,2,3) l
      by (auto simp: preprocess_rx_def Let_def rx_outs_def rx_dispatch_def rx_forward_def RX_SEQR_def
          get_flowgrp_rnum_def NUM_FLOW_GROUPS_def work_get_set MAC_PREPEND_BYTES_def NET_HDR_LEN_def
          flow_or_invalid_def split: option.splits)
  qed
  then show "rx_outs outs = [rx_dispatch crcc channel m pkt hdr]" "flowhash_ok m s'" by auto
qed

text \<open>
  Packets, and requests of the slow path on the table. A deletion is of a connection that is not in
  the cache: no packet of it was looked up, or its entry was taken by another since.
\<close>

datatype pre_event = Rx_Pkt pkt_raw_t pkt_hdr work_t u32 | Rx_Table ht_op

type_synonym rx_sys_pre = "flowht \<times> pre_state"

fun rx_step ::
  "(flow_key_t \<Rightarrow> u32) \<Rightarrow> (flow_key_t \<Rightarrow> u32) \<Rightarrow> cam \<Rightarrow> u32 \<Rightarrow> pre_event \<Rightarrow> rx_sys_pre \<Rightarrow> rx_sys_pre" where
  "rx_step crc crcc cam channel (Rx_Pkt pkt hdr work pad) (ht, s) =
     (ht, snd (preprocess_rx crc crcc cam channel ht work pad pkt hdr s))"
| "rx_step crc crcc cam channel (Rx_Table p) (ht, s) = (ht_step crc crcc cam p ht, s)"

datatype rx_label = L_Pkt pkt_raw_t pkt_hdr "dispatch list" | L_Table "ht_op \<times> int"

fun rx_observe ::
  "(flow_key_t \<Rightarrow> u32) \<Rightarrow> (flow_key_t \<Rightarrow> u32) \<Rightarrow> cam \<Rightarrow> u32 \<Rightarrow> pre_event \<Rightarrow> rx_sys_pre \<Rightarrow> rx_label" where
  "rx_observe crc crcc cam channel (Rx_Pkt pkt hdr work pad) (ht, s) =
     L_Pkt pkt hdr (rx_outs (fst (preprocess_rx crc crcc cam channel ht work pad pkt hdr s)))"
| "rx_observe crc crcc cam channel (Rx_Table p) (ht, s) = L_Table (ht_obs crc crcc cam p ht)"

fun pre_event_ok :: "pre_event \<Rightarrow> rx_sys_pre \<Rightarrow> bool" where
  "pre_event_ok (Rx_Pkt pkt hdr work pad) (ht, s) = (hdr_key hdr \<noteq> zero_key)"
| "pre_event_ok (Rx_Table (Ht_Insert e)) (ht, s) = (ht_flow_id e \<noteq> INVALID_FLOWID)"
| "pre_event_ok (Rx_Table (Ht_Delete k)) (ht, s) = (\<not> cached k s)"

text \<open>The specification: a map, and every packet dispatched by it.\<close>

fun rx_spec ::
  "(flow_key_t \<Rightarrow> u32) \<Rightarrow> u32 \<Rightarrow> (flow_key_t \<rightharpoonup> u32) \<Rightarrow> rx_label \<Rightarrow> (flow_key_t \<rightharpoonup> u32) \<Rightarrow> bool" where
  "rx_spec crcc channel m (L_Pkt pkt hdr ds) m' = (ds = [rx_dispatch crcc channel m pkt hdr] \<and> m' = m)"
| "rx_spec crcc channel m (L_Table l) m' = map_step m l m'"

fun rx_sys_rel ::
  "(flow_key_t \<Rightarrow> u32) \<Rightarrow> (flow_key_t \<Rightarrow> u32) \<Rightarrow> (flow_key_t \<rightharpoonup> u32) \<Rightarrow> rx_sys_pre \<Rightarrow> bool" where
  "rx_sys_rel crc crcc m (ht, s) = (ht_inv crc crcc m ht \<and> flowhash_ok m s \<and> INVALID_FLOWID \<notin> ran m)"

lemma map_step_keeps_cache:
  assumes "map_step m (p, r) m'" and "pre_event_ok (Rx_Table p) (ht, s)" and "flowhash_ok m s" and "INVALID_FLOWID \<notin> ran m"
  shows "flowhash_ok m' s" and "INVALID_FLOWID \<notin> ran m'"
proof -
  show "flowhash_ok m' s"
  proof (cases p)
    case (Ht_Insert e)
    then show ?thesis using assms(1,3) unfolding flowhash_ok_def by (auto, metis option.distinct(1))
  next
    case (Ht_Delete k)
    then show ?thesis using assms(1,2,3) by (auto simp: flowhash_ok_def cached_def)
  qed
  show "INVALID_FLOWID \<notin> ran m'" using assms(1,2,4) by (cases p) (auto simp: ran_def split: if_splits)
qed

lemma rx_simulation:
  assumes "cam_ok cam"
  shows "simulation (rx_step crc crcc cam channel) pre_event_ok (rx_observe crc crcc cam channel) (rx_spec crcc channel)
    (rx_sys_rel crc crcc)"
proof
  fix m c e
  assume rel: "rx_sys_rel crc crcc m c" and ok: "pre_event_ok e c"
  obtain ht s where c: "c = (ht, s)" by fastforce
  show "\<exists>m'. rx_spec crcc channel m (rx_observe crc crcc cam channel e c) m' \<and>
      rx_sys_rel crc crcc m' (rx_step crc crcc cam channel e c)"
  proof (cases e)
    case (Rx_Pkt pkt hdr work pad)
    obtain outs s' where "preprocess_rx crc crcc cam channel ht work pad pkt hdr s = (outs, s')" by fastforce
    with preprocess_rx_dispatch [OF assms _ _ _ _ this, of m] rel ok show ?thesis
      by (auto simp: Rx_Pkt c)
  next
    case (Rx_Table p)
    have "ht_inv crc crcc m ht" using rel c by simp
    moreover note sim = simulation.sim [OF ht_simulation [OF assms, of crc crcc]]
    ultimately obtain m' where
      "map_step m (ht_obs crc crcc cam p ht) m'" "ht_inv crc crcc m' (ht_step crc crcc cam p ht)"
      using sim [of m ht p] by blast
    with map_step_keeps_cache [of m p _ m' ht s] rel ok show ?thesis
      by (auto simp: Rx_Table c ht_obs_def)
  qed
qed

text \<open>
  C8. Every packet goes to the flow of its connection. Starting with the empty table and the reset
  cache, let packets arrive while the slow path inserts and deletes connections (deleting only those
  that no cache entry holds). Each packet is handed on exactly once, as if looked up in the map that
  the table implements: to the ring of its connection's flow group with its flow and payload length if
  metadata, flags and options are those of the fast path and the connection is offloaded, and
  otherwise to the slow path with its full length; always with the sequencer and number of its arrival.
\<close>

theorem rx_dispatch_by_connection:
  assumes "cam_ok cam"
    and "run_ok (rx_step crc crcc cam channel) pre_event_ok es (ht_empty, reset_cache_pre s)"
  shows "\<exists>m. steps (rx_spec crcc channel) (\<lambda>_. None)
    (run_obs (rx_step crc crcc cam channel) (rx_observe crc crcc cam channel) es (ht_empty, reset_cache_pre s)) m"
proof -
  have "rx_sys_rel crc crcc (\<lambda>_. None) (ht_empty, reset_cache_pre s)"
    by (simp add: ht_empty_inv reset_flowhash_ok)
  moreover note sim = simulation.run_sim [OF rx_simulation [OF assms(1), of crc crcc channel]]
  ultimately show ?thesis using sim [OF _ assms(2)] by blast
qed

definition sample_raw :: pkt_raw_t where
  "sample_raw = \<lparr>meta_raw = (\<lambda>i. [0x80050096, 7, 0x00010200, 0x00003420, 0x004A2A00, 0x00160000] ! i), mac_prepend = 0x40300000\<rparr>"

definition sample_hdr :: pkt_hdr where
  "sample_hdr = (\<lambda>i. [0, 0, 0, 0, 0x45000074, 0x00034000, 0xff060000, key_raw0 conn_key, key_raw1 conn_key, key_raw2 conn_key,
     5000, 700, 0x80100400, 0, 0x0101080A, 1, 2] ! i)"

definition sample_rx_work :: work_t where "sample_rx_work = \<lparr>raw0 = 0, raw1 = 0, raw2 = 0\<rparr>"

definition sample_pre :: pre_state where
  "sample_pre = \<lparr>flowhash_cache = \<lambda>_. \<lparr>ht_key = conn_key, ht_flow_id = 9\<rparr>, conn_tag = \<lambda>_. 0,
     conn_cache = \<lambda>_. \<lparr>conn_flow_grp = 0, conn_raw1 = 0, conn_raw2 = 0, conn_local_ip = 0, conn_remote_ip = 0, conn_ports = 0\<rparr>\<rparr>"

lemma sample_hdr_key: "hdr_key sample_hdr = conn_key"
  by (simp add: hdr_key_def sample_hdr_def)

lemma sample_valid: "validate_pkt_meta 0 sample_raw" "validate_pkt_hdr sample_hdr"
  by (simp_all add: validate_pkt_meta_def sample_raw_def PKT_META_RAW3_def PKT_META_RAW4_def PKT_META_RAW5_def
      PKT_META_RAW7_def validate_pkt_hdr_def sample_hdr_def hdr_flags_def bf_get_def TCP_FP_FLAGS_def PKT_TCP_OPT_RAW0_def)

lemma sample_insert:
  "fst (flow_insert sum_hash sum_hash first_cam conn_entry ht_empty) = 0" "ht_key conn_entry = conn_key" "ht_flow_id conn_entry = 7"
  by (simp_all add: ht_eval)

lemma sample_dispatch: "rx_dispatch sum_hash 0 [conn_key \<mapsto> 7] sample_raw sample_hdr = (Flow_Ring_3, 7, 76, 3, 1)"
  by (simp add: rx_dispatch_def sample_valid sample_hdr_key)
     (simp add: sum_hash_def conn_key_def get_flowgrp_rnum_def pi_len_def meta_seqr_def meta_seq_def sample_raw_def bf_get_def
       take_bit_eq_mask mask_eq_exp_minus_1)

theorem rx_dispatch_by_connection_witness:
  "rx_outs (fst (preprocess_rx sum_hash sum_hash first_cam 0 (ht_step sum_hash sum_hash first_cam (Ht_Insert conn_entry) ht_empty)
     sample_rx_work 0 sample_raw sample_hdr (reset_cache_pre sample_pre))) = [(Flow_Ring_3, 7, 76, 3, 1)]"
proof -
  let ?es = "[Rx_Table (Ht_Insert conn_entry), Rx_Pkt sample_raw sample_hdr sample_rx_work 0]"
  have "run_ok (rx_step sum_hash sum_hash first_cam 0) pre_event_ok ?es (ht_empty, reset_cache_pre sample_pre)"
    by (simp add: sample_hdr_key) (simp add: conn_key_def conn_entry_def zero_key_def INVALID_FLOWID_def)
  from rx_dispatch_by_connection [OF first_cam_ok this] show ?thesis
    by (simp add: ht_obs_def sample_insert sample_dispatch)
qed

text \<open>
  C31. Nothing takes a connection out of the cache when the slow path deletes it. Once a packet of a
  connection was dispatched to its flow, and the connection is deleted, or deleted and inserted again
  with another flow, the next packet of the connection still goes to the old flow.
\<close>

theorem rx_dispatch_stale_after_delete:
  assumes "cam_ok cam" and "ht_inv crc crcc m ht" and "flowhash_ok m s" and "INVALID_FLOWID \<notin> ran m"
    and "hdr_key hdr \<noteq> zero_key" and "m (hdr_key hdr) = Some f"
    and "validate_pkt_meta channel pkt" and "validate_pkt_hdr hdr"
  shows "rx_outs (fst (preprocess_rx crc crcc cam channel (run (ht_step crc crcc cam) ops ht) work' pad' pkt hdr
      (snd (preprocess_rx crc crcc cam channel ht work pad pkt hdr s)))) =
    [rx_dispatch crcc channel [hdr_key hdr \<mapsto> f] pkt hdr]"
proof -
  obtain g grp s1 where l: "lookup_flowhash crc crcc cam ht hdr s = ((g, grp), s1)" by (metis surj_pair)
  note look = lookup_flowhash_ok [OF assms(1-3,5) l]
  have g: "g = f" "f \<noteq> INVALID_FLOWID" using assms(4,6) look(1) by (auto simp: flow_or_invalid_def ran_def)
  have s1: "snd (preprocess_rx crc crcc cam channel ht work pad pkt hdr s) = s1"
    using assms(7,8) l by (simp add: preprocess_rx_def Let_def)
  have "lookup_flowhash crc crcc cam ht' hdr s1 = ((f, crcc (hdr_key hdr) AND 3), s1)" for ht'
    using look(4) g by (simp add: lookup_flowhash_def Let_def flow_hash_def camht_hash_def NUM_FLOW_GROUPS_def)
  then show ?thesis using assms(7,8) g
    by (simp add: s1) (simp add: preprocess_rx_def Let_def rx_outs_def rx_dispatch_def rx_forward_def RX_SEQR_def
        work_get_set MAC_PREPEND_BYTES_def NET_HDR_LEN_def)
qed

theorem rx_dispatch_stale_after_delete_witness:
  "rx_outs (fst (preprocess_rx sum_hash sum_hash first_cam 0
      (run (ht_step sum_hash sum_hash first_cam) [Ht_Delete conn_key] (ht_step sum_hash sum_hash first_cam (Ht_Insert conn_entry) ht_empty))
      sample_rx_work 0 sample_raw sample_hdr
      (snd (preprocess_rx sum_hash sum_hash first_cam 0 (ht_step sum_hash sum_hash first_cam (Ht_Insert conn_entry) ht_empty)
        sample_rx_work 0 sample_raw sample_hdr (reset_cache_pre sample_pre))))) =
    [rx_dispatch sum_hash 0 [hdr_key sample_hdr \<mapsto> 7] sample_raw sample_hdr]"
proof -
  let ?ht = "ht_step sum_hash sum_hash first_cam (Ht_Insert conn_entry) ht_empty"
  note sim = simulation.sim [OF ht_simulation [OF first_cam_ok, of sum_hash sum_hash]]
  have inv: "ht_inv sum_hash sum_hash [conn_key \<mapsto> 7] ?ht"
    using sim [OF ht_empty_inv TrueI, of "Ht_Insert conn_entry"] by (auto simp: ht_obs_def sample_insert)
  have "INVALID_FLOWID \<notin> ran [conn_key \<mapsto> 7]" "hdr_key sample_hdr \<noteq> zero_key" "[conn_key \<mapsto> 7] (hdr_key sample_hdr) = Some 7"
    by (simp_all add: sample_hdr_key INVALID_FLOWID_def) (simp add: conn_key_def zero_key_def)
  from rx_dispatch_stale_after_delete [OF first_cam_ok inv reset_flowhash_ok this sample_valid] show ?thesis .
qed

subsection \<open>Headers of both directions\<close>

text \<open>
  The Ethernet and IP addresses and the ports of a header by words; the upper half of word 0 is the
  padding, the lower half of word 3 the Ethernet type.
\<close>

definition hdr_addresses :: "u32 list \<Rightarrow> u32 list" where
  "hdr_addresses h = [h ! 0 AND 0xFFFF, h ! 1, h ! 2, h ! 3, h ! 7, h ! 8, h ! 9]"

text \<open>The packets the peer of a connection sends to it, by their addresses.\<close>

definition from_peer :: "u32 \<Rightarrow> u32 \<Rightarrow> flowst_conn_t \<Rightarrow> pkt_hdr \<Rightarrow> bool" where
  "from_peer mac_hi mac_lo conn hdr \<longleftrightarrow>
     hdr 0 AND 0xFFFF = drop_bit 16 mac_hi \<and> hdr 1 = push_bit 16 mac_hi OR mac_lo \<and>
     hdr 2 = conn_raw1 conn \<and> drop_bit 16 (hdr 3) = drop_bit 16 (conn_raw2 conn) \<and> hdr 3 AND 0xFFFF = 0x0800 \<and>
     hdr 7 = conn_remote_ip conn \<and> hdr 8 = conn_local_ip conn \<and>
     hdr 9 = push_bit 16 (conn_ports conn) OR drop_bit 16 (conn_ports conn)"

lemma and_ffff: "x AND 0xFFFF = take_bit 16 x" for x :: u32
  by (simp add: take_bit_eq_mask mask_eq_exp_minus_1)

lemma halves:
  "push_bit 16 (take_bit 16 x) = push_bit 16 x" "push_bit 16 (drop_bit 16 x) OR take_bit 16 x = x"
  "push_bit 16 (push_bit 16 x) = 0" "drop_bit 16 (drop_bit 16 x) = 0" "drop_bit 16 (push_bit 16 x) = take_bit 16 x"
  "take_bit 16 (drop_bit 16 x) = drop_bit 16 x" "take_bit 16 (push_bit 16 x) = 0" for x :: u32
  by (rule bit_word_eqI, auto simp: bit_simps dest: bit_imp_le_length)+

lemma word_or_distribs:
  "push_bit n (x OR y) = push_bit n x OR push_bit n y" "drop_bit n (x OR y) = drop_bit n x OR drop_bit n y"
  "take_bit n (x OR y) = take_bit n x OR take_bit n y" for x y :: u32
  by (simp_all add: push_bit_or drop_bit_or take_bit_or)

text \<open>
  C16. Acknowledgements and data segments of a flow carry the same addresses: the acknowledgement header
  made from a packet of the peer by swapping its addresses and ports has exactly the Ethernet and IP
  addresses and ports of the segment header made from the connection's state; and a segment of the
  connection is, on the peer's side, looked up under the reverse of the key of the peer's packets.
\<close>

theorem ack_header_matches_segment_header:
  assumes "from_peer mac_hi mac_lo conn hdr" and "mac_lo < 0x10000"
  shows "hdr_addresses (prepare_ack_header_pre pad hdr) = hdr_addresses (prepare_seg_header_pre mac_hi mac_lo conn) \<and>
    hdr_key (\<lambda>i. prepare_seg_header_pre mac_hi mac_lo conn ! i) =
      \<lparr>key_raw0 = key_raw1 (hdr_key hdr), key_raw1 = key_raw0 (hdr_key hdr),
       key_raw2 = push_bit 16 (key_raw2 (hdr_key hdr)) OR drop_bit 16 (key_raw2 (hdr_key hdr))\<rparr>"
proof (rule conjI)
  have lo: "take_bit 16 mac_lo = mac_lo" "drop_bit 16 mac_lo = 0"
    using assms(2) bf_get_small [of mac_lo 16 16] by (simp_all add: take_bit_small word_nat bf_get_def halves)
  have "push_bit 16 (hdr 0) = push_bit 16 (drop_bit 16 mac_hi)"
    using assms(1) halves(1) [of "hdr 0"] by (simp add: from_peer_def and_ffff)
  with assms(1) lo show "hdr_addresses (prepare_ack_header_pre pad hdr) = hdr_addresses (prepare_seg_header_pre mac_hi mac_lo conn)"
    by (simp add: hdr_addresses_def prepare_ack_header_pre_def prepare_seg_header_pre_def from_peer_def and_ffff
        halves word_or_distribs or.assoc)
  from assms(1) show "hdr_key (\<lambda>i. prepare_seg_header_pre mac_hi mac_lo conn ! i) =
      \<lparr>key_raw0 = key_raw1 (hdr_key hdr), key_raw1 = key_raw0 (hdr_key hdr),
       key_raw2 = push_bit 16 (key_raw2 (hdr_key hdr)) OR drop_bit 16 (key_raw2 (hdr_key hdr))\<rparr>"
    by (simp add: hdr_key_def prepare_seg_header_pre_def from_peer_def word_or_distribs halves)
qed

definition sample_conn :: flowst_conn_t where
  "sample_conn = \<lparr>conn_flow_grp = 3, conn_raw1 = 0x00154D12, conn_raw2 = 0x2CC60001, conn_local_ip = 0x0A000002,
     conn_remote_ip = 0x0A000001, conn_ports = 0x0050C350\<rparr>"

theorem ack_header_matches_segment_header_witness:
  "hdr_addresses (prepare_ack_header_pre 0 (\<lambda>i. [0x0015, 0x4D1344FF, 0x00154D12, 0x2CC60800, 0x45000074, 0x00034000, 0xff060000,
      0x0A000001, 0x0A000002, 0xC3500050] ! i)) = [0x0015, 0x4D122CC6, 0x00154D13, 0x44FF0800, 0x0A000002, 0x0A000001, 0x0050C350]"
proof -
  have "from_peer 0x00154D13 0x44FF sample_conn (\<lambda>i. [0x0015, 0x4D1344FF, 0x00154D12, 0x2CC60800, 0x45000074, 0x00034000, 0xff060000,
      0x0A000001, 0x0A000002, 0xC3500050] ! i)"
    by (simp add: from_peer_def sample_conn_def)
  moreover have "(0x44FF :: u32) < 0x10000" by simp
  ultimately show ?thesis
    using ack_header_matches_segment_header [THEN conjunct1]
    by (simp add: hdr_addresses_def prepare_seg_header_pre_def sample_conn_def)
qed

subsection \<open>Packet metadata\<close>

lemma bf_get_mask_iff: "lo + n \<le> 32 \<Longrightarrow> bf_get lo n x = mask n \<longleftrightarrow> (\<forall>i<n. bit x (lo + i))"
  by (auto simp: bit_eq_iff bit_bf_get bit_mask_iff) (meson add_leD2 order_less_le_trans)

lemma word_unat_of: "unat (x :: u32) = n \<Longrightarrow> x = of_nat n"
  by auto

text \<open>
  The test of the MAC's verdict is on single bits: of the parse status it asks only for bit 30. Besides
  status 2 (TCP checksum correct) it accepts 3 (TCP checksum wrong), 6 and 7, so a segment with a
  wrong checksum is handled like any other.
\<close>

theorem accepted_parse_status:
  "validate_pkt_meta channel pkt \<longleftrightarrow>
     meta_raw pkt 3 = 0x3420 \<and> meta_raw pkt 4 = push_bit 24 channel OR 0x4A2A00 \<and> meta_raw pkt 5 = 0x160000 \<and>
     bf_get 29 3 (mac_prepend pkt) \<in> {2, 3, 6, 7} \<and> bf_get 20 2 (mac_prepend pkt) = 3"
proof -
  define x where "x = mac_prepend pkt"
  have c: "bit (0x40300000 :: u32) n \<longleftrightarrow> n = 30 \<or> n = 21 \<or> n = 20" for n
  proof -
    have "(0x40300000 :: u32) = push_bit 30 1 OR push_bit 21 1 OR push_bit 20 1" by simp
    then show ?thesis by (simp only: bit_or_iff bit_push_bit_iff bit_1_iff) auto
  qed
  have "x AND 0x40300000 = 0x40300000 \<longleftrightarrow> bit x 30 \<and> bit x 21 \<and> bit x 20"
  proof
    assume "x AND 0x40300000 = 0x40300000"
    then have "bit (x AND 0x40300000) n = bit (0x40300000 :: u32) n" for n by simp
    then show "bit x 30 \<and> bit x 21 \<and> bit x 20" unfolding bit_and_iff c by blast
  next
    assume "bit x 30 \<and> bit x 21 \<and> bit x 20"
    then show "x AND 0x40300000 = 0x40300000"
      by (intro bit_word_eqI) (simp only: bit_and_iff c, blast)
  qed
  moreover have "bf_get 20 2 x = 3 \<longleftrightarrow> bit x 21 \<and> bit x 20"
    using bf_get_mask_iff [of 20 2 x] by (auto simp: mask_eq_exp_minus_1 numeral_2_eq_2 less_Suc_eq)
  moreover have "bf_get 29 3 x \<in> {2, 3, 6, 7} \<longleftrightarrow> bit x 30"
  proof -
    have "bit (bf_get 29 3 x) 1 = bit x 30" by (simp add: bit_bf_get)
    moreover have "unat (bf_get 29 3 x) \<in> {..<8}" using bf_get_bound [of 3 29 x] by simp
    then have "unat (bf_get 29 3 x) \<in> {0, 1, 2, 3, 4, 5, 6, 7}" by auto
    then have "bf_get 29 3 x \<in> {0, 1, 2, 3, 4, 5, 6, 7}" by (auto dest: word_unat_of)
    ultimately show ?thesis by auto
  qed
  ultimately show ?thesis
    by (auto simp: validate_pkt_meta_def PKT_META_RAW3_def PKT_META_RAW4_def PKT_META_RAW5_def PKT_META_RAW7_def x_def or.assoc)
qed

lemma ctm_size_arith:
  fixes y b h :: nat
  assumes "y < 16384" and "b < 4"
  shows "(y + 16384 * b + 65536 * h) div 1024 mod 64 = y div 1024 + 16 * b"
    and "(y + 16384 * b + 65536 * h) div 256 mod 4 = y div 256 mod 4"
proof -
  have "(y + 16384 * b + 65536 * h) div 1024 = (y + (16 * b + 64 * h) * 1024) div 1024"
    "(y + 16384 * b + 65536 * h) div 256 = (y + (64 * b + 256 * h) * 256) div 256" by (simp_all add: algebra_simps)
  then have d: "(y + 16384 * b + 65536 * h) div 1024 = y div 1024 + 16 * b + h * 64"
    "(y + 16384 * b + 65536 * h) div 256 = y div 256 + (16 * b + 64 * h) * 4" by simp_all
  have "y div 1024 < 16" using assms(1) by (simp add: div_less_iff_less_mult)
  then have "y div 1024 + 16 * b < 64" using assms(2) by simp
  then show "(y + 16384 * b + 65536 * h) div 1024 mod 64 = y div 1024 + 16 * b"
    by (simp only: d mod_mult_self1 mod_less)
  show "(y + 16384 * b + 65536 * h) div 256 mod 4 = y div 256 mod 4" by (simp only: d mod_mult_self1)
qed

lemma unat_bf_get: "unat (bf_get lo n x) = unat x div 2 ^ lo mod 2 ^ n"
  by (simp only: bf_get_def unsigned_take_bit_eq unat_drop_bit) (simp add: take_bit_eq_mod)

lemma info_word_split:
  fixes w :: u32
  shows "unat w = unat (bf_get 0 14 w) + 16384 * unat (bf_get 14 2 w) + 65536 * (unat w div 65536)"
proof -
  let ?n = "unat w"
  have "?n = ?n mod 16384 + 16384 * (?n div 16384)" by simp
  also have "?n div 16384 = ?n div 16384 mod 4 + 4 * (?n div 16384 div 4)" by simp
  also have "?n div 16384 div 4 = ?n div 65536" by (simp add: div_mult2_eq [symmetric])
  finally show ?thesis by (simp add: unat_bf_get)
qed

text \<open>
  The size class of the CTM buffer of a packet is the smallest one that holds the packet behind
  its 64 bytes of metadata (256, 512 and 1024 bytes), or the largest class, 3, for what fits in none of
  them; but the test for large packets includes the two bits above the length: a packet whose memory
  buffer is not of list 0 is always given the largest class.
\<close>

theorem ctm_size_class:
  assumes "unat (bf_get 0 14 w) + 63 < 16384"
  shows "compute_ctm_size w =
    (if bf_get 14 2 w \<noteq> 0 then 3
     else if unat (bf_get 0 14 w) + 64 \<le> 256 then 0
     else if unat (bf_get 0 14 w) + 64 \<le> 512 then 1
     else if unat (bf_get 0 14 w) + 64 \<le> 1024 then 2 else 3)"
proof -
  define l b h where "l = unat (bf_get 0 14 w)" and "b = unat (bf_get 14 2 w)" and "h = unat w div 65536"
  have lb: "l + 63 < 16384" "b < 4" using assms bf_get_bound [of 2 14 w] by (simp_all add: l_def b_def)
  have w: "unat w = l + 16384 * b + 65536 * h" using info_word_split [of w] by (simp only: l_def b_def h_def)
  have h: "h < 65536" using unat_u32_less [of w] by (simp add: h_def div_less_iff_less_mult)
  define x where "x = w + (PKT_NBI_OFFSET - 1)"
  have x: "unat x = (l + 63) + 16384 * b + 65536 * h"
    unfolding x_def using w lb h by (subst unat_add_exact) (auto simp: PKT_NBI_OFFSET_def)
  have hi: "drop_bit 10 x AND 0x3F \<noteq> 0 \<longleftrightarrow> 1024 \<le> l + 63 \<or> b \<noteq> 0"
  proof -
    have "unat (drop_bit 10 x AND 0x3F) = (l + 63) div 1024 + 16 * b"
      using and_mask_nat [of 6 "drop_bit 10 x"] ctm_size_arith(1) [OF lb, of h] by (simp add: unat_drop_bit x)
    then have "drop_bit 10 x AND 0x3F = 0 \<longleftrightarrow> (l + 63) div 1024 + 16 * b = 0" by (simp only: unat_eq_0 flip: unat_eq_0)
    then show ?thesis by (auto simp: div_eq_0_iff)
  qed
  have lo: "unat (drop_bit 8 x AND 3) = (l + 63) div 256 mod 4"
    using and_mask_nat [of 2 "drop_bit 8 x"] ctm_size_arith(2) [OF lb, of h]
    by (simp add: unat_drop_bit x)
  have b: "bf_get 14 2 w \<noteq> 0 \<longleftrightarrow> b \<noteq> 0" by (simp add: b_def unat_eq_zero)
  show ?thesis
  proof (cases "1024 \<le> l + 63 \<or> b \<noteq> 0")
    case True
    with hi b show ?thesis by (auto simp: compute_ctm_size_def Let_def simp flip: x_def l_def)
  next
    case False
    then have "(l + 63) div 256 < 4" by (simp add: div_less_iff_less_mult)
    with lo have "drop_bit 8 x AND 3 = of_nat ((l + 63) div 256)" by (simp add: word_unat_of)
    moreover define q where "q = (l + 63) div 256"
    ultimately have c: "compute_ctm_size w = (if drop_bit 1 (of_nat q :: u32) AND 1 \<noteq> 0 then 2 else of_nat q AND 1)"
      using False hi by (simp add: compute_ctm_size_def Let_def flip: x_def)
    have q: "256 * q \<le> l + 63" "l + 63 < 256 * q + 256"
      unfolding q_def using mult_div_mod_eq [of 256 "l + 63"] mod_less_divisor [of 256 "l + 63"] by linarith+
    then have "q < 4" using False by linarith
    then consider "q = 0" | "q = 1" | "q = 2" | "q = 3" by linarith
    then show ?thesis unfolding c l_def [symmetric] using q b False by cases simp_all
  qed
qed

theorem ctm_size_class_witness: "compute_ctm_size 0x80050096 = 0 \<and> compute_ctm_size 0x80054096 = 3"
  using ctm_size_class [of "0x80050096"] ctm_size_class [of "0x80054096"] by (simp add: bf_get_def take_bit_eq_mask mask_eq_exp_minus_1)

end
