(* ===== verification/Nicif.thy ===== *)
theory Nicif
  imports Preprocess "HOL-Library.Multiset"
begin

unbundle bit_operations_syntax

text \<open>
  The slow path's view of the card, \<open>user/nicif.c\<close>: allocation of flow ids, registration of a connection
  in the card's memory, and the two descriptor queues to and from the card.

  Descriptors are in host memory, each with its type, 0 for invalid, and its message words. Values are
  byte-swapped on their way to the card and read there in its order; the model keeps the values. Queue
  indices are below the queue length, so their increments do not wrap. The list of free flow ids is
  the list of its items in the order of the \<open>next\<close> pointers.
\<close>

subsection \<open>Data\<close>

record flextcp_pl_sptx_t =
  sptx_type :: u32
  sptx_raw :: "nat \<Rightarrow> u32"

record flextcp_pl_sprx_t =
  sprx_type :: u32
  sprx_len :: u32
  sprx_flow_group :: u32

definition FLEXTCP_PL_SPRX_INVALID :: u32 where "FLEXTCP_PL_SPRX_INVALID = 0"
definition FLEXTCP_PL_SPRX_PACKET :: u32 where "FLEXTCP_PL_SPRX_PACKET = 1"

definition FLEXTCP_PL_SPTX_INVALID :: u32 where "FLEXTCP_PL_SPTX_INVALID = 0"
definition FLEXTCP_PL_SPTX_PACKET :: u32 where "FLEXTCP_PL_SPTX_PACKET = 1"
definition FLEXTCP_PL_SPTX_PACKET_NOTS :: u32 where "FLEXTCP_PL_SPTX_PACKET_NOTS = 2"
definition FLEXTCP_PL_SPTX_CONN_RETX :: u32 where "FLEXTCP_PL_SPTX_CONN_RETX = 3"
definition FLEXTCP_PL_SPTX_CONN_SETRATE :: u32 where "FLEXTCP_PL_SPTX_CONN_SETRATE = 4"
definition FLEXTCP_PL_SPTX_FLOWHT_ADD :: u32 where "FLEXTCP_PL_SPTX_FLOWHT_ADD = 5"
definition FLEXTCP_PL_SPTX_FLOWHT_DEL :: u32 where "FLEXTCP_PL_SPTX_FLOWHT_DEL = 6"
definition FLEXTCP_PL_SPTX_CONN_CLOSE :: u32 where "FLEXTCP_PL_SPTX_CONN_CLOSE = 7"
definition FLEXTCP_PL_SPTX_DEBUG_RESET :: u32 where "FLEXTCP_PL_SPTX_DEBUG_RESET = 8"

lemmas sptx_type_defs = FLEXTCP_PL_SPTX_INVALID_def FLEXTCP_PL_SPTX_PACKET_def FLEXTCP_PL_SPTX_PACKET_NOTS_def
  FLEXTCP_PL_SPTX_CONN_RETX_def FLEXTCP_PL_SPTX_CONN_SETRATE_def FLEXTCP_PL_SPTX_FLOWHT_ADD_def
  FLEXTCP_PL_SPTX_FLOWHT_DEL_def FLEXTCP_PL_SPTX_CONN_CLOSE_def FLEXTCP_PL_SPTX_DEBUG_RESET_def

text \<open>The memory of the card as the slow path sees it: the flows and the registers of the queues.\<close>

record flextcp_pl_mem =
  fp_tcp_state :: "u32 \<Rightarrow> flowst_tcp_t"
  fp_conn_info :: "u32 \<Rightarrow> flowst_conn_t"
  fp_mem_info :: "u32 \<Rightarrow> flowst_mem_t"
  fp_cc_info :: "u32 \<Rightarrow> flowst_cc_t"
  spctx_rx_head :: nat
  spctx_tx_tail :: nat

record nicif =
  flow_id_freelist :: "u32 list"
  flow_slot_status :: "u32 \<Rightarrow> nat \<Rightarrow> int"
  txq_base :: "nat \<Rightarrow> flextcp_pl_sptx_t"
  txq_tail :: nat
  txq_len :: nat
  rxq_base :: "nat \<Rightarrow> flextcp_pl_sprx_t"
  rxq_head :: nat
  rxq_len :: nat
  fp_state :: flextcp_pl_mem

subsection \<open>Flow ids\<close>

definition flow_id_alloc_init :: "nicif \<Rightarrow> nicif" where
  "flow_id_alloc_init s = s\<lparr>flow_id_freelist := map of_nat [1..<FLEXNIC_PL_FLOWST_NUM]\<rparr>"

definition NUM_CLS_CACHE_SLOTS :: nat where "NUM_CLS_CACHE_SLOTS = 512"

datatype fid_result = Fid u32 | No_Fid | Null_Dereference

definition free_slot :: "u32 \<Rightarrow> nicif \<Rightarrow> nat option" where
  "free_slot fgrp s = List.find (\<lambda>i. flow_slot_status s fgrp i = 0) [0..<NUM_CLS_CACHE_SLOTS]"

definition slot_of :: "u32 \<Rightarrow> nat" where "slot_of flow_id = unat flow_id mod NUM_CLS_CACHE_SLOTS"

definition slot_add :: "u32 \<Rightarrow> nat \<Rightarrow> int \<Rightarrow> nicif \<Rightarrow> nicif" where
  "slot_add fgrp i n s = s\<lparr>flow_slot_status := (flow_slot_status s)(fgrp := (flow_slot_status s fgrp)(i := flow_slot_status s fgrp i + n))\<rparr>"

text \<open>
  The search goes through the whole list after the first item. When it finds no id for the slot, the
  code goes on with the null pointer at the end of the list.
\<close>

definition flow_id_alloc :: "u32 \<Rightarrow> nicif \<Rightarrow> fid_result \<times> nicif" where
  "flow_id_alloc fgrp s =
     (case flow_id_freelist s of
        [] \<Rightarrow> (No_Fid, s)
      | it # rest \<Rightarrow>
          (case free_slot fgrp s of
             None \<Rightarrow> (Fid it, s\<lparr>flow_id_freelist := rest\<rparr>)
           | Some i \<Rightarrow>
               if slot_of it = i then (Fid it, slot_add fgrp i 1 (s\<lparr>flow_id_freelist := rest\<rparr>))
               else (case dropWhile (\<lambda>x. slot_of x \<noteq> i) rest of
                       x # post \<Rightarrow>
                         (Fid x, slot_add fgrp i 1 (s\<lparr>flow_id_freelist := it # takeWhile (\<lambda>x. slot_of x \<noteq> i) rest @ post\<rparr>))
                     | [] \<Rightarrow> (Null_Dereference, s))))"

definition flow_id_free :: "u32 \<Rightarrow> u32 \<Rightarrow> nicif \<Rightarrow> nicif" where
  "flow_id_free flow_id fgrp s =
     slot_add fgrp (slot_of flow_id) (- 1) (s\<lparr>flow_id_freelist := flow_id # flow_id_freelist s\<rparr>)"

subsection \<open>The queue to the card\<close>

text \<open>The descriptor's index and the new tail, if the descriptor at the tail is not in use.\<close>

definition sptx_try_alloc :: "nicif \<Rightarrow> (nat \<times> nat) option \<times> nicif" where
  "sptx_try_alloc s =
     (let tail = txq_tail s
      in if sptx_type (txq_base s tail) \<noteq> FLEXTCP_PL_SPTX_INVALID then (None, s)
         else let updated_tail = (if txq_len s \<le> tail + 1 then 0 else tail + 1)
              in (Some (tail, updated_tail), s\<lparr>txq_tail := updated_tail\<rparr>))"

definition sptx_write :: "nat \<Rightarrow> (flextcp_pl_sptx_t \<Rightarrow> flextcp_pl_sptx_t) \<Rightarrow> nicif \<Rightarrow> nicif" where
  "sptx_write i f s = s\<lparr>txq_base := (txq_base s)(i := f (txq_base s i))\<rparr>"

definition doorbell :: "nat \<Rightarrow> nicif \<Rightarrow> nicif" where
  "doorbell tail s = s\<lparr>fp_state := (fp_state s)\<lparr>spctx_tx_tail := tail\<rparr>\<rparr>"

text \<open>Allocating a descriptor, writing message words and type, and ringing the doorbell.\<close>

definition sptx_post :: "u32 \<Rightarrow> (nat \<times> u32) list \<Rightarrow> nicif \<Rightarrow> int \<times> nicif" where
  "sptx_post ty ws s =
     (case sptx_try_alloc s of
        (None, s1) \<Rightarrow> (- 1, s1)
      | (Some (i, tail), s1) \<Rightarrow>
          (0, doorbell tail (sptx_write i (\<lambda>d. d\<lparr>sptx_raw := fold (\<lambda>(j, v) m. m(j := v)) ws (sptx_raw d), sptx_type := ty\<rparr>)
             (s1\<lparr>txq_tail := tail\<rparr>))))"

definition flow_slot_words :: "u32 \<Rightarrow> u32 \<Rightarrow> u16 \<Rightarrow> u16 \<Rightarrow> u32 \<Rightarrow> (nat \<times> u32) list" where
  "flow_slot_words lip rip lp rp f_id = [(3, f_id), (1, lip), (0, rip), (2, push_bit 16 (ucast rp) OR ucast lp)]"

definition flow_slot_alloc :: "u32 \<Rightarrow> u32 \<Rightarrow> u16 \<Rightarrow> u16 \<Rightarrow> u32 \<Rightarrow> nicif \<Rightarrow> int \<times> nicif" where
  "flow_slot_alloc lip rip lp rp f_id s =
     (if of_nat FLEXNIC_PL_FLOWST_NUM \<le> f_id then (- 1, s)
      else sptx_post FLEXTCP_PL_SPTX_FLOWHT_ADD (flow_slot_words lip rip lp rp f_id) s)"

definition flow_slot_clear :: "u32 \<Rightarrow> u32 \<Rightarrow> u16 \<Rightarrow> u32 \<Rightarrow> u16 \<Rightarrow> nicif \<Rightarrow> int \<times> nicif" where
  "flow_slot_clear f_id lip lp rip rp s =
     (if of_nat FLEXNIC_PL_FLOWST_NUM \<le> f_id then (- 1, s)
      else sptx_post FLEXTCP_PL_SPTX_FLOWHT_DEL (flow_slot_words lip rip lp rp f_id) s)"

subsection \<open>Connections\<close>

record conn_args =
  arg_db :: u32
  arg_mac_remote :: u64
  arg_ip_local :: u32
  arg_port_local :: u16
  arg_ip_remote :: u32
  arg_port_remote :: u16
  arg_rx_base :: u64
  arg_rx_len :: u32
  arg_tx_base :: u64
  arg_tx_len :: u32
  arg_remote_seq :: u32
  arg_local_seq :: u32
  arg_opaque :: u64
  arg_flags :: u32
  arg_rate :: u32
  arg_flow_group :: u16

definition NICIF_CONN_ECN :: u32 where "NICIF_CONN_ECN = 4"

definition htobe64 :: "u64 \<Rightarrow> u64" where
  "htobe64 x = foldr (OR) (map (\<lambda>i. push_bit (56 - 8 * i) (take_bit 8 (drop_bit (8 * i) x))) [0..<8]) 0"

text \<open>
  The writes to the four parts of a flow's state. The time stamp to echo is not written. The flags
  computed from \<open>NICIF_CONN_ECN\<close> are not used: the argument's flags are written.
\<close>

definition conn_tcp_state :: "conn_args \<Rightarrow> flowst_tcp_t \<Rightarrow> flowst_tcp_t" where
  "conn_tcp_state a fs = fs\<lparr>fs_tx_len := arg_tx_len a, fs_tx_avail := 0, fs_tx_remote_avail := arg_rx_len a, fs_tx_sent := 0,
     fs_tx_next_seq := arg_local_seq a, fs_tx_next_pos := 0, fs_dupack_cnt := 0, fs_flags := ucast (arg_flags a),
     fs_rx_len := arg_rx_len a, fs_rx_avail := arg_rx_len a, fs_rx_next_seq := arg_remote_seq a, fs_rx_next_pos := 0,
     fs_rx_ooo_len := 0, fs_rx_ooo_start := 0\<rparr>"

definition conn_conn_info :: "conn_args \<Rightarrow> flowst_conn_t" where
  "conn_conn_info a = \<lparr>conn_flow_grp = ucast (arg_flow_group a), conn_raw1 = ucast (drop_bit 32 (htobe64 (arg_mac_remote a))),
     conn_raw2 = bf_set 0 16 (arg_flags a) (ucast (htobe64 (arg_mac_remote a))),
     conn_local_ip = arg_ip_local a, conn_remote_ip = arg_ip_remote a,
     conn_ports = push_bit 16 (ucast (arg_port_local a)) OR ucast (arg_port_remote a)\<rparr>"

definition conn_mem_info :: "(u64 \<Rightarrow> u64) \<Rightarrow> conn_args \<Rightarrow> flowst_mem_t" where
  "conn_mem_info virt2phy a = \<lparr>mem_db_id = ucast (arg_db a), mem_opaque_hi = ucast (drop_bit 32 (arg_opaque a) AND 0xFFFF),
     mem_opaque_lo = ucast (arg_opaque a AND 0xFFFFFFFF), mem_rx_base = virt2phy (arg_rx_base a),
     mem_tx_base = virt2phy (arg_tx_base a), mem_rx_len = arg_rx_len a, mem_tx_len = arg_tx_len a\<rparr>"

definition conn_cc_info :: "u32 \<Rightarrow> flowst_cc_t" where
  "conn_cc_info rtt_init = \<lparr>cc_tx_avail = 0, cc_tx_rate = 0, cc_rtt_est = rtt_init, cc_txp = 0, cc_cnt_tx_drops = 0,
     cc_cnt_rx_acks = 0, cc_cnt_rx_ack_bytes = 0, cc_cnt_rx_ecn_bytes = 0\<rparr>"

definition write_flow :: "(u64 \<Rightarrow> u64) \<Rightarrow> u32 \<Rightarrow> conn_args \<Rightarrow> u32 \<Rightarrow> nicif \<Rightarrow> nicif" where
  "write_flow virt2phy rtt_init a f_id s =
     (let fp = fp_state s
      in s\<lparr>fp_state := fp\<lparr>
           fp_tcp_state := (fp_tcp_state fp)(f_id := conn_tcp_state a (fp_tcp_state fp f_id)),
           fp_conn_info := (fp_conn_info fp)(f_id := conn_conn_info a),
           fp_mem_info := (fp_mem_info fp)(f_id := conn_mem_info virt2phy a),
           fp_cc_info := (fp_cc_info fp)(f_id := conn_cc_info rtt_init)\<rparr>\<rparr>)"

text \<open>The flow id on success; \<open>None\<close> when the program dereferences the null pointer.\<close>

definition nicif_connection_add ::
  "(u64 \<Rightarrow> u64) \<Rightarrow> u32 \<Rightarrow> conn_args \<Rightarrow> nicif \<Rightarrow> (u32 option \<times> nicif) option" where
  "nicif_connection_add virt2phy rtt_init a s =
     (case flow_id_alloc (ucast (arg_flow_group a)) s of
        (Null_Dereference, _) \<Rightarrow> None
      | (No_Fid, s1) \<Rightarrow> Some (None, s1)
      | (Fid f_id, s1) \<Rightarrow>
          (case flow_slot_alloc (arg_ip_local a) (arg_ip_remote a) (arg_port_local a) (arg_port_remote a) f_id
                  (write_flow virt2phy rtt_init a f_id s1) of
             (r, s2) \<Rightarrow>
               if r \<noteq> 0 then Some (None, flow_id_free f_id (ucast (arg_flow_group a)) s2)
               else Some (Some f_id, s2)))"

text \<open>The sequence numbers that the caller passes are not written; both directions are reported closed.\<close>

definition nicif_connection_disable :: "u32 \<Rightarrow> nicif \<Rightarrow> (bool \<times> bool) option \<times> nicif" where
  "nicif_connection_disable f_id s =
     (case sptx_post FLEXTCP_PL_SPTX_CONN_CLOSE [(0, f_id)] s of
        (r, s1) \<Rightarrow> (if r \<noteq> 0 then None else Some (True, True), s1))"

definition nicif_connection_free :: "u32 \<Rightarrow> u32 \<Rightarrow> nicif \<Rightarrow> nicif" where
  "nicif_connection_free f_id flow_grp s = flow_id_free f_id flow_grp s"

definition nicif_connection_move :: "u32 \<Rightarrow> u32 \<Rightarrow> nicif \<Rightarrow> int \<times> nicif" where
  "nicif_connection_move dst_db f_id s =
     (if of_nat FLEXNIC_PL_FLOWST_NUM \<le> f_id then (- 1, s)
      else let fp = fp_state s
           in (0, s\<lparr>fp_state := fp\<lparr>fp_mem_info := (fp_mem_info fp)(f_id := (fp_mem_info fp f_id)\<lparr>mem_db_id := ucast dst_db\<rparr>)\<rparr>\<rparr>))"

record nicif_connection_stats_t =
  st_drops :: u16
  st_acks :: u16
  st_ackb :: u32
  st_ecnb :: u32
  st_txp :: u32
  st_rtt :: u32

definition nicif_connection_stats :: "u32 \<Rightarrow> nicif \<Rightarrow> nicif_connection_stats_t option" where
  "nicif_connection_stats f_id s =
     (if of_nat FLEXNIC_PL_FLOWST_NUM \<le> f_id then None
      else let fs = fp_cc_info (fp_state s) f_id
           in Some \<lparr>st_drops = ucast (cc_cnt_tx_drops fs), st_acks = ucast (cc_cnt_rx_acks fs), st_ackb = cc_cnt_rx_ack_bytes fs,
                    st_ecnb = cc_cnt_rx_ecn_bytes fs, st_txp = cc_txp fs, st_rtt = cc_rtt_est fs\<rparr>)"

definition rate_cycles :: "u32 \<Rightarrow> u64" where
  "rate_cycles rate =
     (if rate = 0 then 0
      else min ((8 * 8 * 1000000 * 1024) div (ucast rate * 10)) (512 * 512 * 1024))"

definition nicif_connection_setrate :: "u32 \<Rightarrow> u32 \<Rightarrow> nicif \<Rightarrow> int \<times> nicif" where
  "nicif_connection_setrate f_id rate s =
     (if of_nat FLEXNIC_PL_FLOWST_NUM \<le> f_id then (- 1, s)
      else let fp = fp_state s
           in (0, s\<lparr>fp_state := fp\<lparr>fp_cc_info :=
                 (fp_cc_info fp)(f_id := (fp_cc_info fp f_id)\<lparr>cc_tx_rate := ucast (rate_cycles rate)\<rparr>)\<rparr>\<rparr>))"

definition nicif_connection_retransmit :: "u32 \<Rightarrow> u16 \<Rightarrow> nicif \<Rightarrow> int \<times> nicif" where
  "nicif_connection_retransmit f_id flow_group s = sptx_post FLEXTCP_PL_SPTX_CONN_RETX [(0, f_id), (1, ucast flow_group)] s"

definition nicif_debug_reset :: "nicif \<Rightarrow> int \<times> nicif" where
  "nicif_debug_reset s = sptx_post FLEXTCP_PL_SPTX_DEBUG_RESET [] s"

text \<open>Packets: the buffer is that of the descriptor's index; the type is written when the packet is sent.\<close>

definition nicif_tx_alloc :: "u16 \<Rightarrow> nicif \<Rightarrow> (nat \<times> nat) option \<times> nicif" where
  "nicif_tx_alloc len s =
     (case sptx_try_alloc s of
        (None, s1) \<Rightarrow> (None, s1)
      | (Some (i, tail), s1) \<Rightarrow> (Some (i, tail), sptx_write i (\<lambda>d. d\<lparr>sptx_raw := (sptx_raw d)(0 := ucast len)\<rparr>) s1))"

definition nicif_tx_send :: "nat \<Rightarrow> bool \<Rightarrow> u32 \<Rightarrow> nicif \<Rightarrow> nicif" where
  "nicif_tx_send opaque no_ts ts_offset s =
     (let tail = (if opaque = 0 then txq_len s - 1 else opaque - 1)
      in doorbell opaque (sptx_write tail (\<lambda>d. d\<lparr>sptx_raw := (sptx_raw d)(1 := ts_offset),
           sptx_type := (if \<not> no_ts then FLEXTCP_PL_SPTX_PACKET else FLEXTCP_PL_SPTX_PACKET_NOTS)\<rparr>) s))"

subsection \<open>The queue from the card\<close>

text \<open>
  The descriptor at the head, if there is one, is handed to \<open>process_packet\<close> with the packet buffer of the same
  index, is then invalidated, and the head is reported to the card. Another type ends the program.
\<close>

datatype rxq_result = Rxq_Empty | Rxq_Packet nat u16 u16 | Rxq_Exit

definition rxq_poll :: "nicif \<Rightarrow> rxq_result \<times> nicif" where
  "rxq_poll s =
     (let head = rxq_head s; d = rxq_base s head; ty = (ucast (sprx_type d) :: u16)
      in if ty = ucast FLEXTCP_PL_SPRX_INVALID then (Rxq_Empty, s)
         else if ty \<noteq> ucast FLEXTCP_PL_SPRX_PACKET then (Rxq_Exit, s)
         else let updated_head = (if head + 1 = rxq_len s then 0 else head + 1)
              in (Rxq_Packet head (ucast (sprx_len d)) (ucast (sprx_flow_group d)),
                  s\<lparr>rxq_base := (rxq_base s)(head := d\<lparr>sprx_type := FLEXTCP_PL_SPRX_INVALID\<rparr>), rxq_head := updated_head,
                    fp_state := (fp_state s)\<lparr>spctx_rx_head := updated_head\<rparr>\<rparr>))"

text \<open>Where a received frame goes, by its Ethernet type, IP protocol and length.\<close>

datatype sp_dispatch = To_Arp | To_Tcp | Short_Packet | Not_Handled

definition process_packet :: "u16 \<Rightarrow> u8 \<Rightarrow> u16 \<Rightarrow> sp_dispatch" where
  "process_packet eth_type ip_proto len =
     (if eth_type = 0x0806 then if len < 42 then Short_Packet else To_Arp
      else if eth_type = 0x0800 then
        if len < 14 + 20 then Short_Packet
        else if ip_proto = 6 then if len < 14 + 20 + 20 then Short_Packet else To_Tcp
        else Not_Handled
      else Not_Handled)"

subsection \<open>No flow id is in use twice\<close>

lemma slot_add_fields [simp]:
  "flow_id_freelist (slot_add g i n s) = flow_id_freelist s" "txq_base (slot_add g i n s) = txq_base s"
  "txq_tail (slot_add g i n s) = txq_tail s" "txq_len (slot_add g i n s) = txq_len s"
  "fp_state (slot_add g i n s) = fp_state s" "rxq_base (slot_add g i n s) = rxq_base s"
  by (simp_all add: slot_add_def)

text \<open>What an allocation returns: an id of the list, which is taken out.\<close>

lemma flow_id_alloc_Fid:
  assumes "flow_id_alloc g s = (Fid f, s')"
  shows "\<exists>xs ys. flow_id_freelist s = xs @ f # ys \<and> flow_id_freelist s' = xs @ ys"
proof (cases "flow_id_freelist s")
  case Nil
  then show ?thesis using assms by (simp add: flow_id_alloc_def)
next
  case (Cons it rest)
  show ?thesis
  proof (cases "\<exists>i. free_slot g s = Some i \<and> slot_of it \<noteq> i")
    case False
    then have "f = it \<and> flow_id_freelist s' = rest"
      using assms Cons by (auto simp: flow_id_alloc_def split: option.splits if_splits)
    with Cons show ?thesis by (intro exI [of _ "[]"] exI [of _ rest]) simp
  next
    case True
    then obtain i where i: "free_slot g s = Some i" "slot_of it \<noteq> i" by blast
    with assms Cons obtain post where d: "dropWhile (\<lambda>x. slot_of x \<noteq> i) rest = f # post"
      and s': "flow_id_freelist s' = (it # takeWhile (\<lambda>x. slot_of x \<noteq> i) rest) @ post"
      by (auto simp: flow_id_alloc_def split: list.splits)
    have "rest = takeWhile (\<lambda>x. slot_of x \<noteq> i) rest @ f # post"
      using takeWhile_dropWhile_id [of "\<lambda>x. slot_of x \<noteq> i" rest] d by simp
    with Cons s' show ?thesis by (intro exI [of _ "it # takeWhile (\<lambda>x. slot_of x \<noteq> i) rest"] exI [of _ post]) simp
  qed
qed

lemma flow_id_alloc_other: "flow_id_alloc g s = (r, s') \<Longrightarrow> (\<nexists>f. r = Fid f) \<Longrightarrow> s' = s"
  by (auto simp: flow_id_alloc_def split: list.splits option.splits if_splits)

text \<open>Allocations, and frees of ids that are in use, with the group they were allocated for.\<close>

datatype fid_event = Alloc_Fid u32 | Free_Fid u32 u32

type_synonym fid_sys = "nicif \<times> (u32 \<times> u32) list"

fun fid_step :: "fid_event \<Rightarrow> fid_sys \<Rightarrow> fid_sys" where
  "fid_step (Alloc_Fid g) (s, used) =
     (case flow_id_alloc g s of (Fid f, s') \<Rightarrow> (s', (f, g) # used) | (_, s') \<Rightarrow> (s', used))"
| "fid_step (Free_Fid f g) (s, used) = (flow_id_free f g s, remove1 (f, g) used)"

fun fid_ok :: "fid_event \<Rightarrow> fid_sys \<Rightarrow> bool" where
  "fid_ok (Alloc_Fid g) (s, used) = True"
| "fid_ok (Free_Fid f g) (s, used) = ((f, g) \<in> set used)"

definition fid_inv :: "fid_sys \<Rightarrow> bool" where
  "fid_inv c \<longleftrightarrow> distinct (flow_id_freelist (fst c) @ map fst (snd c)) \<and>
     set (flow_id_freelist (fst c) @ map fst (snd c)) = of_nat ` {1..<FLEXNIC_PL_FLOWST_NUM}"

lemma fid_inv_mset:
  assumes "mset (flow_id_freelist (fst c) @ map fst (snd c)) = mset (flow_id_freelist (fst d) @ map fst (snd d))"
  shows "fid_inv c = fid_inv d"
  using mset_eq_imp_distinct_iff [OF assms] mset_eq_setD [OF assms] by (simp add: fid_inv_def)

interpretation flow_ids: invariant_system fid_step fid_ok fid_inv
proof
  fix c e
  assume inv: "fid_inv c" and ok: "fid_ok e c"
  obtain s used where c: "c = (s, used)" by fastforce
  show "fid_inv (fid_step e c)"
  proof (cases e)
    case (Alloc_Fid g)
    obtain r s' where r: "flow_id_alloc g s = (r, s')" by fastforce
    show ?thesis
    proof (cases r)
      case (Fid f)
      with flow_id_alloc_Fid r obtain xs ys where "flow_id_freelist s = xs @ f # ys" "flow_id_freelist s' = xs @ ys" by blast
      then have "fid_inv (s', (f, g) # used) = fid_inv (s, used)" by (intro fid_inv_mset) simp
      with inv Fid r c Alloc_Fid show ?thesis by simp
    next
      case No_Fid
      then show ?thesis using flow_id_alloc_other [OF r] inv r c Alloc_Fid by simp
    next
      case Null_Dereference
      then show ?thesis using flow_id_alloc_other [OF r] inv r c Alloc_Fid by simp
    qed
  next
    case (Free_Fid f g)
    with ok c have "(f, g) \<in> set used" by simp
    then have "image_mset fst (mset used) = add_mset f (image_mset fst (mset (remove1 (f, g) used)))"
      by (metis fst_conv image_mset_add_mset insert_DiffM mset_remove1 set_mset_mset)
    then have "fid_inv (flow_id_free f g s, remove1 (f, g) used) = fid_inv (s, used)"
      by (intro fid_inv_mset) (simp add: flow_id_free_def)
    with inv c Free_Fid show ?thesis by simp
  qed
qed

definition fid_start :: "nicif \<Rightarrow> fid_sys" where
  "fid_start s = (flow_id_alloc_init (s\<lparr>flow_slot_status := \<lambda>_ _. 0\<rparr>), [])"

lemma unat_fid: "n \<le> FLEXNIC_PL_FLOWST_NUM \<Longrightarrow> unat (of_nat n :: u32) = n"
  by (simp add: FLEXNIC_PL_FLOWST_NUM_def unat_of_nat)

lemma of_nat_u32_inj: "inj_on (of_nat :: nat \<Rightarrow> u32) {1..<FLEXNIC_PL_FLOWST_NUM}"
  by (rule inj_onI) (metis atLeastLessThan_iff less_imp_le unat_fid)

lemma fid_start_inv: "fid_inv (fid_start s)"
  using of_nat_u32_inj by (simp add: fid_inv_def fid_start_def flow_id_alloc_init_def distinct_map)

text \<open>
  C34. No flow id is given to two connections. After initialisation and any sequence of allocations and
  frees of ids in use, for any flow groups, the free ids and the ids in use are together exactly 1 to
  16383, each once.
\<close>

theorem flow_ids_unique:
  assumes "run_ok fid_step fid_ok es (fid_start s)"
  defines "c \<equiv> run fid_step es (fid_start s)"
  shows "distinct (flow_id_freelist (fst c) @ map fst (snd c)) \<and>
    set (flow_id_freelist (fst c) @ map fst (snd c)) = of_nat ` {1..<16384}"
  using flow_ids.run_invar [OF fid_start_inv assms(1)]
  by (simp add: c_def fid_inv_def FLEXNIC_PL_FLOWST_NUM_def)

subsection \<open>The null pointer at the end of the list\<close>

lemma find_upt: "i < n \<Longrightarrow> P i \<Longrightarrow> (\<And>j. j < i \<Longrightarrow> \<not> P j) \<Longrightarrow> List.find P [0..<n] = Some i"
  by (auto simp: find_Some_iff)

lemma free_slot_Some:
  "i < NUM_CLS_CACHE_SLOTS \<Longrightarrow> flow_slot_status s g i = 0 \<Longrightarrow> (\<And>j. j < i \<Longrightarrow> flow_slot_status s g j \<noteq> 0) \<Longrightarrow>
     free_slot g s = Some i"
  unfolding free_slot_def by (rule find_upt)

lemma free_slot_None: "(\<And>j. j < NUM_CLS_CACHE_SLOTS \<Longrightarrow> flow_slot_status s g j \<noteq> 0) \<Longrightarrow> free_slot g s = None"
  by (auto simp: free_slot_def find_None_iff)

lemma slot_of_nat: "n < FLEXNIC_PL_FLOWST_NUM \<Longrightarrow> slot_of (of_nat n) = n mod NUM_CLS_CACHE_SLOTS"
  by (simp add: slot_of_def unat_fid)

lemma upt_split: "1 < K \<Longrightarrow> K < N \<Longrightarrow> [1..<N] = 1 # [2..<K] @ K # [Suc K..<N]"
  using upt_add_eq_append [of 1 K "N - K"] by (simp add: upt_conv_Cons numeral_2_eq_2)

lemma flow_id_alloc_search:
  assumes "flow_id_freelist s = it # xs @ x # ys" and "free_slot g s = Some i" and "slot_of it \<noteq> i"
    and "\<forall>a\<in>set xs. slot_of a \<noteq> i" and "slot_of x = i"
  shows "flow_id_alloc g s = (Fid x, slot_add g i 1 (s\<lparr>flow_id_freelist := it # xs @ ys\<rparr>))"
proof -
  have "dropWhile (\<lambda>x. slot_of x \<noteq> i) (xs @ x # ys) = x # ys" "takeWhile (\<lambda>x. slot_of x \<noteq> i) (xs @ x # ys) = xs"
    using assms(4,5) by (simp_all add: dropWhile_append2 takeWhile_append2)
  then show ?thesis using assms(1-3) by (simp add: flow_id_alloc_def)
qed

text \<open>Allocations for group 0 only: the state after \<open>n\<close> of them.\<close>

definition group0_ids :: "nat \<Rightarrow> nat list" where
  "group0_ids n = (if n = 0 then [1..<FLEXNIC_PL_FLOWST_NUM]
     else if n \<le> NUM_CLS_CACHE_SLOTS then [n..<NUM_CLS_CACHE_SLOTS] @ [Suc NUM_CLS_CACHE_SLOTS..<FLEXNIC_PL_FLOWST_NUM]
     else [Suc n..<FLEXNIC_PL_FLOWST_NUM])"

definition group0_state :: "nat \<Rightarrow> nicif \<Rightarrow> bool" where
  "group0_state n s \<longleftrightarrow>
     (\<forall>g j. flow_slot_status s g j = (if g = 0 \<and> j < NUM_CLS_CACHE_SLOTS \<and> j < n then 1 else 0)) \<and>
     flow_id_freelist s = map of_nat (group0_ids n)"

lemma sizes: "NUM_CLS_CACHE_SLOTS < FLEXNIC_PL_FLOWST_NUM" "1 < NUM_CLS_CACHE_SLOTS"
  by (simp_all add: NUM_CLS_CACHE_SLOTS_def FLEXNIC_PL_FLOWST_NUM_def)

lemma group0_head:
  assumes "0 < n" and "Suc n < FLEXNIC_PL_FLOWST_NUM"
  shows "\<exists>k. group0_ids n = k # group0_ids (Suc n) \<and> (n < NUM_CLS_CACHE_SLOTS \<longrightarrow> k = n)"
  using assms sizes by (cases "n = NUM_CLS_CACHE_SLOTS") (auto simp: group0_ids_def upt_conv_Cons)

lemma group0_alloc:
  assumes "group0_state n s" and "Suc n < FLEXNIC_PL_FLOWST_NUM"
  shows "\<exists>f s'. flow_id_alloc 0 s = (Fid f, s') \<and> group0_state (Suc n) s'"
proof -
  have st: "flow_slot_status s g j = (if g = 0 \<and> j < NUM_CLS_CACHE_SLOTS \<and> j < n then 1 else 0)" for g j
    using assms(1) by (simp add: group0_state_def)
  have l: "flow_id_freelist s = map of_nat (group0_ids n)" using assms(1) by (simp add: group0_state_def)
  consider "n = 0" | "0 < n" "n < NUM_CLS_CACHE_SLOTS" | "0 < n" "NUM_CLS_CACHE_SLOTS \<le> n" by linarith
  then show ?thesis
  proof cases
    case 1
    let ?K = NUM_CLS_CACHE_SLOTS
    have "free_slot 0 s = Some 0" using st 1 sizes by (intro free_slot_Some) auto
    moreover have "flow_id_freelist s = of_nat 1 # map of_nat [2..<?K] @ of_nat ?K # map of_nat [Suc ?K..<FLEXNIC_PL_FLOWST_NUM]"
      using l 1 upt_split [OF sizes(2,1)] by (simp add: group0_ids_def)
    moreover have "slot_of (of_nat i) = i" if "i < ?K" for i using that sizes by (simp add: slot_of_nat)
    moreover have "slot_of (of_nat ?K) = 0" using sizes by (simp add: slot_of_nat)
    moreover have "slot_of (of_nat 1) \<noteq> 0" using calculation(3) [of 1] sizes by simp
    moreover have "\<forall>a\<in>set (map of_nat [2..<?K]). slot_of a \<noteq> 0" using calculation(3) by auto
    ultimately have "flow_id_alloc 0 s = (Fid (of_nat ?K), slot_add 0 0 1
        (s\<lparr>flow_id_freelist := of_nat 1 # map of_nat [2..<?K] @ map of_nat [Suc ?K..<FLEXNIC_PL_FLOWST_NUM]\<rparr>))"
      by (intro flow_id_alloc_search)
    then show ?thesis using st 1 sizes by (auto simp: group0_state_def slot_add_def group0_ids_def upt_conv_Cons numeral_2_eq_2)
  next
    case 2
    then have "free_slot 0 s = Some n" using st by (intro free_slot_Some) auto
    moreover from group0_head [OF 2(1) assms(2)] 2 have "group0_ids n = n # group0_ids (Suc n)" by auto
    moreover have "slot_of (of_nat n) = n" using 2 sizes by (simp add: slot_of_nat)
    ultimately have "flow_id_alloc 0 s = (Fid (of_nat n), slot_add 0 n 1 (s\<lparr>flow_id_freelist := map of_nat (group0_ids (Suc n))\<rparr>))"
      using l by (simp add: flow_id_alloc_def)
    then show ?thesis using st 2 by (auto simp: group0_state_def slot_add_def)
  next
    case 3
    then have "free_slot 0 s = None" using st by (intro free_slot_None) auto
    moreover from group0_head [OF 3(1) assms(2)] obtain k where "group0_ids n = k # group0_ids (Suc n)" by blast
    ultimately have "flow_id_alloc 0 s = (Fid (of_nat k), s\<lparr>flow_id_freelist := map of_nat (group0_ids (Suc n))\<rparr>)"
      using l by (simp add: flow_id_alloc_def)
    then show ?thesis using st 3 by (auto simp: group0_state_def)
  qed
qed

lemma group0_run:
  assumes "n < FLEXNIC_PL_FLOWST_NUM"
  shows "group0_state n (fst (run fid_step (replicate n (Alloc_Fid 0)) (fid_start s)))"
  using assms
proof (induction n)
  case 0
  then show ?case by (simp add: group0_state_def group0_ids_def fid_start_def flow_id_alloc_init_def)
next
  case (Suc n)
  obtain t used where t: "run fid_step (replicate n (Alloc_Fid 0)) (fid_start s) = (t, used)" by fastforce
  with Suc group0_alloc [of n t] obtain f t' where "flow_id_alloc 0 t = (Fid f, t')" "group0_state (Suc n) t'" by auto
  moreover have "run fid_step (replicate (Suc n) (Alloc_Fid 0)) (fid_start s) = fid_step (Alloc_Fid 0) (t, used)"
  proof -
    have "replicate (Suc n) (Alloc_Fid 0) = replicate n (Alloc_Fid 0) @ [Alloc_Fid 0]" by (simp add: replicate_append_same)
    then show ?thesis using t by (simp only: run_append run.simps)
  qed
  ultimately show ?case by simp
qed

text \<open>
  C39. An allocation can dereference a null pointer although ids are free: the search for an id of the
  first unused slot of the group does not check that it found one. From the start, after 15872 to 16381
  connections of flow group 0, which use up all ids of slot 0, the first connection of any other group
  crashes the slow path.
\<close>

theorem flow_id_alloc_null_dereference:
  fixes s
  assumes "15872 \<le> n" and "n < 16382" and "g \<noteq> 0"
  defines "c \<equiv> run fid_step (replicate n (Alloc_Fid 0)) (fid_start s)"
  shows "flow_id_freelist (fst c) \<noteq> [] \<and> fst (flow_id_alloc g (fst c)) = Null_Dereference"
proof -
  have n: "Suc n < FLEXNIC_PL_FLOWST_NUM" "NUM_CLS_CACHE_SLOTS < n" using assms(1,2)
    by (simp_all add: FLEXNIC_PL_FLOWST_NUM_def NUM_CLS_CACHE_SLOTS_def)
  then have st: "group0_state n (fst c)" using group0_run [of n s] by (simp add: c_def)
  have l: "flow_id_freelist (fst c) = map of_nat [Suc n..<FLEXNIC_PL_FLOWST_NUM]"
    using st n by (simp add: group0_state_def group0_ids_def)
  have free: "free_slot g (fst c) = Some 0" using st assms(3) sizes by (intro free_slot_Some) (auto simp: group0_state_def)
  have "slot_of x \<noteq> 0" if "x \<in> set (flow_id_freelist (fst c))" for x
  proof -
    from that obtain i where i: "x = of_nat i" "15872 < i" "i < 16384" using l assms(1) by (auto simp: FLEXNIC_PL_FLOWST_NUM_def)
    then have "slot_of x = i mod 512" by (simp add: slot_of_nat FLEXNIC_PL_FLOWST_NUM_def NUM_CLS_CACHE_SLOTS_def)
    with i(2,3) show ?thesis by presburger
  qed
  note slots = this
  have "flow_id_freelist (fst c) \<noteq> []" using l n by simp
  then obtain it rest where it: "flow_id_freelist (fst c) = it # rest" by (cases "flow_id_freelist (fst c)") auto
  then have "slot_of it \<noteq> 0" "dropWhile (\<lambda>x. 0 < slot_of x) rest = []" using slots by (auto simp: dropWhile_eq_Nil_conv)
  moreover have "(\<lambda>x. slot_of x \<noteq> 0) = (\<lambda>x. 0 < slot_of x)" by auto
  ultimately show ?thesis using free it by (simp add: flow_id_alloc_def del: dropWhile_eq_Nil_conv)
qed

definition idle_nicif :: nicif where
  "idle_nicif = \<lparr>flow_id_freelist = [], flow_slot_status = \<lambda>_ _. 0, txq_base = \<lambda>_. \<lparr>sptx_type = 0, sptx_raw = \<lambda>_. 0\<rparr>,
     txq_tail = 0, txq_len = 256, rxq_base = \<lambda>_. \<lparr>sprx_type = 0, sprx_len = 0, sprx_flow_group = 0\<rparr>, rxq_head = 0, rxq_len = 256,
     fp_state = \<lparr>fp_tcp_state = \<lambda>_. sample_fs, fp_conn_info = \<lambda>_. sample_conn, fp_mem_info = \<lambda>_. sample_mem,
       fp_cc_info = \<lambda>_. conn_cc_info 0, spctx_rx_head = 0, spctx_tx_tail = 0\<rparr>\<rparr>"

theorem flow_id_alloc_null_dereference_witness:
  "fst (flow_id_alloc 1 (fst (run fid_step (replicate 15872 (Alloc_Fid 0)) (fid_start idle_nicif)))) = Null_Dereference"
  using flow_id_alloc_null_dereference [of 15872 1 idle_nicif] by simp

theorem flow_ids_unique_witness:
  "distinct (flow_id_freelist (fst (run fid_step [Alloc_Fid 0, Alloc_Fid 1] (fid_start idle_nicif))) @
     map fst (snd (run fid_step [Alloc_Fid 0, Alloc_Fid 1] (fid_start idle_nicif))))"
proof -
  have "fid_ok (Alloc_Fid g) c" for g c by (cases c) simp
  then have "run_ok fid_step fid_ok [Alloc_Fid 0, Alloc_Fid 1] (fid_start idle_nicif)" by simp
  from flow_ids_unique [OF this] show ?thesis by simp
qed

subsection \<open>Registering a connection\<close>

definition next_tail :: "nicif \<Rightarrow> nat" where
  "next_tail s = (if txq_len s \<le> txq_tail s + 1 then 0 else txq_tail s + 1)"

lemma sptx_all_fields: "d\<lparr>sptx_raw := r, sptx_type := t\<rparr> = \<lparr>sptx_type = t, sptx_raw = r\<rparr>" for d :: flextcp_pl_sptx_t
  by (rule flextcp_pl_sptx_t.equality) simp_all

lemma ucast_16_halves:
  "drop_bit 16 (ucast p :: u32) = 0" "take_bit 16 (ucast p :: u32) = ucast p" for p :: u16
  by (rule bit_word_eqI; auto simp: bit_simps dest: bit_imp_le_length)+

lemma sptx_post_cases:
  "sptx_post ty ws s =
     (if sptx_type (txq_base s (txq_tail s)) \<noteq> FLEXTCP_PL_SPTX_INVALID then (- 1, s)
      else (0, s\<lparr>txq_base := (txq_base s)(txq_tail s := \<lparr>sptx_type = ty,
              sptx_raw = fold (\<lambda>(j, v) m. m(j := v)) ws (sptx_raw (txq_base s (txq_tail s)))\<rparr>),
            txq_tail := next_tail s, fp_state := (fp_state s)\<lparr>spctx_tx_tail := next_tail s\<rparr>\<rparr>))"
  by (simp add: sptx_post_def sptx_try_alloc_def Let_def doorbell_def sptx_write_def next_tail_def sptx_all_fields)

lemma flow_id_alloc_fp: "flow_id_alloc g s = (r, s') \<Longrightarrow> fp_state s' = fp_state s \<and> txq_base s' = txq_base s \<and>
    txq_tail s' = txq_tail s \<and> txq_len s' = txq_len s"
  by (auto simp: flow_id_alloc_def slot_add_def split: list.splits option.splits if_splits)

text \<open>The cell of the queue that asks the card to add a flow to its table.\<close>

definition flowht_request :: "flow_key_t \<Rightarrow> u32 \<Rightarrow> flextcp_pl_sptx_t \<Rightarrow> bool" where
  "flowht_request k f d \<longleftrightarrow> sptx_type d = FLEXTCP_PL_SPTX_FLOWHT_ADD \<and> sptx_raw d 0 = key_raw0 k \<and>
     sptx_raw d 1 = key_raw1 k \<and> sptx_raw d 2 = key_raw2 k \<and> sptx_raw d 3 = f"

text \<open>
  C35. Registering a connection sets all its parts up consistently. On success the flow id was free; its
  receive state is that of an empty buffer of the length given to postprocessing, at position 0 and the
  peer's next sequence number; its segment headers carry the addresses for the peer; the request to the
  card is under the very key that the peer's packets are looked up with; and no other flow is touched.
\<close>

theorem connection_add_sets_up:
  assumes "nicif_connection_add virt2phy rtt_init a s = Some (Some f, s')"
    and "from_peer mac_hi mac_lo (fp_conn_info (fp_state s') f) hdr"
  shows "f \<in> set (flow_id_freelist s) \<and>
    (let fs = fp_tcp_state (fp_state s') f; m = fp_mem_info (fp_state s') f
     in fs_rx_avail fs = mem_rx_len m \<and> fs_rx_next_pos fs = 0 \<and> fs_rx_ooo_len fs = 0 \<and> fs_rx_next_seq fs = arg_remote_seq a \<and>
        fs_tx_len fs = mem_tx_len m \<and> fs_tx_sent fs = 0 \<and> fs_tx_avail fs = 0 \<and> fs_tx_next_pos fs = 0 \<and>
        fs_tx_next_seq fs = arg_local_seq a) \<and>
    flowht_request (hdr_key hdr) f (txq_base s' (txq_tail s)) \<and> spctx_tx_tail (fp_state s') = txq_tail s' \<and>
    (\<forall>g. g \<noteq> f \<longrightarrow> fp_tcp_state (fp_state s') g = fp_tcp_state (fp_state s) g \<and> fp_conn_info (fp_state s') g = fp_conn_info (fp_state s) g \<and>
       fp_mem_info (fp_state s') g = fp_mem_info (fp_state s) g \<and> fp_cc_info (fp_state s') g = fp_cc_info (fp_state s) g)"
proof -
  obtain s1 where al: "flow_id_alloc (ucast (arg_flow_group a)) s = (Fid f, s1)"
    and post: "flow_slot_alloc (arg_ip_local a) (arg_ip_remote a) (arg_port_local a) (arg_port_remote a) f
      (write_flow virt2phy rtt_init a f s1) = (0, s')"
    using assms(1) by (auto simp: nicif_connection_add_def split: prod.splits fid_result.splits if_splits)
  note fr = flow_id_alloc_fp [OF al]
  have f: "f \<in> set (flow_id_freelist s)" using flow_id_alloc_Fid [OF al] by auto
  define w where "w = write_flow virt2phy rtt_init a f s1"
  have w: "txq_base w = txq_base s" "txq_tail w = txq_tail s" using fr by (simp_all add: w_def write_flow_def Let_def)
  have s': "s' = w\<lparr>txq_base := (txq_base w)(txq_tail w := \<lparr>sptx_type = FLEXTCP_PL_SPTX_FLOWHT_ADD,
        sptx_raw = (sptx_raw (txq_base w (txq_tail w)))(3 := f, 1 := arg_ip_local a, 0 := arg_ip_remote a,
          2 := push_bit 16 (ucast (arg_port_remote a)) OR ucast (arg_port_local a))\<rparr>),
      txq_tail := next_tail w, fp_state := (fp_state w)\<lparr>spctx_tx_tail := next_tail w\<rparr>\<rparr>"
    using post by (auto simp: flow_slot_alloc_def sptx_post_cases flow_slot_words_def w_def [symmetric] split: if_splits)
  have fp: "fp_tcp_state (fp_state w) = (fp_tcp_state (fp_state s))(f := conn_tcp_state a (fp_tcp_state (fp_state s) f))"
    "fp_conn_info (fp_state w) = (fp_conn_info (fp_state s))(f := conn_conn_info a)"
    "fp_mem_info (fp_state w) = (fp_mem_info (fp_state s))(f := conn_mem_info virt2phy a)"
    "fp_cc_info (fp_state w) = (fp_cc_info (fp_state s))(f := conn_cc_info rtt_init)"
    using fr by (simp_all add: w_def write_flow_def Let_def)
  have "from_peer mac_hi mac_lo (conn_conn_info a) hdr" using assms(2) by (simp add: s' fp)
  then have "flowht_request (hdr_key hdr) f (txq_base s' (txq_tail s))"
    by (simp add: flowht_request_def hdr_key_def from_peer_def conn_conn_info_def s' w halves word_or_distribs
        ucast_16_halves)
  with f show ?thesis by (simp add: s' fp Let_def conn_tcp_state_def conn_mem_info_def)
qed

definition sample_args :: conn_args where
  "sample_args = \<lparr>arg_db = 1, arg_mac_remote = 0xC62C124D1500, arg_ip_local = 0x0A000002, arg_port_local = 80, arg_ip_remote = 0x0A000001,
     arg_port_remote = 50000, arg_rx_base = 0, arg_rx_len = 8192, arg_tx_base = 8192, arg_tx_len = 8192, arg_remote_seq = 5000,
     arg_local_seq = 2, arg_opaque = 7, arg_flags = NICIF_CONN_ECN, arg_rate = 10000, arg_flow_group = 3\<rparr>"

definition ready_nicif :: nicif where "ready_nicif = idle_nicif\<lparr>flow_id_freelist := [512, 1]\<rparr>"

definition peer_hdr :: pkt_hdr where
  "peer_hdr = (\<lambda>i. [0x0015, 0x4D1344FF, 0x00154D12, 0x2CC60800, 0x45000074, 0x00034000, 0xff060000, 0x0A000001, 0x0A000002, 0xC3500050] ! i)"

lemma ready_alloc: "flow_id_alloc 3 ready_nicif = (Fid 512, slot_add 3 0 1 (ready_nicif\<lparr>flow_id_freelist := [1]\<rparr>))"
proof -
  have "free_slot 3 ready_nicif = Some 0"
    by (intro free_slot_Some) (simp_all add: ready_nicif_def idle_nicif_def NUM_CLS_CACHE_SLOTS_def)
  moreover have "slot_of 512 = 0" by (simp add: slot_of_def NUM_CLS_CACHE_SLOTS_def)
  moreover have "flow_id_freelist ready_nicif = [512, 1]" by (simp add: ready_nicif_def)
  ultimately show ?thesis by (simp add: flow_id_alloc_def)
qed

lemma ready_add: "\<exists>s'. nicif_connection_add id 50 sample_args ready_nicif = Some (Some 512, s') \<and>
    conn_raw1 (fp_conn_info (fp_state s') 512) = 0x00154D12 \<and> conn_raw2 (fp_conn_info (fp_state s') 512) = 0x2CC60004 \<and>
    conn_local_ip (fp_conn_info (fp_state s') 512) = 0x0A000002 \<and> conn_remote_ip (fp_conn_info (fp_state s') 512) = 0x0A000001 \<and>
    conn_ports (fp_conn_info (fp_state s') 512) = 0x0050C350"
  using ready_alloc by (simp add: nicif_connection_add_def sample_args_def flow_slot_alloc_def sptx_post_cases FLEXNIC_PL_FLOWST_NUM_def
        write_flow_def Let_def ready_nicif_def idle_nicif_def slot_add_def FLEXTCP_PL_SPTX_INVALID_def conn_conn_info_def
        htobe64_def upt_conv_Cons bf_set_def NICIF_CONN_ECN_def mask_eq_exp_minus_1)

theorem connection_add_sets_up_witness:
  "\<exists>s'. nicif_connection_add id 50 sample_args ready_nicif = Some (Some 512, s') \<and>
    fs_rx_avail (fp_tcp_state (fp_state s') 512) = mem_rx_len (fp_mem_info (fp_state s') 512) \<and>
    flowht_request (hdr_key peer_hdr) 512 (txq_base s' (txq_tail ready_nicif))"
proof -
  from ready_add obtain s' where add: "nicif_connection_add id 50 sample_args ready_nicif = Some (Some 512, s')"
    and "conn_raw1 (fp_conn_info (fp_state s') 512) = 0x00154D12" "conn_raw2 (fp_conn_info (fp_state s') 512) = 0x2CC60004"
    "conn_local_ip (fp_conn_info (fp_state s') 512) = 0x0A000002" "conn_remote_ip (fp_conn_info (fp_state s') 512) = 0x0A000001"
    "conn_ports (fp_conn_info (fp_state s') 512) = 0x0050C350" by blast
  then have "from_peer 0x00154D13 0x44FF (fp_conn_info (fp_state s') 512) peer_hdr"
    by (simp add: from_peer_def peer_hdr_def)
  from connection_add_sets_up [OF add this] add show ?thesis by (simp add: Let_def)
qed

text \<open>
  C40. ECN is never switched on for a flow. The slow path records that the peer accepted ECN as
  \<open>NICIF_CONN_ECN\<close>, and registering the connection writes this value, 4, to the flow instead of the
  card's flag, 1: the flow is marked as one to be redirected to the slow path, and the segments of
  the connection are sent as not ECN capable.
\<close>

theorem ecn_never_enabled:
  assumes "nicif_connection_add virt2phy rtt_init a s = Some (Some f, s')" and "arg_flags a = NICIF_CONN_ECN"
  shows "prepare_seg_header_pre mac_hi mac_lo (fp_conn_info (fp_state s') f) ! 4 = IP_RAW_WORD0 0 52 \<and>
    fs_flags (fp_tcp_state (fp_state s') f) = FLEXNIC_PL_FLOWST_SLOWPATH"
proof -
  obtain s1 where al: "flow_id_alloc (ucast (arg_flow_group a)) s = (Fid f, s1)"
    and post: "flow_slot_alloc (arg_ip_local a) (arg_ip_remote a) (arg_port_local a) (arg_port_remote a) f
      (write_flow virt2phy rtt_init a f s1) = (0, s')"
    using assms(1) by (auto simp: nicif_connection_add_def split: prod.splits fid_result.splits if_splits)
  have fp: "fp_conn_info (fp_state s') f = conn_conn_info a"
    "fp_tcp_state (fp_state s') f = conn_tcp_state a (fp_tcp_state (fp_state s1) f)"
    using post by (auto simp: flow_slot_alloc_def sptx_post_cases write_flow_def Let_def split: if_splits)
  have "conn_raw2 (conn_conn_info a) AND 1 = 0"
  proof -
    have "\<not> bit (conn_raw2 (conn_conn_info a)) 0"
      using assms(2) by (simp add: conn_conn_info_def bit_bf_set NICIF_CONN_ECN_def)
    then show ?thesis by (simp add: and_one_eq mod_2_eq_odd bit_0)
  qed
  then show ?thesis using assms(2)
    by (simp add: fp prepare_seg_header_pre_def conn_tcp_state_def NICIF_CONN_ECN_def FLEXNIC_PL_FLOWST_SLOWPATH_def
        NET_IP4_LEN_def NET_TCPPADTS_LEN_def)
qed

theorem ecn_never_enabled_witness:
  "\<exists>s'. nicif_connection_add id 50 sample_args ready_nicif = Some (Some 512, s') \<and>
    fs_flags (fp_tcp_state (fp_state s') 512) = FLEXNIC_PL_FLOWST_SLOWPATH"
proof -
  from ready_add obtain s' where add: "nicif_connection_add id 50 sample_args ready_nicif = Some (Some 512, s')" by blast
  have "arg_flags sample_args = NICIF_CONN_ECN" by (simp add: sample_args_def)
  from ecn_never_enabled [OF add this] add show ?thesis by blast
qed

end
