(* ===== verification/Slowpath_If.thy ===== *)
theory Slowpath_If
  imports Nicif
begin

unbundle bit_operations_syntax

text \<open>
  The card's side of the queues with the slow path, \<open>firmware/slowpath_if.c\<close>, and both sides together.
  Context 0 hands packets to the host, context 1 takes descriptors from the host and acts on them. The
  contexts give way to each other and to the host while they wait for memory and DMA; where a context
  is between two such points is part of the state. The card keeps copies of the head and tail that the
  other side writes and reads them again when a queue looks full or empty.

  A packet buffer of the queue to the card is a value; of the queue from the card it is a function from
  the byte's offset, so that what a transfer leaves out can be seen.
\<close>

subsection \<open>Data\<close>

datatype 'p sp_out =
    Sp_Packet 'p u32 "u32 option"
  | Sp_Retx flow_ring u32

text \<open>Where context 1 is: at the head of its loop, or waiting with a descriptor's index.\<close>

datatype tx_pc = T_Top | T_Read nat | T_Null nat flextcp_pl_sptx_t | T_Process nat flextcp_pl_sptx_t

record 'p sp_nic =
  spctx_tx_head :: nat
  spctx_tx_tail_c :: nat
  spctx_tx_len :: nat
  tx_at :: tx_pc
  sp_flowht :: flowht
  sp_outs :: "'p sp_out list"

text \<open>The host's side: its state and its packet buffers.\<close>

type_synonym 'p sp_host = "nicif \<times> (nat \<Rightarrow> 'p)"

subsection \<open>Descriptors from the host\<close>

definition retx_ring :: "u32 \<Rightarrow> flow_ring" where
  "retx_ring flow_grp =
     (if flow_grp = 0 then Flow_Ring_0 else if flow_grp = 1 then Flow_Ring_1 else if flow_grp = 2 then Flow_Ring_2 else Flow_Ring_3)"

definition sptx_key :: "flextcp_pl_sptx_t \<Rightarrow> flow_key_t" where
  "sptx_key d = \<lparr>key_raw0 = sptx_raw d 0, key_raw1 = sptx_raw d 1, key_raw2 = sptx_raw d 2\<rparr>"

definition process_sptx_packet :: "'p \<Rightarrow> flextcp_pl_sptx_t \<Rightarrow> bool \<Rightarrow> 'p sp_nic \<Rightarrow> 'p sp_nic" where
  "process_sptx_packet buf d ts n =
     n\<lparr>sp_outs := sp_outs n @ [Sp_Packet buf (sptx_raw d 0) (if ts then Some (sptx_raw d 1) else None)]\<rparr>"

definition process_sptx_descriptor ::
  "(flow_key_t \<Rightarrow> u32) \<Rightarrow> (flow_key_t \<Rightarrow> u32) \<Rightarrow> cam \<Rightarrow> 'p \<Rightarrow> flextcp_pl_sptx_t \<Rightarrow> 'p sp_nic \<Rightarrow> 'p sp_nic" where
  "process_sptx_descriptor crc crcc cam buf d n =
     (let ty = sptx_type d
      in if ty = FLEXTCP_PL_SPTX_PACKET then process_sptx_packet buf d True n
         else if ty = FLEXTCP_PL_SPTX_PACKET_NOTS then process_sptx_packet buf d False n
         else if ty = FLEXTCP_PL_SPTX_CONN_RETX then n\<lparr>sp_outs := sp_outs n @ [Sp_Retx (retx_ring (sptx_raw d 1)) (sptx_raw d 0)]\<rparr>
         else if ty = FLEXTCP_PL_SPTX_FLOWHT_ADD
         then n\<lparr>sp_flowht := snd (flow_insert crc crcc cam \<lparr>ht_key = sptx_key d, ht_flow_id = sptx_raw d 3\<rparr> (sp_flowht n))\<rparr>
         else if ty = FLEXTCP_PL_SPTX_FLOWHT_DEL then n\<lparr>sp_flowht := snd (flow_delete crc crcc cam (sptx_key d) (sp_flowht n))\<rparr>
         else n)"

definition null_sptx :: flextcp_pl_sptx_t where "null_sptx = \<lparr>sptx_type = FLEXTCP_PL_SPTX_INVALID, sptx_raw = \<lambda>_. 0\<rparr>"

text \<open>
  One step of context 1. The descriptor in host memory is overwritten with the null descriptor before
  the packet is fetched from its buffer.
\<close>

definition poll_tx_slowpath ::
  "(flow_key_t \<Rightarrow> u32) \<Rightarrow> (flow_key_t \<Rightarrow> u32) \<Rightarrow> cam \<Rightarrow> 'p sp_host \<Rightarrow> 'p sp_nic \<Rightarrow> 'p sp_host \<times> 'p sp_nic" where
  "poll_tx_slowpath crc crcc cam h n =
     (let (s, bufs) = h
      in case tx_at n of
           T_Top \<Rightarrow>
             let head = spctx_tx_head n
             in if head = spctx_tx_tail_c n then (h, n\<lparr>spctx_tx_tail_c := spctx_tx_tail (fp_state s)\<rparr>)
                else (h, n\<lparr>spctx_tx_head := (if spctx_tx_len n \<le> head + 1 then 0 else head + 1), tx_at := T_Read head\<rparr>)
         | T_Read i \<Rightarrow> (h, n\<lparr>tx_at := T_Null i (txq_base s i)\<rparr>)
         | T_Null i d \<Rightarrow> ((s\<lparr>txq_base := (txq_base s)(i := null_sptx)\<rparr>, bufs), n\<lparr>tx_at := T_Process i d\<rparr>)
         | T_Process i d \<Rightarrow> (h, (process_sptx_descriptor crc crcc cam (bufs i) d n)\<lparr>tx_at := T_Top\<rparr>))"

subsection \<open>The host's operations\<close>

text \<open>
  What the slow path calls. A packet is written to the buffer that was allocated for it and then sent;
  a connection may fail to be added, which with the null pointer ends the program: the state then stays.
\<close>

datatype 'p host_op =
    Conn_Add "u64 \<Rightarrow> u64" u32 conn_args
  | Conn_Disable u32
  | Conn_Free u32 u32
  | Conn_Move u32 u32
  | Conn_Setrate u32 u32
  | Conn_Retransmit u32 u16
  | Debug_Reset
  | Send_Packet u16 'p bool u32

fun host_step :: "'p host_op \<Rightarrow> 'p sp_host \<Rightarrow> 'p sp_host" where
  "host_step (Conn_Add v2p rtt a) (s, bufs) =
     (case nicif_connection_add v2p rtt a s of None \<Rightarrow> (s, bufs) | Some (_, s') \<Rightarrow> (s', bufs))"
| "host_step (Conn_Disable f) (s, bufs) = (snd (nicif_connection_disable f s), bufs)"
| "host_step (Conn_Free f g) (s, bufs) = (nicif_connection_free f g s, bufs)"
| "host_step (Conn_Move db f) (s, bufs) = (snd (nicif_connection_move db f s), bufs)"
| "host_step (Conn_Setrate f r) (s, bufs) = (snd (nicif_connection_setrate f r s), bufs)"
| "host_step (Conn_Retransmit f g) (s, bufs) = (snd (nicif_connection_retransmit f g s), bufs)"
| "host_step Debug_Reset (s, bufs) = (snd (nicif_debug_reset s), bufs)"
| "host_step (Send_Packet len p no_ts off) (s, bufs) =
     (case nicif_tx_alloc len s of
        (None, s') \<Rightarrow> (s', bufs)
      | (Some (i, tail), s') \<Rightarrow> (nicif_tx_send tail no_ts off s', bufs(i := p)))"

text \<open>
  What an operation does to the queue: nothing, or it writes a descriptor at the tail, where there was
  none, moves the tail and rings the doorbell.
\<close>

definition queue_same :: "nicif \<Rightarrow> nicif \<Rightarrow> bool" where
  "queue_same s s' \<longleftrightarrow> txq_base s' = txq_base s \<and> txq_tail s' = txq_tail s \<and> txq_len s' = txq_len s \<and>
     spctx_tx_tail (fp_state s') = spctx_tx_tail (fp_state s)"

definition queue_post :: "flextcp_pl_sptx_t \<Rightarrow> nicif \<Rightarrow> nicif \<Rightarrow> bool" where
  "queue_post d s s' \<longleftrightarrow> sptx_type (txq_base s (txq_tail s)) = FLEXTCP_PL_SPTX_INVALID \<and> txq_base s' = (txq_base s)(txq_tail s := d) \<and>
     txq_tail s' = next_tail s \<and> txq_len s' = txq_len s \<and> spctx_tx_tail (fp_state s') = next_tail s"

text \<open>The types an operation posts; deleting a connection from the card's table is not among them.\<close>

definition posted_types :: "u32 set" where
  "posted_types = {FLEXTCP_PL_SPTX_PACKET, FLEXTCP_PL_SPTX_PACKET_NOTS, FLEXTCP_PL_SPTX_CONN_RETX, FLEXTCP_PL_SPTX_FLOWHT_ADD,
     FLEXTCP_PL_SPTX_CONN_CLOSE, FLEXTCP_PL_SPTX_DEBUG_RESET}"

lemma queue_same_refl [simp]: "queue_same s s" by (simp add: queue_same_def)

lemma queue_same_trans: "queue_same s t \<Longrightarrow> queue_same t u \<Longrightarrow> queue_same s u" by (simp add: queue_same_def)

lemma queue_same_post: "queue_same s t \<Longrightarrow> queue_post d t u \<Longrightarrow> queue_post d s u"
  by (simp add: queue_same_def queue_post_def next_tail_def)

lemma sptx_post_queue:
  assumes "sptx_post ty ws s = (r, s')"
  shows "queue_same s s' \<or> (\<exists>d. queue_post d s s' \<and> sptx_type d = ty)"
  using assms by (auto simp: sptx_post_cases queue_same_def queue_post_def split: if_splits)

lemma nicif_add_queue:
  assumes "nicif_connection_add v2p rtt a s = Some (r, s')"
  shows "queue_same s s' \<or> (\<exists>d. queue_post d s s' \<and> sptx_type d = FLEXTCP_PL_SPTX_FLOWHT_ADD)"
proof -
  obtain r1 s1 where al: "flow_id_alloc (ucast (arg_flow_group a)) s = (r1, s1)" by fastforce
  note fr = flow_id_alloc_fp [OF al]
  show ?thesis
  proof (cases r1)
    case (Fid f)
    define w where "w = write_flow v2p rtt a f s1"
    have w: "queue_same s w" using fr by (simp add: w_def write_flow_def queue_same_def Let_def)
    obtain r2 s2 where post: "flow_slot_alloc (arg_ip_local a) (arg_ip_remote a) (arg_port_local a) (arg_port_remote a) f w = (r2, s2)"
      by fastforce
    have "queue_same w s2 \<or> r2 = 0 \<and> (\<exists>d. queue_post d w s2 \<and> sptx_type d = FLEXTCP_PL_SPTX_FLOWHT_ADD)"
      using post by (auto simp: flow_slot_alloc_def sptx_post_cases queue_same_def queue_post_def split: if_splits)
    moreover have "s' = (if r2 \<noteq> 0 then flow_id_free f (ucast (arg_flow_group a)) s2 else s2)"
      using assms al Fid post by (auto simp: nicif_connection_add_def w_def split: if_splits)
    moreover have "queue_same s2 (flow_id_free f g s2)" for g by (simp add: queue_same_def flow_id_free_def)
    ultimately show ?thesis using w queue_same_trans queue_same_post by metis
  next
    case No_Fid
    then show ?thesis using assms al fr by (auto simp: nicif_connection_add_def queue_same_def)
  next
    case Null_Dereference
    then show ?thesis using assms al by (simp add: nicif_connection_add_def)
  qed
qed

lemma send_packet_queue:
  assumes "host_step (Send_Packet len v no_ts off) (s, bufs) = (s', bufs')" and "txq_tail s < txq_len s"
  shows "queue_same s s' \<and> bufs' = bufs \<or>
    (\<exists>d. queue_post d s s' \<and> sptx_type d \<in> posted_types \<and> bufs' = bufs(txq_tail s := v))"
proof (cases "sptx_type (txq_base s (txq_tail s)) = FLEXTCP_PL_SPTX_INVALID")
  case False
  then show ?thesis using assms(1) by (simp add: nicif_tx_alloc_def sptx_try_alloc_def)
next
  case True
  define i where "i = txq_tail s"
  have prev: "(if next_tail s = 0 then txq_len s - 1 else next_tail s - 1) = i"
    using assms(2) by (auto simp: next_tail_def i_def)
  define d where "d = \<lparr>sptx_type = (if \<not> no_ts then FLEXTCP_PL_SPTX_PACKET else FLEXTCP_PL_SPTX_PACKET_NOTS),
    sptx_raw = (sptx_raw (txq_base s i))(0 := ucast len, 1 := off)\<rparr>"
  have "nicif_tx_alloc len s = (Some (i, next_tail s),
      sptx_write i (\<lambda>d. d\<lparr>sptx_raw := (sptx_raw d)(0 := ucast len)\<rparr>) (s\<lparr>txq_tail := next_tail s\<rparr>))"
    using True by (simp add: nicif_tx_alloc_def sptx_try_alloc_def Let_def next_tail_def i_def)
  then have "s' = nicif_tx_send (next_tail s) no_ts off
      (sptx_write i (\<lambda>d. d\<lparr>sptx_raw := (sptx_raw d)(0 := ucast len)\<rparr>) (s\<lparr>txq_tail := next_tail s\<rparr>))"
    and b: "bufs' = bufs(i := v)" using assms(1) by auto
  moreover have "nicif_tx_send (next_tail s) no_ts off t = doorbell (next_tail s) (sptx_write i (\<lambda>d. d\<lparr>sptx_raw := (sptx_raw d)(1 := off),
      sptx_type := (if \<not> no_ts then FLEXTCP_PL_SPTX_PACKET else FLEXTCP_PL_SPTX_PACKET_NOTS)\<rparr>) t)" if "txq_len t = txq_len s" for t
    by (simp only: nicif_tx_send_def Let_def that prev)
  ultimately have "queue_post d s s'" using True
    by (simp add: sptx_write_def doorbell_def queue_post_def i_def [symmetric] d_def sptx_all_fields)
  moreover have "sptx_type d \<in> posted_types" by (simp add: d_def posted_types_def)
  ultimately show ?thesis using b by (auto simp: i_def)
qed

lemma host_step_queue:
  assumes "host_step p (s, bufs) = (s', bufs')" and "txq_tail s < txq_len s"
  shows "queue_same s s' \<and> bufs' = bufs \<or>
    (\<exists>d v. queue_post d s s' \<and> sptx_type d \<in> posted_types \<and> bufs' = bufs(txq_tail s := v))"
proof -
  have post: ?thesis if "s' = snd (sptx_post ty ws s)" "ty \<in> posted_types" "bufs' = bufs" for ty ws
    using sptx_post_queue [of ty ws s "fst (sptx_post ty ws s)" s'] that by (metis fun_upd_triv prod.collapse)
  show ?thesis
  proof (cases p)
    case (Conn_Add v2p rtt a)
    have "FLEXTCP_PL_SPTX_FLOWHT_ADD \<in> posted_types" by (simp add: posted_types_def)
    then show ?thesis using assms(1) nicif_add_queue [of v2p rtt a s] Conn_Add fun_upd_triv
      by (auto split: option.splits) (metis fun_upd_triv)+
  next
    case (Conn_Disable f)
    then show ?thesis using assms(1) by (intro post [of FLEXTCP_PL_SPTX_CONN_CLOSE "[(0, f)]"])
        (auto simp: nicif_connection_disable_def posted_types_def split: prod.splits)
  next
    case (Conn_Free f g)
    then show ?thesis using assms(1) by (auto simp: nicif_connection_free_def flow_id_free_def queue_same_def)
  next
    case (Conn_Move db f)
    then show ?thesis using assms(1) by (auto simp: nicif_connection_move_def queue_same_def Let_def)
  next
    case (Conn_Setrate f r)
    then show ?thesis using assms(1) by (auto simp: nicif_connection_setrate_def queue_same_def Let_def)
  next
    case (Conn_Retransmit f g)
    then show ?thesis using assms(1) by (intro post) (auto simp: nicif_connection_retransmit_def posted_types_def)
  next
    case Debug_Reset
    then show ?thesis using assms(1) by (intro post) (auto simp: nicif_debug_reset_def posted_types_def)
  next
    case (Send_Packet len v no_ts off)
    then show ?thesis using send_packet_queue [OF assms(1) [unfolded Send_Packet] assms(2)] by blast
  qed
qed

subsection \<open>Both sides\<close>

text \<open>
  The host and the card, with two histories: the descriptors the host has posted, with the packet in their
  buffer, and those the card has acted on, with the packet it found there.
\<close>

record 'p sp_sys =
  q_host :: "'p sp_host"
  q_nic :: "'p sp_nic"
  q_posted :: "(flextcp_pl_sptx_t \<times> 'p) list"
  q_done :: "(flextcp_pl_sptx_t \<times> 'p) list"

datatype 'p sp_event = Host_Op "'p host_op" | Nic_Step

definition posted_by :: "'p sp_host \<Rightarrow> 'p sp_host \<Rightarrow> (flextcp_pl_sptx_t \<times> 'p) list" where
  "posted_by h h' =
     (let i = txq_tail (fst h)
      in if sptx_type (txq_base (fst h) i) = FLEXTCP_PL_SPTX_INVALID \<and> sptx_type (txq_base (fst h') i) \<noteq> FLEXTCP_PL_SPTX_INVALID
         then [(txq_base (fst h') i, snd h' i)] else [])"

definition done_by :: "'p sp_host \<Rightarrow> 'p sp_nic \<Rightarrow> (flextcp_pl_sptx_t \<times> 'p) list" where
  "done_by h n = (case tx_at n of T_Process i d \<Rightarrow> [(d, snd h i)] | _ \<Rightarrow> [])"

fun q_step :: "(flow_key_t \<Rightarrow> u32) \<Rightarrow> (flow_key_t \<Rightarrow> u32) \<Rightarrow> cam \<Rightarrow> 'p sp_event \<Rightarrow> 'p sp_sys \<Rightarrow> 'p sp_sys" where
  "q_step crc crcc cam (Host_Op p) c =
     (let h' = host_step p (q_host c) in c\<lparr>q_host := h', q_posted := q_posted c @ posted_by (q_host c) h'\<rparr>)"
| "q_step crc crcc cam Nic_Step c =
     (let (h', n') = poll_tx_slowpath crc crcc cam (q_host c) (q_nic c)
      in c\<lparr>q_host := h', q_nic := n', q_done := q_done c @ done_by (q_host c) (q_nic c)\<rparr>)"

text \<open>The host leaves one descriptor free.\<close>

fun q_ok :: "'p sp_event \<Rightarrow> 'p sp_sys \<Rightarrow> bool" where
  "q_ok (Host_Op p) c = (length (q_posted c) - length (q_done c) + 1 < txq_len (fst (q_host c)))"
| "q_ok Nic_Step c = True"

fun in_hand :: "tx_pc \<Rightarrow> nat" where
  "in_hand T_Top = 0" | "in_hand _ = 1"

fun nulled :: "tx_pc \<Rightarrow> nat" where
  "nulled (T_Process _ _) = 1" | "nulled _ = 0"

text \<open>What the card knows of the descriptor it is working on, number \<open>e\<close> of the posted ones.\<close>

fun tx_pc_ok :: "nat \<Rightarrow> (flextcp_pl_sptx_t \<times> 'p) list \<Rightarrow> nat \<Rightarrow> tx_pc \<Rightarrow> bool" where
  "tx_pc_ok len ps e T_Top = True"
| "tx_pc_ok len ps e (T_Read i) = (e < length ps \<and> i = e mod len)"
| "tx_pc_ok len ps e (T_Null i d) = (e < length ps \<and> i = e mod len \<and> d = fst (ps ! e))"
| "tx_pc_ok len ps e (T_Process i d) = (e < length ps \<and> i = e mod len \<and> d = fst (ps ! e))"

text \<open>The descriptors from number \<open>d\<close> on are in their places, all others are free.\<close>

definition ring_ok :: "nat \<Rightarrow> (flextcp_pl_sptx_t \<times> 'p) list \<Rightarrow> nat \<Rightarrow> (nat \<Rightarrow> flextcp_pl_sptx_t) \<Rightarrow> bool" where
  "ring_ok len ps d ring \<longleftrightarrow>
     (\<forall>j. d \<le> j \<longrightarrow> j < length ps \<longrightarrow> ring (j mod len) = fst (ps ! j)) \<and>
     (\<forall>i<len. (\<forall>j. d \<le> j \<longrightarrow> j < length ps \<longrightarrow> i \<noteq> j mod len) \<longrightarrow> sptx_type (ring i) = FLEXTCP_PL_SPTX_INVALID)"

definition q_inv :: "'p sp_sys \<Rightarrow> bool" where
  "q_inv c \<longleftrightarrow>
     (let s = fst (q_host c); bufs = snd (q_host c); n = q_nic c; len = txq_len s; ps = q_posted c;
          e = length (q_done c); d = e + in_hand (tx_at n)
      in spctx_tx_len n = len \<and> length ps - e < len \<and> q_done c = take e ps \<and> e \<le> length ps \<and>
         (\<forall>x\<in>set ps. sptx_type (fst x) \<noteq> FLEXTCP_PL_SPTX_INVALID) \<and>
         txq_tail s = length ps mod len \<and> spctx_tx_tail (fp_state s) = length ps mod len \<and>
         spctx_tx_head n = d mod len \<and> (\<exists>t. d \<le> t \<and> t \<le> length ps \<and> spctx_tx_tail_c n = t mod len) \<and>
         tx_pc_ok len ps e (tx_at n) \<and> ring_ok len ps (e + nulled (tx_at n)) (txq_base s) \<and>
         (\<forall>j. e \<le> j \<longrightarrow> j < length ps \<longrightarrow> bufs (j mod len) = snd (ps ! j)))"

lemma ring_distinct: "a < b \<Longrightarrow> b < a + len \<Longrightarrow> a mod len \<noteq> b mod (len :: nat)"
  using mod_add_inj [of 0 len "b - a" a] by (auto simp: less_diff_conv2)

lemma ring_ok_post:
  assumes "ring_ok len ps d ring" and "length ps < d + len" and "d \<le> length ps"
  shows "ring_ok len (ps @ [x]) d (ring(length ps mod len := fst x))"
proof -
  have "j mod len \<noteq> length ps mod len" if "d \<le> j" "j < length ps" for j
    using that assms(2) by (intro ring_distinct) auto
  with assms(1,3) show ?thesis unfolding ring_ok_def by (auto simp: nth_append less_Suc_eq)
qed

lemma ring_ok_null:
  assumes "ring_ok len ps d ring" and "length ps < d + len"
  shows "ring_ok len ps (Suc d) (ring(d mod len := null_sptx))"
proof -
  have "j mod len \<noteq> d mod len" if "Suc d \<le> j" "j < length ps" for j
    using that assms(2) by (intro ring_distinct [THEN not_sym]) auto
  moreover have "sptx_type (ring i) = FLEXTCP_PL_SPTX_INVALID"
    if "i < len" "i \<noteq> d mod len" "\<forall>j. Suc d \<le> j \<longrightarrow> j < length ps \<longrightarrow> i \<noteq> j mod len" for i
  proof -
    have "i \<noteq> j mod len" if "d \<le> j" "j < length ps" for j
      using that \<open>i \<noteq> d mod len\<close> \<open>\<forall>j. Suc d \<le> j \<longrightarrow> j < length ps \<longrightarrow> i \<noteq> j mod len\<close> by (cases "j = d") auto
    with assms(1) that(1) show ?thesis by (simp add: ring_ok_def)
  qed
  ultimately show ?thesis using assms(1) unfolding ring_ok_def by (auto simp: null_sptx_def)
qed

lemma next_index: "0 < len \<Longrightarrow> (if len \<le> k mod len + 1 then 0 else k mod len + 1) = Suc k mod (len :: nat)"
  using mod_less_divisor [of len k] by (auto simp: mod_Suc simp del: mod_less_divisor)

lemma q_inv_host:
  assumes "q_inv c" and "q_ok (Host_Op p) c"
  shows "q_inv (q_step crc crcc cam (Host_Op p) c)"
proof -
  obtain s bufs where h: "q_host c = (s, bufs)" by fastforce
  obtain s' bufs' where h': "host_step p (s, bufs) = (s', bufs')" by fastforce
  let ?len = "txq_len s" and ?ps = "q_posted c" and ?e = "length (q_done c)" and ?n = "q_nic c"
  note inv = assms(1) [unfolded q_inv_def h Let_def fst_conv snd_conv]
  have room: "length ?ps - ?e + 1 < ?len" using assms(2) h by simp
  have tail: "txq_tail s = length ?ps mod ?len" using inv by simp
  then have "txq_tail s < ?len" using room by simp
  from host_step_queue [OF h' this] consider "queue_same s s'" "bufs' = bufs"
    | d v where "queue_post d s s'" "sptx_type d \<in> posted_types" "bufs' = bufs(txq_tail s := v)" by blast
  then show ?thesis
  proof cases
    case 1
    then have "posted_by (s, bufs) (s', bufs') = []" by (auto simp: posted_by_def queue_same_def Let_def)
    with 1 inv show ?thesis by (simp add: h h' Let_def q_inv_def queue_same_def)
  next
    case (2 d v)
    have ty: "sptx_type d \<noteq> FLEXTCP_PL_SPTX_INVALID" using 2(2) by (auto simp: posted_types_def sptx_type_defs)
    then have pb: "posted_by (s, bufs) (s', bufs') = [(d, v)]" using 2 by (auto simp: posted_by_def queue_post_def Let_def)
    have nt: "next_tail s = Suc (length ?ps) mod ?len" unfolding next_tail_def tail using room by (intro next_index) linarith
    have far: "j mod ?len \<noteq> length ?ps mod ?len" if "?e \<le> j" "j < length ?ps" for j
      using that room by (intro ring_distinct) auto
    have "nulled (tx_at ?n) \<le> in_hand (tx_at ?n)" by (cases "tx_at ?n") auto
    with inv have le: "?e + nulled (tx_at ?n) \<le> length ?ps" by auto
    have ring: "ring_ok ?len (?ps @ [(d, v)]) (?e + nulled (tx_at ?n)) ((txq_base s)(length ?ps mod ?len := d))"
      using ring_ok_post [of ?len ?ps _ "txq_base s" "(d, v)"] inv room le by auto
    have pc: "tx_pc_ok ?len (?ps @ [(d, v)]) ?e (tx_at ?n)" using inv by (cases "tx_at ?n") (auto simp: nth_append)
    have b: "bufs' (j mod ?len) = snd ((?ps @ [(d, v)]) ! j)" if "?e \<le> j" "j < Suc (length ?ps)" for j
      using that inv far 2(3) by (auto simp: tail nth_append less_Suc_eq)
    have "q_inv (c\<lparr>q_host := (s', bufs'), q_posted := ?ps @ [(d, v)]\<rparr>)"
      unfolding q_inv_def Let_def using inv 2(1) ring pc b room ty
      by (auto simp: queue_post_def nt tail intro: le_SucI)
    then show ?thesis by (simp add: h h' pb Let_def)
  qed
qed

lemma process_sptx_frame [simp]:
  "spctx_tx_head (process_sptx_descriptor crc crcc cam b d n) = spctx_tx_head n"
  "spctx_tx_tail_c (process_sptx_descriptor crc crcc cam b d n) = spctx_tx_tail_c n"
  "spctx_tx_len (process_sptx_descriptor crc crcc cam b d n) = spctx_tx_len n"
  by (simp_all add: process_sptx_descriptor_def process_sptx_packet_def Let_def)

lemma q_inv_nic:
  assumes "q_inv c"
  shows "q_inv (q_step crc crcc cam Nic_Step c)"
proof -
  obtain s bufs where h: "q_host c = (s, bufs)" by fastforce
  let ?len = "txq_len s" and ?ps = "q_posted c" and ?e = "length (q_done c)" and ?n = "q_nic c"
  note inv = assms [unfolded q_inv_def h Let_def fst_conv snd_conv]
  note unf = q_inv_def h poll_tx_slowpath_def done_by_def Let_def
  have len: "0 < ?len" using inv by linarith
  show ?thesis
  proof (cases "tx_at ?n")
    case T_Top
    show ?thesis
    proof (cases "spctx_tx_head ?n = spctx_tx_tail_c ?n")
      case True
      with T_Top inv show ?thesis by (auto simp: unf)
    next
      case False
      from inv T_Top obtain t where t: "?e \<le> t" "t \<le> length ?ps" "spctx_tx_tail_c ?n = t mod ?len" by auto
      moreover have "t \<noteq> ?e" using False inv T_Top t by auto
      ultimately have "?e < length ?ps" "Suc ?e \<le> t" by auto
      moreover have "(if ?len \<le> ?e mod ?len + 1 then 0 else ?e mod ?len + 1) = Suc ?e mod ?len" using len by (rule next_index)
      ultimately show ?thesis using T_Top inv False t by (auto simp: unf)
    qed
  next
    case (T_Read i)
    then have "txq_base s i = fst (?ps ! ?e)" using inv by (auto simp: ring_ok_def)
    with T_Read inv show ?thesis by (auto simp: unf)
  next
    case (T_Null i d)
    then have "ring_ok ?len ?ps (Suc ?e) ((txq_base s)(i := null_sptx))" using inv ring_ok_null [of ?len ?ps ?e "txq_base s"] by auto
    with T_Null inv show ?thesis by (auto simp: unf)
  next
    case (T_Process i d)
    with inv have e: "?e < length ?ps" "i = ?e mod ?len" "d = fst (?ps ! ?e)" "bufs i = snd (?ps ! ?e)" by auto
    then have "take (Suc ?e) ?ps = q_done c @ [(d, bufs i)]" using inv by (simp add: take_Suc_conv_app_nth)
    with T_Process inv e show ?thesis by (auto simp: unf)
  qed
qed

interpretation sp_queue: invariant_system "q_step crc crcc cam" q_ok q_inv for crc crcc cam
proof
  fix c e
  assume "q_inv c" and "q_ok e c"
  then show "q_inv (q_step crc crcc cam e c)" by (cases e) (simp_all only: q_inv_host q_inv_nic)
qed

text \<open>The queue after initialisation.\<close>

definition q_fresh :: "'p sp_sys \<Rightarrow> bool" where
  "q_fresh c \<longleftrightarrow>
     (let s = fst (q_host c); n = q_nic c
      in 1 < txq_len s \<and> spctx_tx_len n = txq_len s \<and> txq_tail s = 0 \<and> spctx_tx_tail (fp_state s) = 0 \<and> spctx_tx_head n = 0 \<and>
         spctx_tx_tail_c n = 0 \<and> tx_at n = T_Top \<and> q_posted c = [] \<and> q_done c = [] \<and>
         (\<forall>i. sptx_type (txq_base s i) = FLEXTCP_PL_SPTX_INVALID))"

lemma q_fresh_inv: "q_fresh c \<Longrightarrow> q_inv c"
  by (auto simp: q_fresh_def q_inv_def ring_ok_def Let_def)

lemma q_inv_tail_free:
  assumes "q_inv c"
  shows "sptx_type (txq_base (fst (q_host c)) (txq_tail (fst (q_host c)))) = FLEXTCP_PL_SPTX_INVALID"
proof -
  obtain s bufs where h: "q_host c = (s, bufs)" by fastforce
  let ?len = "txq_len s" and ?ps = "q_posted c" and ?e = "length (q_done c)" and ?n = "q_nic c"
  note inv = assms [unfolded q_inv_def h Let_def fst_conv snd_conv]
  have "length ?ps mod ?len \<noteq> j mod ?len" if "?e \<le> j" "j < length ?ps" for j
    using that inv by (intro ring_distinct [THEN not_sym]) auto
  moreover have "length ?ps mod ?len < ?len" using inv by (intro mod_less_divisor) linarith
  ultimately show ?thesis using inv by (auto simp: ring_ok_def h)
qed

text \<open>The steps the card needs to finish one more descriptor.\<close>

definition steps_left :: "'p sp_sys \<Rightarrow> nat" where
  "steps_left c = (case tx_at (q_nic c) of
     T_Process _ _ \<Rightarrow> 1 | T_Null _ _ \<Rightarrow> 2 | T_Read _ \<Rightarrow> 3
   | T_Top \<Rightarrow> if spctx_tx_head (q_nic c) = spctx_tx_tail_c (q_nic c) then 5 else 4)"

lemma nic_progress:
  fixes crc crcc cam
  assumes "q_inv c" and "length (q_done c) < length (q_posted c)"
  defines "c' \<equiv> q_step crc crcc cam Nic_Step c"
  shows "length (q_done c') = Suc (length (q_done c)) \<or>
    length (q_done c') = length (q_done c) \<and> q_posted c' = q_posted c \<and> steps_left c' < steps_left c"
proof -
  obtain s bufs where h: "q_host c = (s, bufs)" by fastforce
  let ?len = "txq_len s" and ?ps = "q_posted c" and ?e = "length (q_done c)" and ?n = "q_nic c"
  note inv = assms(1) [unfolded q_inv_def h Let_def fst_conv snd_conv]
  have "?e mod ?len \<noteq> length ?ps mod ?len" using inv assms(2) by (intro ring_distinct) auto
  then show ?thesis using inv
    by (cases "tx_at ?n") (auto simp: c'_def h poll_tx_slowpath_def done_by_def steps_left_def Let_def)
qed

lemma nic_finishes:
  "q_inv c \<Longrightarrow> length (q_done c) < length (q_posted c) \<Longrightarrow> steps_left c \<le> k \<Longrightarrow>
     \<exists>j\<le>k. length (q_done (run (q_step crc crcc cam) (replicate j Nic_Step) c)) = Suc (length (q_done c))"
proof (induction k arbitrary: c)
  case 0
  then show ?case by (cases "tx_at (q_nic c)") (auto simp: steps_left_def split: if_splits)
next
  case (Suc k)
  let ?c = "q_step crc crcc cam Nic_Step c"
  from nic_progress [OF Suc.prems(1,2), of crc crcc cam] consider "length (q_done ?c) = Suc (length (q_done c))"
    | "length (q_done ?c) = length (q_done c)" "q_posted ?c = q_posted c" "steps_left ?c \<le> k"
    using Suc.prems(3) by fastforce
  then show ?case
  proof cases
    case 1
    then show ?thesis by (intro exI [of _ 1]) simp
  next
    case 2
    from Suc.IH [OF q_inv_nic [OF Suc.prems(1)], of crc crcc cam] 2 Suc.prems(2) obtain j where
      "j \<le> k" "length (q_done (run (q_step crc crcc cam) (replicate j Nic_Step) ?c)) = Suc (length (q_done c))" by auto
    then show ?thesis by (intro exI [of _ "Suc j"]) simp
  qed
qed


definition sample_sp :: "nat sp_sys" where
  "sample_sp = \<lparr>q_host = (ready_nicif, \<lambda>_. 0), q_nic = \<lparr>spctx_tx_head = 0, spctx_tx_tail_c = 0, spctx_tx_len = 256, tx_at = T_Top,
     sp_flowht = ht_empty, sp_outs = []\<rparr>, q_posted = [], q_done = []\<rparr>"

lemma sample_sp_fresh: "q_fresh sample_sp"
  by (simp add: q_fresh_def sample_sp_def ready_nicif_def idle_nicif_def FLEXTCP_PL_SPTX_INVALID_def)


subsection \<open>A full queue\<close>

text \<open>Every descriptor is in use, and all copies of head and tail are equal.\<close>

definition q_stuck :: "'p sp_sys \<Rightarrow> bool" where
  "q_stuck c \<longleftrightarrow>
     (let s = fst (q_host c); n = q_nic c
      in txq_tail s < txq_len s \<and> (\<forall>i<txq_len s. sptx_type (txq_base s i) \<noteq> FLEXTCP_PL_SPTX_INVALID) \<and>
         spctx_tx_tail (fp_state s) = txq_tail s \<and> spctx_tx_head n = txq_tail s \<and> spctx_tx_tail_c n = txq_tail s \<and> tx_at n = T_Top)"

lemma q_stuck_step:
  assumes "q_stuck c"
  shows "q_stuck (q_step crc crcc cam e c) \<and> q_posted (q_step crc crcc cam e c) = q_posted c \<and> q_done (q_step crc crcc cam e c) = q_done c"
proof -
  obtain s bufs where h: "q_host c = (s, bufs)" by fastforce
  show ?thesis
  proof (cases e)
    case (Host_Op p)
    obtain s' bufs' where h': "host_step p (s, bufs) = (s', bufs')" by fastforce
    have "txq_tail s < txq_len s" "sptx_type (txq_base s (txq_tail s)) \<noteq> FLEXTCP_PL_SPTX_INVALID"
      using assms h by (simp_all add: q_stuck_def Let_def)
    with host_step_queue [OF h'] have "queue_same s s'" by (auto simp: queue_post_def)
    moreover from this have "posted_by (s, bufs) (s', bufs') = []" by (simp add: posted_by_def queue_same_def Let_def)
    ultimately show ?thesis using assms by (simp add: Host_Op h h' Let_def q_stuck_def queue_same_def)
  next
    case Nic_Step
    then show ?thesis using assms by (simp add: h q_stuck_def poll_tx_slowpath_def done_by_def Let_def)
  qed
qed

lemma q_stuck_run:
  "q_stuck c \<Longrightarrow> q_posted (run (q_step crc crcc cam) es c) = q_posted c \<and> q_done (run (q_step crc crcc cam) es c) = q_done c"
proof (induction es arbitrary: c)
  case (Cons e es)
  then show ?case using q_stuck_step [of c crc crcc cam e] by simp
qed simp

text \<open>Filling the queue before the card looks at it.\<close>

definition q_filled :: "nat \<Rightarrow> 'p sp_sys \<Rightarrow> bool" where
  "q_filled k c \<longleftrightarrow>
     (let s = fst (q_host c); n = q_nic c
      in 1 < txq_len s \<and> txq_tail s = k mod txq_len s \<and> spctx_tx_tail (fp_state s) = k mod txq_len s \<and> spctx_tx_head n = 0 \<and>
         spctx_tx_tail_c n = 0 \<and> tx_at n = T_Top \<and> length (q_posted c) = k \<and> q_done c = [] \<and>
         (\<forall>i<txq_len s. sptx_type (txq_base s i) = FLEXTCP_PL_SPTX_INVALID \<longleftrightarrow> k \<le> i))"

lemma q_filled_post:
  assumes "q_filled k c" and "k < txq_len (fst (q_host c))"
  shows "q_filled (Suc k) (q_step crc crcc cam (Host_Op Debug_Reset) c) \<and>
    txq_len (fst (q_host (q_step crc crcc cam (Host_Op Debug_Reset) c))) = txq_len (fst (q_host c))"
proof -
  obtain s bufs where h: "q_host c = (s, bufs)" by fastforce
  define d where "d = \<lparr>sptx_type = FLEXTCP_PL_SPTX_DEBUG_RESET, sptx_raw = sptx_raw (txq_base s k)\<rparr>"
  have k: "txq_tail s = k" "sptx_type (txq_base s k) = FLEXTCP_PL_SPTX_INVALID" using assms h by (auto simp: q_filled_def Let_def)
  have nt: "next_tail s = Suc k mod txq_len s"
    using assms(2) h by (cases "Suc k = txq_len s") (simp_all add: next_tail_def k)
  have st: "snd (nicif_debug_reset s) = s\<lparr>txq_base := (txq_base s)(k := d), txq_tail := next_tail s,
      fp_state := (fp_state s)\<lparr>spctx_tx_tail := next_tail s\<rparr>\<rparr>"
    using k by (simp add: nicif_debug_reset_def sptx_post_cases d_def)
  have d: "sptx_type d \<noteq> FLEXTCP_PL_SPTX_INVALID" by (simp add: d_def sptx_type_defs)
  have "posted_by (s, bufs) (snd (nicif_debug_reset s), bufs) = [(d, bufs k)]" using k d by (simp add: posted_by_def st Let_def)
  then show ?thesis using assms h d by (auto simp: st q_filled_def Let_def nt)
qed



subsection \<open>The table of flows\<close>

text \<open>
  What the operations do to the card's table. Neither closing nor freeing a connection posts the descriptor that
  deletes its entry, and \<open>flow_slot_clear\<close>, which would, is not called: the descriptors in the queue
  and the one the card works on never ask for a deletion.
\<close>

fun no_del :: "tx_pc \<Rightarrow> bool" where
  "no_del T_Top = True"
| "no_del (T_Read i) = True"
| "no_del (T_Null i d) = (sptx_type d \<noteq> FLEXTCP_PL_SPTX_FLOWHT_DEL)"
| "no_del (T_Process i d) = (sptx_type d \<noteq> FLEXTCP_PL_SPTX_FLOWHT_DEL)"

definition tbl_inv :: "(flow_key_t \<Rightarrow> u32) \<Rightarrow> (flow_key_t \<Rightarrow> u32) \<Rightarrow> (flow_key_t \<rightharpoonup> u32) \<Rightarrow> 'p sp_sys \<Rightarrow> bool" where
  "tbl_inv crc crcc m c \<longleftrightarrow>
     (let s = fst (q_host c); n = q_nic c
      in txq_tail s < txq_len s \<and> (\<forall>i. sptx_type (txq_base s i) \<noteq> FLEXTCP_PL_SPTX_FLOWHT_DEL) \<and> no_del (tx_at n) \<and>
         ht_inv crc crcc m (sp_flowht n))"

lemma tbl_inv_host:
  assumes "tbl_inv crc crcc m c"
  shows "tbl_inv crc crcc m (q_step crc crcc cam (Host_Op p) c)"
proof -
  obtain s bufs where h: "q_host c = (s, bufs)" by fastforce
  obtain s' bufs' where h': "host_step p (s, bufs) = (s', bufs')" by fastforce
  have t: "txq_tail s < txq_len s" using assms h by (simp add: tbl_inv_def Let_def)
  from host_step_queue [OF h' t] consider "queue_same s s'" | d where "queue_post d s s'" "sptx_type d \<in> posted_types" by blast
  then show ?thesis
  proof cases
    case 1
    then show ?thesis using assms by (simp add: h h' tbl_inv_def queue_same_def Let_def)
  next
    case (2 d)
    then have "sptx_type d \<noteq> FLEXTCP_PL_SPTX_FLOWHT_DEL" by (auto simp: posted_types_def sptx_type_defs)
    moreover have "next_tail s < txq_len s" using t by (auto simp: next_tail_def)
    ultimately show ?thesis using assms 2(1) by (auto simp: h h' tbl_inv_def queue_post_def Let_def)
  qed
qed

lemma process_sptx_table:
  assumes "cam_ok cam" and "ht_inv crc crcc m (sp_flowht n)" and "sptx_type d \<noteq> FLEXTCP_PL_SPTX_FLOWHT_DEL"
  shows "\<exists>m'. m \<subseteq>\<^sub>m m' \<and> ht_inv crc crcc m' (sp_flowht (process_sptx_descriptor crc crcc cam b d n))"
proof (cases "sptx_type d = FLEXTCP_PL_SPTX_FLOWHT_ADD")
  case True
  define e where "e = \<lparr>ht_key = sptx_key d, ht_flow_id = sptx_raw d 3\<rparr>"
  have ht: "sp_flowht (process_sptx_descriptor crc crcc cam b d n) = snd (flow_insert crc crcc cam e (sp_flowht n))"
    using True by (simp add: process_sptx_descriptor_def e_def sptx_type_defs Let_def)
  show ?thesis
  proof (cases rule: flow_insert_cases [OF assms(1), of crc crcc e "sp_flowht n", case_names refused added])
    case refused
    then show ?thesis using assms(2) ht by (intro exI [of _ m]) simp
  next
    case (added i)
    have a: "ht_ok crc crcc (sp_flowht n)" "ht_rel m (sp_flowht n)" using assms(2) by (simp_all add: ht_inv_def)
    note r = flow_insert_added [OF a added(1-4) refl]
    then show ?thesis using ht added(5)
      by (intro exI [of _ "m(ht_key e \<mapsto> ht_flow_id e)"]) (auto simp: ht_inv_def map_le_def)
  qed
next
  case False
  then have "sp_flowht (process_sptx_descriptor crc crcc cam b d n) = sp_flowht n"
    using assms(3) by (simp add: process_sptx_descriptor_def process_sptx_packet_def Let_def)
  then show ?thesis using assms(2) by (intro exI [of _ m]) simp
qed

lemma tbl_inv_nic:
  assumes "cam_ok cam" and "tbl_inv crc crcc m c"
  shows "\<exists>m'. m \<subseteq>\<^sub>m m' \<and> tbl_inv crc crcc m' (q_step crc crcc cam Nic_Step c)"
proof -
  obtain s bufs where h: "q_host c = (s, bufs)" by fastforce
  note inv = assms(2) [unfolded tbl_inv_def h Let_def fst_conv snd_conv]
  note unf = h tbl_inv_def poll_tx_slowpath_def Let_def
  show ?thesis
  proof (cases "tx_at (q_nic c)")
    case (T_Process i d)
    with inv obtain m' where "m \<subseteq>\<^sub>m m'" "ht_inv crc crcc m' (sp_flowht (process_sptx_descriptor crc crcc cam (bufs i) d (q_nic c)))"
      using process_sptx_table [OF assms(1), of crc crcc m "q_nic c" d "bufs i"] by auto
    with T_Process inv show ?thesis by (auto simp: unf)
  qed (use inv in \<open>auto simp: unf null_sptx_def sptx_type_defs intro: exI [of _ m]\<close>)
qed

lemma tbl_inv_run:
  assumes "cam_ok cam"
  shows "tbl_inv crc crcc m c \<Longrightarrow> \<exists>m'. m \<subseteq>\<^sub>m m' \<and> tbl_inv crc crcc m' (run (q_step crc crcc cam) es c)"
proof (induction es arbitrary: m c)
  case (Cons e es)
  have "\<exists>m1. m \<subseteq>\<^sub>m m1 \<and> tbl_inv crc crcc m1 (q_step crc crcc cam e c)"
  proof (cases e)
    case (Host_Op p)
    then show ?thesis using tbl_inv_host [OF Cons.prems, of cam p] map_le_refl by blast
  next
    case Nic_Step
    then show ?thesis using tbl_inv_nic [OF assms Cons.prems] by simp
  qed
  then obtain m1 where m1: "m \<subseteq>\<^sub>m m1" "tbl_inv crc crcc m1 (q_step crc crcc cam e c)" by blast
  from Cons.IH [OF m1(2)] m1(1) show ?case by (auto intro: map_le_trans)
qed (auto intro: map_le_refl)

definition nic_flow_of :: "(flow_key_t \<Rightarrow> u32) \<Rightarrow> (flow_key_t \<Rightarrow> u32) \<Rightarrow> cam \<Rightarrow> flow_key_t \<Rightarrow> 'p sp_sys \<Rightarrow> u32" where
  "nic_flow_of crc crcc cam k c = flow_lookup cam k (flow_hash crc crcc k) (sp_flowht (q_nic c))"

text \<open>
  C36. The card never forgets a connection. Start with an empty queue and an empty table, and let the slow path
  call any operations, disabling and freeing connections included, with the card running in between.
  Once the card looks up a connection and finds flow \<open>f\<close>, it finds \<open>f\<close> for it ever after. When the
  connection is closed, its flow id is free for other connections, but packets of the old one still go to
  that flow; when the same addresses and ports connect again, the card uses the old flow id and not
  the new one.
\<close>

theorem nic_flow_entry_permanent:
  fixes crc crcc es es'
  assumes "cam_ok cam" and "q_fresh c0" and "sp_flowht (q_nic c0) = ht_empty"
  defines "c \<equiv> run (q_step crc crcc cam) es c0"
  assumes "nic_flow_of crc crcc cam k c = f" and "f \<noteq> INVALID_FLOWID"
  shows "nic_flow_of crc crcc cam k (run (q_step crc crcc cam) es' c) = f"
proof -
  have "tbl_inv crc crcc (\<lambda>_. None) c0" using assms(2,3) ht_empty_inv
    by (simp add: tbl_inv_def q_fresh_def Let_def sptx_type_defs)
  from tbl_inv_run [OF assms(1) this] obtain m where "tbl_inv crc crcc m c" unfolding c_def by blast
  moreover from tbl_inv_run [OF assms(1) this] obtain m' where m': "m \<subseteq>\<^sub>m m'" "tbl_inv crc crcc m' (run (q_step crc crcc cam) es' c)" by blast
  moreover have "nic_flow_of crc crcc cam k d = (case M k of None \<Rightarrow> INVALID_FLOWID | Some g \<Rightarrow> g)"
    if "tbl_inv crc crcc M d" for M and d :: "'a sp_sys"
    using that flow_lookup_map [OF assms(1)] by (simp add: tbl_inv_def nic_flow_of_def ht_inv_def Let_def)
  ultimately show ?thesis using assms(5,6) unfolding map_le_def by (cases "m k") (auto simp: dom_def)
qed

lemma ready_add_queue:
  "\<exists>s' raw. nicif_connection_add id 50 sample_args ready_nicif = Some (Some 512, s') \<and> spctx_tx_tail (fp_state s') = 1 \<and>
     txq_base s' 0 = \<lparr>sptx_type = FLEXTCP_PL_SPTX_FLOWHT_ADD, sptx_raw = raw\<rparr> \<and>
     raw 0 = 0x0A000001 \<and> raw 1 = 0x0A000002 \<and> raw 2 = 0xC3500050 \<and> raw 3 = 512"
  using ready_alloc
  by (simp add: nicif_connection_add_def sample_args_def flow_slot_alloc_def sptx_post_cases FLEXNIC_PL_FLOWST_NUM_def flow_slot_words_def
      write_flow_def Let_def ready_nicif_def idle_nicif_def slot_add_def sptx_type_defs next_tail_def)

lemma sample_lookup:
  "nic_flow_of sum_hash sum_hash first_cam conn_key
     (run (q_step sum_hash sum_hash first_cam) [Host_Op (Conn_Add id 50 sample_args), Nic_Step, Nic_Step, Nic_Step, Nic_Step, Nic_Step] sample_sp) = 512"
proof -
  obtain s' raw where s': "nicif_connection_add id 50 sample_args ready_nicif = Some (Some 512, s')" "spctx_tx_tail (fp_state s') = 1"
      "txq_base s' 0 = \<lparr>sptx_type = FLEXTCP_PL_SPTX_FLOWHT_ADD, sptx_raw = raw\<rparr>"
      "raw 0 = 0x0A000001" "raw (Suc 0) = 0x0A000002" "raw 2 = 0xC3500050" "raw 3 = 512" using ready_add_queue by auto
  have ins: "flow_lookup first_cam conn_key (flow_hash sum_hash sum_hash conn_key)
      (snd (flow_insert sum_hash sum_hash first_cam \<lparr>ht_key = conn_key, ht_flow_id = 512\<rparr> ht_empty)) = 512"
    by (simp add: ht_eval)
  have key: "sptx_key \<lparr>sptx_type = FLEXTCP_PL_SPTX_FLOWHT_ADD, sptx_raw = raw\<rparr> = conn_key" using s' by (simp add: sptx_key_def conn_key_def)
  then have "sp_flowht (process_sptx_descriptor sum_hash sum_hash first_cam b \<lparr>sptx_type = FLEXTCP_PL_SPTX_FLOWHT_ADD, sptx_raw = raw\<rparr> n) =
      snd (flow_insert sum_hash sum_hash first_cam \<lparr>ht_key = conn_key, ht_flow_id = 512\<rparr> (sp_flowht n))" for b and n :: "nat sp_nic"
    using s' by (simp add: process_sptx_descriptor_def sptx_type_defs Let_def)
  with ins show ?thesis by (simp add: sample_sp_def s' nic_flow_of_def poll_tx_slowpath_def Let_def)
qed

theorem nic_flow_entry_permanent_witness:
  "nic_flow_of sum_hash sum_hash first_cam conn_key
     (run (q_step sum_hash sum_hash first_cam)
       [Host_Op (Conn_Free 512 3), Host_Op (Conn_Add id 50 sample_args), Nic_Step, Nic_Step, Nic_Step, Nic_Step, Nic_Step]
       (run (q_step sum_hash sum_hash first_cam)
         [Host_Op (Conn_Add id 50 sample_args), Nic_Step, Nic_Step, Nic_Step, Nic_Step, Nic_Step] sample_sp)) = 512"
proof (rule nic_flow_entry_permanent [OF first_cam_ok sample_sp_fresh _ sample_lookup])
  show "sp_flowht (q_nic sample_sp) = ht_empty" by (simp add: sample_sp_def)
  show "512 \<noteq> INVALID_FLOWID" by (simp add: INVALID_FLOWID_def)
qed

end
