(* ===== verification/Slowpath_Rx.thy ===== *)
theory Slowpath_Rx
  imports Slowpath_If
begin

unbundle bit_operations_syntax

text \<open>
  Packets for the slow path: context 0 of \<open>firmware/slowpath_if.c\<close> takes frames from their ring and hands them to
  the host, with \<open>rxq_poll\<close> of \<open>user/nicif.c\<close> at the other end. The card copies the frame to the packet
  buffer of the next index and then writes the descriptor; it waits for each transfer before it goes on.
  A packet buffer is a function from the byte's offset.
\<close>

subsection \<open>The card\<close>

text \<open>
  A frame: its length with the eight bytes the MAC puts in front, the addresses and ports as they are read from its
  header, and its bytes after those eight.
\<close>

record sp_frame =
  fr_plen :: u32
  fr_key :: flow_key_t
  fr_bytes :: "nat \<Rightarrow> u8"

datatype rx_pc = R_Top | R_Index sp_frame | R_Packet nat sp_frame | R_Desc nat sp_frame

record sp_rx_nic =
  rn_rx_tail :: nat
  rn_rx_head_c :: nat
  rn_rx_len :: nat
  rx_at :: rx_pc
  flow_ring_sp :: "sp_frame list"

type_synonym rx_host = "nicif \<times> (nat \<Rightarrow> nat \<Rightarrow> u8)"

definition dma_transfer_pkt_slowpath :: "u32 \<Rightarrow> (nat \<Rightarrow> u8) \<Rightarrow> (nat \<Rightarrow> u8) \<Rightarrow> nat \<Rightarrow> u8" where
  "dma_transfer_pkt_slowpath plen nic host = (let len = plen - MAC_PREPEND_BYTES in (\<lambda>i. if i < unat len then nic i else host i))"

text \<open>The descriptor; the hash it also carries is not read by the host.\<close>

definition sprx_of :: "(flow_key_t \<Rightarrow> u32) \<Rightarrow> (flow_key_t \<Rightarrow> u32) \<Rightarrow> sp_frame \<Rightarrow> flextcp_pl_sprx_t" where
  "sprx_of crc crcc w = \<lparr>sprx_type = FLEXTCP_PL_SPRX_PACKET, sprx_len = fr_plen w - MAC_PREPEND_BYTES,
     sprx_flow_group = secondary (flow_hash crc crcc (fr_key w)) AND (NUM_FLOW_GROUPS - 1)\<rparr>"

definition poll_rx_slowpath ::
  "(flow_key_t \<Rightarrow> u32) \<Rightarrow> (flow_key_t \<Rightarrow> u32) \<Rightarrow> rx_host \<Rightarrow> sp_rx_nic \<Rightarrow> rx_host \<times> sp_rx_nic" where
  "poll_rx_slowpath crc crcc h n =
     (let (s, bufs) = h
      in case rx_at n of
           R_Top \<Rightarrow> (case flow_ring_sp n of [] \<Rightarrow> (h, n) | w # ws \<Rightarrow> (h, n\<lparr>flow_ring_sp := ws, rx_at := R_Index w\<rparr>))
         | R_Index w \<Rightarrow>
             let tail = rn_rx_tail n; updated_tail = (if rn_rx_len n \<le> tail + 1 then 0 else tail + 1)
             in if updated_tail \<noteq> rn_rx_head_c n then (h, n\<lparr>rn_rx_tail := updated_tail, rx_at := R_Packet tail w\<rparr>)
                else (h, n\<lparr>rn_rx_head_c := spctx_rx_head (fp_state s)\<rparr>)
         | R_Packet i w \<Rightarrow>
             ((s, bufs(i := dma_transfer_pkt_slowpath (fr_plen w - MAC_PREPEND_BYTES) (fr_bytes w) (bufs i))),
              n\<lparr>rx_at := R_Desc i w\<rparr>)
         | R_Desc i w \<Rightarrow> ((s\<lparr>rxq_base := (rxq_base s)(i := sprx_of crc crcc w)\<rparr>, bufs), n\<lparr>rx_at := R_Top\<rparr>))"

subsection \<open>Both sides\<close>

text \<open>With the frames that arrived on the ring and the packets the host was given: length, flow group and buffer.\<close>

record sprx_sys =
  rs_host :: rx_host
  rs_nic :: sp_rx_nic
  rs_arrived :: "sp_frame list"
  rs_delivered :: "(u16 \<times> u16 \<times> (nat \<Rightarrow> u8)) list"

datatype sprx_event = Frame_Arrives sp_frame | Card_Rx | Host_Poll

fun sprx_step :: "(flow_key_t \<Rightarrow> u32) \<Rightarrow> (flow_key_t \<Rightarrow> u32) \<Rightarrow> sprx_event \<Rightarrow> sprx_sys \<Rightarrow> sprx_sys" where
  "sprx_step crc crcc (Frame_Arrives w) c =
     c\<lparr>rs_nic := (rs_nic c)\<lparr>flow_ring_sp := flow_ring_sp (rs_nic c) @ [w]\<rparr>, rs_arrived := rs_arrived c @ [w]\<rparr>"
| "sprx_step crc crcc Card_Rx c =
     (case poll_rx_slowpath crc crcc (rs_host c) (rs_nic c) of (h', n') \<Rightarrow> c\<lparr>rs_host := h', rs_nic := n'\<rparr>)"
| "sprx_step crc crcc Host_Poll c =
     (case rs_host c of (s, bufs) \<Rightarrow>
        case rxq_poll s of
          (Rxq_Packet i len grp, s') \<Rightarrow> c\<lparr>rs_host := (s', bufs), rs_delivered := rs_delivered c @ [(len, grp, bufs i)]\<rparr>
        | (_, s') \<Rightarrow> c\<lparr>rs_host := (s', bufs)\<rparr>)"

text \<open>A delivered packet is a frame, apart from the end of its bytes.\<close>

definition frame_bytes :: "sp_frame \<Rightarrow> (nat \<Rightarrow> u8) \<Rightarrow> bool" where
  "frame_bytes w b \<longleftrightarrow> (\<forall>i<unat (fr_plen w - 16). b i = fr_bytes w i)"

definition received :: "(flow_key_t \<Rightarrow> u32) \<Rightarrow> sp_frame \<Rightarrow> u16 \<times> u16 \<times> (nat \<Rightarrow> u8) \<Rightarrow> bool" where
  "received crcc w p \<longleftrightarrow> p = (ucast (fr_plen w - 8), ucast (crcc (fr_key w) AND 3), snd (snd p)) \<and> frame_bytes w (snd (snd p))"

fun rx_hand :: "rx_pc \<Rightarrow> sp_frame list" where
  "rx_hand R_Top = []" | "rx_hand (R_Index w) = [w]" | "rx_hand (R_Packet i w) = [w]" | "rx_hand (R_Desc i w) = [w]"

fun rx_taken :: "rx_pc \<Rightarrow> nat" where
  "rx_taken R_Top = 0" | "rx_taken (R_Index w) = 0" | "rx_taken (R_Packet i w) = 1" | "rx_taken (R_Desc i w) = 1"

fun rx_pc_ok :: "nat \<Rightarrow> nat \<Rightarrow> (nat \<Rightarrow> nat \<Rightarrow> u8) \<Rightarrow> rx_pc \<Rightarrow> bool" where
  "rx_pc_ok len p bufs R_Top = True"
| "rx_pc_ok len p bufs (R_Index w) = True"
| "rx_pc_ok len p bufs (R_Packet i w) = (i = p mod len)"
| "rx_pc_ok len p bufs (R_Desc i w) = (i = p mod len \<and> frame_bytes w (bufs i))"

text \<open>The frames from number \<open>d\<close> on that have been handed over are in their places; the other descriptors are free.\<close>

definition rx_ring_ok ::
  "(flow_key_t \<Rightarrow> u32) \<Rightarrow> (flow_key_t \<Rightarrow> u32) \<Rightarrow> nat \<Rightarrow> sp_frame list \<Rightarrow> nat \<Rightarrow> rx_host \<Rightarrow> bool" where
  "rx_ring_ok crc crcc len fs d h \<longleftrightarrow>
     (\<forall>j. d \<le> j \<longrightarrow> j < length fs \<longrightarrow> rxq_base (fst h) (j mod len) = sprx_of crc crcc (fs ! j) \<and> frame_bytes (fs ! j) (snd h (j mod len))) \<and>
     (\<forall>i<len. (\<forall>j. d \<le> j \<longrightarrow> j < length fs \<longrightarrow> i \<noteq> j mod len) \<longrightarrow> sprx_type (rxq_base (fst h) i) = FLEXTCP_PL_SPRX_INVALID)"

text \<open>\<open>fs\<close> are the frames that have been handed over.\<close>

definition rx_inv_with :: "(flow_key_t \<Rightarrow> u32) \<Rightarrow> (flow_key_t \<Rightarrow> u32) \<Rightarrow> sp_frame list \<Rightarrow> sprx_sys \<Rightarrow> bool" where
  "rx_inv_with crc crcc fs c \<longleftrightarrow>
     (let s = fst (rs_host c); n = rs_nic c; len = rxq_len s; p = length fs; d = length (rs_delivered c)
      in 1 < len \<and> rn_rx_len n = len \<and> rs_arrived c = fs @ rx_hand (rx_at n) @ flow_ring_sp n \<and> d \<le> p \<and>
         rn_rx_tail n = (p + rx_taken (rx_at n)) mod len \<and> rxq_head s = d mod len \<and> spctx_rx_head (fp_state s) = d mod len \<and>
         (\<exists>t\<le>d. rn_rx_head_c n = t mod len \<and> p + rx_taken (rx_at n) < t + len) \<and>
         rx_pc_ok len p (snd (rs_host c)) (rx_at n) \<and> rx_ring_ok crc crcc len fs d (rs_host c) \<and>
         list_all2 (received crcc) (take d fs) (rs_delivered c))"

definition rx_inv :: "(flow_key_t \<Rightarrow> u32) \<Rightarrow> (flow_key_t \<Rightarrow> u32) \<Rightarrow> sprx_sys \<Rightarrow> bool" where
  "rx_inv crc crcc c \<longleftrightarrow> (\<exists>fs. rx_inv_with crc crcc fs c)"

lemma transfer_frame_bytes: "frame_bytes w (dma_transfer_pkt_slowpath (fr_plen w - MAC_PREPEND_BYTES) (fr_bytes w) b)"
  by (simp add: frame_bytes_def dma_transfer_pkt_slowpath_def MAC_PREPEND_BYTES_def Let_def)

lemma rx_ring_ok_other:
  assumes "rx_ring_ok crc crcc len fs d (s, bufs)" and "length fs < d + len"
  shows "rx_ring_ok crc crcc len fs d (s, bufs(length fs mod len := b))"
proof -
  have "j mod len \<noteq> length fs mod len" if "d \<le> j" "j < length fs" for j using that assms(2) by (intro ring_distinct) auto
  with assms(1) show ?thesis by (simp add: rx_ring_ok_def)
qed

lemma rx_ring_ok_post:
  assumes "rx_ring_ok crc crcc len fs d (s, bufs)" and "length fs < d + len" and "d \<le> length fs"
    and "frame_bytes w (bufs (length fs mod len))"
  shows "rx_ring_ok crc crcc len (fs @ [w]) d (s\<lparr>rxq_base := (rxq_base s)(length fs mod len := sprx_of crc crcc w)\<rparr>, bufs)"
proof -
  have "j mod len \<noteq> length fs mod len" if "d \<le> j" "j < length fs" for j using that assms(2) by (intro ring_distinct) auto
  with assms(1,3,4) show ?thesis unfolding rx_ring_ok_def by (auto simp: nth_append less_Suc_eq)
qed

lemma rx_ring_ok_take:
  assumes "rx_ring_ok crc crcc len fs d (s, bufs)" and "length fs < d + len"
  shows "rx_ring_ok crc crcc len fs (Suc d)
    (s\<lparr>rxq_base := (rxq_base s)(d mod len := x\<lparr>sprx_type := FLEXTCP_PL_SPRX_INVALID\<rparr>), rxq_head := hx, fp_state := fp\<rparr>, bufs)"
proof -
  have "j mod len \<noteq> d mod len" if "Suc d \<le> j" "j < length fs" for j
    using that assms(2) by (intro ring_distinct [THEN not_sym]) auto
  moreover have "sprx_type (rxq_base s i) = FLEXTCP_PL_SPRX_INVALID"
    if "i < len" "i \<noteq> d mod len" "\<forall>j. Suc d \<le> j \<longrightarrow> j < length fs \<longrightarrow> i \<noteq> j mod len" for i
  proof -
    have "i \<noteq> j mod len" if "d \<le> j" "j < length fs" for j
      using that \<open>i \<noteq> d mod len\<close> \<open>\<forall>j. Suc d \<le> j \<longrightarrow> j < length fs \<longrightarrow> i \<noteq> j mod len\<close> by (cases "j = d") auto
    with assms(1) that(1) show ?thesis by (simp add: rx_ring_ok_def)
  qed
  ultimately show ?thesis using assms(1) unfolding rx_ring_ok_def by auto
qed

lemma rx_inv_card:
  assumes "rx_inv_with crc crcc fs c"
  shows "\<exists>fs'. rx_inv_with crc crcc fs' (sprx_step crc crcc Card_Rx c)"
proof -
  obtain s bufs where h: "rs_host c = (s, bufs)" by fastforce
  let ?len = "rxq_len s" and ?p = "length fs" and ?d = "length (rs_delivered c)" and ?n = "rs_nic c"
  note inv = assms [unfolded rx_inv_with_def h Let_def fst_conv snd_conv]
  note unf = rx_inv_with_def h poll_rx_slowpath_def Let_def
  from inv obtain t where t: "t \<le> ?d" "rn_rx_head_c ?n = t mod ?len" "?p + rx_taken (rx_at ?n) < t + ?len" by blast
  have len: "0 < ?len" using inv by simp
  show ?thesis
  proof (cases "rx_at ?n")
    case R_Top
    with inv show ?thesis by (intro exI [of _ fs]) (auto simp: unf split: list.splits)
  next
    case (R_Index w)
    have up: "(if ?len \<le> ?p mod ?len + 1 then 0 else ?p mod ?len + 1) = Suc ?p mod ?len" using len by (rule next_index)
    show ?thesis
    proof (cases "Suc ?p mod ?len = t mod ?len")
      case True
      then have "rx_inv_with crc crcc fs (c\<lparr>rs_host := (s, bufs), rs_nic := ?n\<lparr>rn_rx_head_c := spctx_rx_head (fp_state s)\<rparr>\<rparr>)"
        using R_Index inv t by (auto simp: rx_inv_with_def h Let_def intro!: exI [of _ ?d])
      moreover have "sprx_step crc crcc Card_Rx c = c\<lparr>rs_host := (s, bufs), rs_nic := ?n\<lparr>rn_rx_head_c := spctx_rx_head (fp_state s)\<rparr>\<rparr>"
        using True R_Index inv t(2) up by (simp add: h poll_rx_slowpath_def Let_def)
      ultimately show ?thesis by auto
    next
      case False
      have "Suc ?p \<noteq> t + ?len" using False by auto
      then have "Suc ?p < t + ?len" using t R_Index by simp
      with False R_Index inv t up show ?thesis by (intro exI [of _ fs]) (auto simp: unf)
    qed
  next
    case (R_Packet i w)
    have "rx_ring_ok crc crcc ?len fs ?d (s, bufs(?p mod ?len := b))" for b
      using inv t R_Packet by (intro rx_ring_ok_other) auto
    with R_Packet inv show ?thesis
      by (intro exI [of _ fs]) (auto simp: unf transfer_frame_bytes)
  next
    case (R_Desc i w)
    have "rx_ring_ok crc crcc ?len (fs @ [w]) ?d (s\<lparr>rxq_base := (rxq_base s)(?p mod ?len := sprx_of crc crcc w)\<rparr>, bufs)"
      using inv t R_Desc by (intro rx_ring_ok_post) auto
    with R_Desc inv show ?thesis by (intro exI [of _ "fs @ [w]"]) (auto simp: unf)
  qed
qed

lemma rxq_poll_ring:
  assumes "rx_ring_ok crc crcc len fs d (s, bufs)" and "rxq_head s = d mod len" and "d < length fs"
  shows "rxq_poll s = (Rxq_Packet (d mod len) (ucast (fr_plen (fs ! d) - 8)) (ucast (crcc (fr_key (fs ! d)) AND 3)),
    s\<lparr>rxq_base := (rxq_base s)(d mod len := (rxq_base s (d mod len))\<lparr>sprx_type := FLEXTCP_PL_SPRX_INVALID\<rparr>),
      rxq_head := (if d mod len + 1 = rxq_len s then 0 else d mod len + 1),
      fp_state := (fp_state s)\<lparr>spctx_rx_head := (if d mod len + 1 = rxq_len s then 0 else d mod len + 1)\<rparr>\<rparr>)"
proof -
  have "rxq_base s (d mod len) = sprx_of crc crcc (fs ! d)" using assms(1,3) by (auto simp: rx_ring_ok_def)
  then show ?thesis using assms(2)
    by (simp add: rxq_poll_def sprx_of_def FLEXTCP_PL_SPRX_PACKET_def FLEXTCP_PL_SPRX_INVALID_def MAC_PREPEND_BYTES_def
        NUM_FLOW_GROUPS_def flow_hash_def camht_hash_def Let_def)
qed

lemma rx_inv_poll:
  assumes "rx_inv_with crc crcc fs c"
  shows "rx_inv_with crc crcc fs (sprx_step crc crcc Host_Poll c)"
    and "length (rs_delivered c) < length fs \<Longrightarrow> length (rs_delivered (sprx_step crc crcc Host_Poll c)) = Suc (length (rs_delivered c))"
proof -
  obtain s bufs where h: "rs_host c = (s, bufs)" by fastforce
  let ?len = "rxq_len s" and ?p = "length fs" and ?d = "length (rs_delivered c)" and ?n = "rs_nic c"
  note inv = assms [unfolded rx_inv_with_def h Let_def fst_conv snd_conv]
  from inv obtain t where t: "t \<le> ?d" "rn_rx_head_c ?n = t mod ?len" "?p + rx_taken (rx_at ?n) < t + ?len" by blast
  show "rx_inv_with crc crcc fs (sprx_step crc crcc Host_Poll c)"
  proof (cases "?d < ?p")
    case True
    have ring: "rx_ring_ok crc crcc ?len fs ?d (s, bufs)" using inv by simp
    note poll = rxq_poll_ring [OF ring _ True]
    have up: "(if ?d mod ?len + 1 = ?len then 0 else ?d mod ?len + 1) = Suc ?d mod ?len"
      using inv by (auto simp: mod_Suc)
    have "frame_bytes (fs ! ?d) (bufs (?d mod ?len))" using ring True by (simp add: rx_ring_ok_def)
    then have "list_all2 (received crcc) (take (Suc ?d) fs)
        (rs_delivered c @ [(ucast (fr_plen (fs ! ?d) - 8), ucast (crcc (fr_key (fs ! ?d)) AND 3), bufs (?d mod ?len))])"
      using inv True by (simp add: take_Suc_conv_app_nth list_all2_appendI received_def)
    moreover have "rx_ring_ok crc crcc ?len fs (Suc ?d)
      (s\<lparr>rxq_base := (rxq_base s)(?d mod ?len := x\<lparr>sprx_type := FLEXTCP_PL_SPRX_INVALID\<rparr>), rxq_head := hx, fp_state := fp\<rparr>, bufs)" for x hx fp
      using ring t by (intro rx_ring_ok_take) auto
    ultimately show ?thesis using inv True t poll up by (auto simp: h rx_inv_with_def Let_def intro!: exI [of _ t])
  next
    case False
    then have "sprx_type (rxq_base s (rxq_head s)) = FLEXTCP_PL_SPRX_INVALID" using inv by (auto simp: rx_ring_ok_def)
    then have "rxq_poll s = (Rxq_Empty, s)" by (simp add: rxq_poll_def Let_def)
    then show ?thesis using assms by (simp add: h rx_inv_with_def Let_def)
  qed
  assume True: "?d < ?p"
  have ring: "rx_ring_ok crc crcc ?len fs ?d (s, bufs)" using inv by simp
  from rxq_poll_ring [OF ring _ True] inv show "length (rs_delivered (sprx_step crc crcc Host_Poll c)) = Suc ?d" by (simp add: h)
qed

interpretation rx_queue: invariant_system "sprx_step crc crcc" "\<lambda>_ _. True" "rx_inv crc crcc" for crc crcc
proof
  fix c e
  assume "rx_inv crc crcc c"
  then obtain fs where fs: "rx_inv_with crc crcc fs c" by (auto simp: rx_inv_def)
  show "rx_inv crc crcc (sprx_step crc crcc e c)"
  proof (cases e)
    case (Frame_Arrives w)
    have "rx_inv_with crc crcc fs (sprx_step crc crcc (Frame_Arrives w) c)" using fs by (simp add: rx_inv_with_def Let_def)
    with Frame_Arrives show ?thesis by (auto simp: rx_inv_def)
  next
    case Card_Rx
    then show ?thesis using rx_inv_card [OF fs] by (simp only: rx_inv_def)
  next
    case Host_Poll
    then show ?thesis using rx_inv_poll(1) [OF fs] unfolding rx_inv_def by blast
  qed
qed

text \<open>The queue after initialisation.\<close>

definition rx_fresh :: "sprx_sys \<Rightarrow> bool" where
  "rx_fresh c \<longleftrightarrow>
     (let s = fst (rs_host c); n = rs_nic c
      in 1 < rxq_len s \<and> rn_rx_len n = rxq_len s \<and> rxq_head s = 0 \<and> spctx_rx_head (fp_state s) = 0 \<and> rn_rx_tail n = 0 \<and>
         rn_rx_head_c n = 0 \<and> rx_at n = R_Top \<and> flow_ring_sp n = [] \<and> rs_arrived c = [] \<and> rs_delivered c = [] \<and>
         (\<forall>i. sprx_type (rxq_base s i) = FLEXTCP_PL_SPRX_INVALID))"

lemma rx_fresh_inv: "rx_fresh c \<Longrightarrow> rx_inv crc crcc c"
  unfolding rx_inv_def by (rule exI [of _ "[]"]) (auto simp: rx_fresh_def rx_inv_with_def rx_ring_ok_def Let_def)

lemma rx_all_ok: "run_ok step (\<lambda>_ _. True) es c"
  by (induction es arbitrary: c) auto

text \<open>How many frames the card has handed over, and the steps it needs for one more.\<close>

definition handed :: "sprx_sys \<Rightarrow> nat" where
  "handed c = length (rs_arrived c) - length (rx_hand (rx_at (rs_nic c))) - length (flow_ring_sp (rs_nic c))"

definition rx_left :: "sprx_sys \<Rightarrow> nat" where
  "rx_left c =
     (let n = rs_nic c
      in case rx_at n of
           R_Desc _ _ \<Rightarrow> 1 | R_Packet _ _ \<Rightarrow> 2
         | R_Index _ \<Rightarrow> if (if rn_rx_len n \<le> rn_rx_tail n + 1 then 0 else rn_rx_tail n + 1) \<noteq> rn_rx_head_c n then 3 else 4
         | R_Top \<Rightarrow> 5)"

lemma rx_inv_handed: "rx_inv_with crc crcc fs c \<Longrightarrow> handed c = length fs"
  by (simp add: rx_inv_with_def handed_def Let_def)

lemma rx_progress:
  assumes "rx_inv_with crc crcc fs c" and "length (rs_delivered c) = length fs" and "length fs < length (rs_arrived c)"
  defines "c' \<equiv> sprx_step crc crcc Card_Rx c"
  shows "rs_delivered c' = rs_delivered c \<and> rs_arrived c' = rs_arrived c \<and>
    (handed c' = Suc (handed c) \<or> handed c' = handed c \<and> rx_left c' < rx_left c)"
proof -
  obtain s bufs where h: "rs_host c = (s, bufs)" by fastforce
  note inv = assms(1) [unfolded rx_inv_with_def h Let_def fst_conv snd_conv]
  note unf = c'_def h handed_def poll_rx_slowpath_def Let_def
  show ?thesis
  proof (cases "rx_at (rs_nic c)")
    case (R_Index w)
    have "Suc (length fs) mod rxq_len s \<noteq> length fs mod rxq_len s" using inv by (auto simp: mod_Suc)
    moreover have "(if rxq_len s \<le> length fs mod rxq_len s + 1 then 0 else length fs mod rxq_len s + 1) = Suc (length fs) mod rxq_len s"
      using inv by (intro next_index) linarith
    ultimately show ?thesis using R_Index inv assms(2) by (auto simp: unf rx_left_def)
  next
    case R_Top
    then show ?thesis using inv assms(3) by (cases "flow_ring_sp (rs_nic c)") (auto simp: unf rx_left_def)
  qed (use inv in \<open>auto simp: unf rx_left_def\<close>)
qed

lemma rx_finishes:
  "rx_inv_with crc crcc fs c \<Longrightarrow> length (rs_delivered c) < length (rs_arrived c) \<Longrightarrow> rx_left c \<le> k \<Longrightarrow>
     \<exists>j\<le>k. length (rs_delivered (run (sprx_step crc crcc) (replicate j Card_Rx @ [Host_Poll]) c)) = Suc (length (rs_delivered c))"
proof (induction k arbitrary: fs c)
  case 0
  then show ?case by (auto simp: rx_left_def Let_def split: rx_pc.splits if_splits)
next
  case (Suc k)
  let ?c = "sprx_step crc crcc Card_Rx c"
  show ?case
  proof (cases "length (rs_delivered c) < length fs")
    case True
    then show ?thesis using rx_inv_poll(2) [OF Suc.prems(1)] by (intro exI [of _ 0]) (simp del: sprx_step.simps)
  next
    case False
    then have d: "length (rs_delivered c) = length fs" using Suc.prems(1) by (simp add: rx_inv_with_def Let_def)
    note pr = rx_progress [OF Suc.prems(1) d Suc.prems(2) [unfolded d]]
    obtain fs' where fs': "rx_inv_with crc crcc fs' ?c" using rx_inv_card [OF Suc.prems(1)] by blast
    have "\<exists>j\<le>k. length (rs_delivered (run (sprx_step crc crcc) (replicate j Card_Rx @ [Host_Poll]) ?c)) = Suc (length (rs_delivered ?c))"
    proof (cases "length (rs_delivered ?c) < length fs'")
      case True
      then show ?thesis using rx_inv_poll(2) [OF fs'] by (intro exI [of _ 0]) (simp del: sprx_step.simps)
    next
      case False
      then have "rx_left ?c < rx_left c" using pr d rx_inv_handed [OF Suc.prems(1)] rx_inv_handed [OF fs'] by auto
      then show ?thesis using Suc.IH [OF fs'] pr Suc.prems(2,3) by (simp del: sprx_step.simps)
    qed
    then obtain j where "j \<le> k"
      "length (rs_delivered (run (sprx_step crc crcc) (replicate j Card_Rx @ [Host_Poll]) ?c)) = Suc (length (rs_delivered c))"
      using pr by (auto simp del: sprx_step.simps)
    then show ?thesis by (intro exI [of _ "Suc j"]) (simp del: sprx_step.simps)
  qed
qed

text \<open>
  C33. The queue from the card to the slow path is first in, first out and loses nothing. Whatever the order in which
  frames arrive, the card's context runs and the host polls: the host is given the frames in the order of
  their arrival, each with its length, its flow group and its bytes apart from the last eight; a
  packet is never seen before its bytes are in the buffer, nor overwritten before the host has seen it;
  and if a frame has not been delivered, at most five steps of the card and a poll deliver the next one.
\<close>

theorem sp_rx_in_order:
  fixes crc crcc es
  assumes "rx_fresh c0"
  defines "c \<equiv> run (sprx_step crc crcc) es c0"
  shows "list_all2 (received crcc) (take (length (rs_delivered c)) (rs_arrived c)) (rs_delivered c) \<and>
    (length (rs_arrived c) = length (rs_delivered c) \<or>
     (\<exists>j\<le>5. length (rs_delivered (run (sprx_step crc crcc) (replicate j Card_Rx @ [Host_Poll]) c)) = Suc (length (rs_delivered c))))"
proof -
  have "rx_inv crc crcc c" unfolding c_def by (rule rx_queue.run_invar [OF rx_fresh_inv [OF assms(1)] rx_all_ok])
  then obtain fs where fs: "rx_inv_with crc crcc fs c" by (auto simp: rx_inv_def)
  then have "take (length (rs_delivered c)) (rs_arrived c) = take (length (rs_delivered c)) fs"
    and l: "length (rs_delivered c) \<le> length (rs_arrived c)" by (auto simp: rx_inv_with_def Let_def)
  moreover have "rx_left c \<le> 5" by (auto simp: rx_left_def Let_def split: rx_pc.split)
  moreover have "length (rs_delivered c) < length (rs_arrived c) \<or> length (rs_arrived c) = length (rs_delivered c)" using l by linarith
  ultimately show ?thesis using fs rx_finishes [OF fs, of 5] unfolding rx_inv_with_def Let_def by metis
qed

definition sample_rx :: sprx_sys where
  "sample_rx = \<lparr>rs_host = (idle_nicif, \<lambda>_ _. 0), rs_nic = \<lparr>rn_rx_tail = 0, rn_rx_head_c = 0, rn_rx_len = 256, rx_at = R_Top,
     flow_ring_sp = []\<rparr>, rs_arrived = [], rs_delivered = []\<rparr>"

lemma sample_rx_fresh: "rx_fresh sample_rx"
  by (simp add: rx_fresh_def sample_rx_def idle_nicif_def FLEXTCP_PL_SPRX_INVALID_def)

definition sample_frame :: sp_frame where
  "sample_frame = \<lparr>fr_plen = 72, fr_key = conn_key, fr_bytes = \<lambda>_. 0xAB\<rparr>"

theorem sp_rx_in_order_witness:
  "\<exists>j\<le>5. length (rs_delivered (run (sprx_step sum_hash sum_hash) (replicate j Card_Rx @ [Host_Poll])
     (run (sprx_step sum_hash sum_hash) [Frame_Arrives sample_frame] sample_rx))) = 1"
proof -
  have "rs_delivered (run (sprx_step sum_hash sum_hash) [Frame_Arrives sample_frame] sample_rx) = []"
    "length (rs_arrived (run (sprx_step sum_hash sum_hash) [Frame_Arrives sample_frame] sample_rx)) = 1"
    by (simp_all add: sample_rx_def)
  with sp_rx_in_order [OF sample_rx_fresh, of sum_hash sum_hash "[Frame_Arrives sample_frame]"] show ?thesis by simp
qed

subsection \<open>The end of a packet\<close>

text \<open>Bytes from offset \<open>o\<close> on are those the buffers had in the beginning, also in what the host was given.\<close>

definition stale_from :: "nat \<Rightarrow> (nat \<Rightarrow> nat \<Rightarrow> u8) \<Rightarrow> sprx_sys \<Rightarrow> bool" where
  "stale_from off b0 c \<longleftrightarrow> (\<forall>i k. off \<le> k \<longrightarrow> snd (rs_host c) i k = b0 i k) \<and>
     (\<forall>p\<in>set (rs_delivered c). \<exists>i. \<forall>k\<ge>off. snd (snd p) k = b0 i k) \<and>
     (\<forall>w\<in>set (rx_hand (rx_at (rs_nic c)) @ flow_ring_sp (rs_nic c)). unat (fr_plen w - 16) \<le> off)"

fun short_frames :: "nat \<Rightarrow> sprx_event \<Rightarrow> bool" where
  "short_frames off (Frame_Arrives w) = (unat (fr_plen w - 16) \<le> off)"
| "short_frames off Card_Rx = True"
| "short_frames off Host_Poll = True"

lemma stale_from_step:
  assumes "stale_from off b0 c" and "short_frames off e"
  shows "stale_from off b0 (sprx_step crc crcc e c)"
proof -
  obtain s bufs where h: "rs_host c = (s, bufs)" by fastforce
  note unf = h stale_from_def poll_rx_slowpath_def dma_transfer_pkt_slowpath_def MAC_PREPEND_BYTES_def Let_def
  show ?thesis
  proof (cases e)
    case (Frame_Arrives w)
    then show ?thesis using assms by (auto simp: stale_from_def)
  next
    case Card_Rx
    then show ?thesis using assms(1) by (cases "rx_at (rs_nic c)") (auto simp: unf split: list.split)
  next
    case Host_Poll
    then show ?thesis using assms(1) by (auto simp: unf split: prod.split rxq_result.split)
  qed
qed

lemma stale_from_run:
  "stale_from off b0 c \<Longrightarrow> list_all (short_frames off) es \<Longrightarrow> stale_from off b0 (run (sprx_step crc crcc) es c)"
  by (induction es arbitrary: c) (auto simp del: sprx_step.simps intro: stale_from_step)

lemma arrived_frames:
  "w \<in> set (rs_arrived (run (sprx_step crc crcc) es c)) \<Longrightarrow> w \<in> set (rs_arrived c) \<or> Frame_Arrives w \<in> set es"
proof (induction es arbitrary: c)
  case (Cons e es)
  have "w \<in> set (rs_arrived (sprx_step crc crcc e c)) \<Longrightarrow> w \<in> set (rs_arrived c) \<or> e = Frame_Arrives w"
    by (cases e) (auto split: prod.splits rxq_result.splits)
  with Cons show ?case by auto
qed simp


definition sample_rx_events :: "sprx_event list" where
  "sample_rx_events = [Frame_Arrives sample_frame, Card_Rx, Card_Rx, Card_Rx, Card_Rx, Host_Poll]"


end
